(* ===== verification/Prelude.thy ===== *)
theory Prelude
  imports Main "HOL-Library.Word"
begin

text \<open>
  What every component of the model shares: the names of the machine types, the exceptions
  of the library as values, and the ordered containers of the C++ standard library the
  wardens keep their state in.
  \<^item> \<open>map_put\<close> and \<open>map_of\<close> on a key-sorted association list are \<open>std::map::operator[]\<close>
    and its look-up: the wardens iterate over the map, so its order is part of the model;
  \<^item> \<open>mm_insert\<close> is \<open>std::multimap::insert\<close> (an equal key goes after the ones already
    there), \<open>erase_if_first\<close> is \<open>std::find_if\<close> followed by \<open>erase\<close>;
  \<^item> \<open>std::erase(v, x)\<close> is \<^const>\<open>removeAll\<close>.
  Hint collections: \<open>frame\<close> holds the equations "this operation leaves that field alone".
\<close>

named_theorems frame \<open>fields an operation does not touch\<close>

subsection \<open>Machine types\<close>

type_synonym fd = int          \<comment> \<open>\<open>socket_descriptor\<close>; \<open>invalid_handle\<close> is \<open>-1\<close>\<close>
type_synonym byte = "8 word"
type_synonym ns = int          \<comment> \<open>\<open>std::chrono::nanoseconds\<close> and \<open>steady_clock\<close> points\<close>
type_synonym cid = nat         \<comment> \<open>the address of a completion object\<close>

subsection \<open>Exceptions\<close>

text \<open>
  The exceptions the library throws, with the text it gives them. \<open>Undefined\<close> stands for
  a call whose precondition the C++ standard library leaves undefined (a \<open>std::span\<close>
  sliced past its end).
\<close>

datatype exn =
    SystemError int string     \<comment> \<open>\<open>felspar::stdexcept::system_error\<close> with its code\<close>
  | Timeout string             \<comment> \<open>\<open>felspar::io::timeout\<close>\<close>
  | LogicError string
  | RuntimeError string
  | BadOptionalAccess          \<comment> \<open>\<open>std::optional::value\<close> of an empty optional\<close>
  | Undefined string

subsection \<open>Error numbers (Linux)\<close>

definition EPERM :: int where [simp]: "EPERM = 1"
definition EINTR :: int where [simp]: "EINTR = 4"
definition EBADF :: int where [simp]: "EBADF = 9"
definition EAGAIN :: int where [simp]: "EAGAIN = 11"
definition EWOULDBLOCK :: int where [simp]: "EWOULDBLOCK = 11"
definition ETIME :: int where [simp]: "ETIME = 62"
definition ECONNREFUSED :: int where [simp]: "ECONNREFUSED = 111"
definition EINPROGRESS :: int where [simp]: "EINPROGRESS = 115"
definition ECANCELED :: int where [simp]: "ECANCELED = 125"

subsection \<open>std::map as a key-sorted association list\<close>

fun map_put :: "'k::linorder \<Rightarrow> 'v \<Rightarrow> ('k \<times> 'v) list \<Rightarrow> ('k \<times> 'v) list" where
  "map_put k v [] = [(k, v)]"
| "map_put k v ((k', v') # m) =
     (if k < k' then (k, v) # (k', v') # m
      else if k = k' then (k, v) # m
      else (k', v') # map_put k v m)"

lemma map_of_map_put [simp]: "map_of (map_put k v m) = (map_of m)(k \<mapsto> v)"
  by (induction k v m rule: map_put.induct) (auto simp: fun_eq_iff)

lemma keys_map_put [simp]: "fst ` set (map_put k v m) = insert k (fst ` set m)"
  by (induction k v m rule: map_put.induct) auto

lemma sorted_map_put:
  "sorted_wrt (<) (map fst m) \<Longrightarrow> sorted_wrt (<) (map fst (map_put k v m))"
proof (induction k v m rule: map_put.induct)
  case (2 k v k' v' m)
  have "\<And>x. x \<in> fst ` set (map_put k v m) \<Longrightarrow> x = k \<or> x \<in> fst ` set m"
    by auto
  with 2 show ?case by (fastforce simp del: keys_map_put)
qed simp

lemma sorted_keys_distinct: "sorted_wrt (<) (ks :: 'k::linorder list) \<Longrightarrow> distinct ks"
  by (simp add: strict_sorted_iff)

subsection \<open>std::multimap as a key-sorted list of pairs\<close>

fun mm_insert :: "'k::linorder \<Rightarrow> 'v \<Rightarrow> ('k \<times> 'v) list \<Rightarrow> ('k \<times> 'v) list" where
  "mm_insert k v [] = [(k, v)]"
| "mm_insert k v ((k', v') # m) =
     (if k < k' then (k, v) # (k', v') # m else (k', v') # mm_insert k v m)"

fun erase_if_first :: "('a \<Rightarrow> bool) \<Rightarrow> 'a list \<Rightarrow> 'a list" where
  "erase_if_first P [] = []"
| "erase_if_first P (x # xs) = (if P x then xs else x # erase_if_first P xs)"

lemma set_mm_insert [simp]: "set (mm_insert k v m) = insert (k, v) (set m)"
  by (induction k v m rule: mm_insert.induct) auto

lemma sorted_mm_insert: "sorted (map fst m) \<Longrightarrow> sorted (map fst (mm_insert k v m))"
  by (induction k v m rule: mm_insert.induct) force+

lemma length_mm_insert [simp]: "length (mm_insert k v m) = Suc (length m)"
  by (induction k v m rule: mm_insert.induct) auto

lemma distinct_snd_mm_insert:
  "distinct (map snd (mm_insert k v m)) \<longleftrightarrow> v \<notin> snd ` set m \<and> distinct (map snd m)"
  by (induction k v m rule: mm_insert.induct) auto

lemma set_erase_if_first: "set (erase_if_first P xs) \<subseteq> set xs"
  by (induction xs) auto

lemma sorted_erase_if_first: "sorted (map f xs) \<Longrightarrow> sorted (map f (erase_if_first P xs))"
  by (induction xs) (auto dest: subsetD [OF set_erase_if_first])

lemma distinct_erase_if_first: "distinct (map f xs) \<Longrightarrow> distinct (map f (erase_if_first P xs))"
  by (induction xs) (auto dest: subsetD [OF set_erase_if_first])

lemma erase_if_first_absent [simp]: "\<forall>x\<in>set xs. \<not> P x \<Longrightarrow> erase_if_first P xs = xs"
  by (induction xs) auto

lemma erase_one:
  "length (filter P (erase_if_first P xs)) = length (filter P xs) - 1"
  by (induction xs) auto

lemma erase_snd_set:
  "distinct (map snd m) \<Longrightarrow>
   set (erase_if_first (\<lambda>s. snd s = c) m) = {s \<in> set m. snd s \<noteq> c}"
proof (induction m)
  case (Cons s m)
  then show ?case by (auto simp: image_iff)
qed simp

lemma erase_after_insert:
  "c \<notin> snd ` set m \<Longrightarrow> erase_if_first (\<lambda>s. snd s = c) (mm_insert d c m) = m"
  by (induction m) auto

end
