(* ===== verification/Outcome.thy ===== *)
theory Outcome
  imports Prelude
begin

text \<open>
  The outcome of an IOP (\<open>include/felspar/io/completion.hpp\<close>), the exceptions it is turned
  into (\<open>exceptions.hpp\<close>) and the \<open>ec\<close> wrapper that exposes it (\<open>error.hpp\<close>).
  \<open>outcome<R>\<close> derives from \<open>outcome<void>\<close>, and so does the record. An error code is its
  number: all of them are in the system category. Source locations only label exceptions and
  are left out of the model.
\<close>

record outcome_void =
  error :: int
  message :: string

record 'r outcome = outcome_void +
  result :: "'r option"

definition no_outcome_void :: outcome_void where
  "no_outcome_void = \<lparr>error = 0, message = ''''\<rparr>"

definition no_outcome :: "'r outcome" where
  "no_outcome = \<lparr>error = 0, message = '''', result = None\<rparr>"

text \<open>\<open>explicit operator bool\<close>: true if no error occurred.\<close>

definition outcome_ok :: "('r, 'm) outcome_scheme \<Rightarrow> bool" where
  "outcome_ok out \<longleftrightarrow> \<not> (error out \<noteq> 0)"

definition throw_exception :: "'m outcome_void_scheme \<Rightarrow> exn" where
  "throw_exception out =
     (if error out = ETIME then Timeout (message out)
      else SystemError (error out) (message out))"

text \<open>\<open>outcome<void>::value\<close>.\<close>

definition value_void :: "'m outcome_void_scheme \<Rightarrow> exn + unit" where
  "value_void out = (if error out \<noteq> 0 then Inl (throw_exception out) else Inr ())"

definition assign_value :: "'r \<Rightarrow> 'r outcome \<Rightarrow> 'r outcome" where
  "assign_value r out = out\<lparr>error := 0, message := '''', result := Some r\<rparr>"

definition assign_void :: "outcome_void \<Rightarrow> 'r outcome \<Rightarrow> 'r outcome" where
  "assign_void r out = out\<lparr>error := error r, message := message r, result := None\<rparr>"

text \<open>\<open>value() &&\<close>, which consumes the value, and \<open>value() &\<close>.\<close>

definition value_rvalue :: "'r outcome \<Rightarrow> exn + 'r" where
  "value_rvalue out =
     (if error out \<noteq> 0 then Inl (throw_exception out)
      else (case result out of
              Some r \<Rightarrow> Inr r
            | None \<Rightarrow> Inl (LogicError ''Optional in outcome was empty'')))"

definition value_lvalue :: "'r outcome \<Rightarrow> exn + 'r" where
  "value_lvalue out =
     (if error out \<noteq> 0 then Inl (throw_exception out)
      else (case result out of Some r \<Rightarrow> Inr r | None \<Rightarrow> Inl BadOptionalAccess))"

text \<open>
  \<open>iop<R>::await_resume\<close> gives the value or throws; \<open>ec<R>::await_resume\<close> hands the outcome
  itself over.
\<close>

definition iop_await_resume :: "'r outcome \<Rightarrow> exn + 'r" where
  "iop_await_resume out = value_rvalue out"

definition ec_await_resume :: "'r outcome \<Rightarrow> 'r outcome" where
  "ec_await_resume out = out"

lemmas outcome_defs = outcome_ok_def throw_exception_def value_void_def assign_value_def
  assign_void_def value_rvalue_def value_lvalue_def iop_await_resume_def ec_await_resume_def
  no_outcome_def no_outcome_void_def

subsection \<open>Which exception an outcome becomes\<close>

text \<open>
  An outcome is consistent when it holds an error or a result but not both; every assignment
  leaves a consistent outcome, and for these the two forms of \<open>value\<close> agree with \<open>bool\<close>.
\<close>

definition settled :: "'r outcome \<Rightarrow> bool" where
  "settled out \<longleftrightarrow> (error out = 0 \<longleftrightarrow> result out \<noteq> None)"

lemma settled_assign_value [simp]: "settled (assign_value r out)"
  by (simp add: settled_def outcome_defs)

lemma settled_assign_void: "error e \<noteq> 0 \<Longrightarrow> settled (assign_void e out)"
  by (simp add: settled_def outcome_defs)

lemma value_after_assign [simp]: "value_rvalue (assign_value r out) = Inr r"
  by (simp add: outcome_defs)

lemma value_of_settled:
  "settled out \<Longrightarrow> value_rvalue out = value_lvalue out \<and> (outcome_ok out \<longleftrightarrow> isl (value_rvalue out) = False)"
  by (auto simp: settled_def outcome_defs split: option.splits)

end
