(* ===== verification/Posix.thy ===== *)
theory Posix
  imports Prelude
begin

unbundle bit_operations_syntax

text \<open>
  The operating system as a parameter, and the thin POSIX layer of the library
  (\<open>include/felspar/io/posix.hpp\<close>, \<open>src/posix.cpp\<close>, the socket and pipe creation of
  \<open>src/warden.cpp\<close>).
  The system calls are not code of the repository: \<open>posix_os\<close> is a record of functions over
  an arbitrary kernel state \<open>'k\<close>, and every definition that makes a system call takes it as
  an argument. Nothing is assumed of it beyond its types, except where a theorem says so.
  The build modelled is the Linux one: POSIX sockets, \<open>accept4\<close> and \<open>pipe2\<close> present.
\<close>

subsection \<open>The system interface\<close>

record sockaddr =
  sa_family :: int
  sa_port :: "16 word"       \<comment> \<open>\<open>sin_port\<close> or \<open>sin6_port\<close>, in network byte order\<close>
  sa_addr :: "byte list"

record pollfd =
  pfd :: fd
  events :: "16 word"
  revents :: "16 word"

text \<open>
  A call that fails returns \<open>-1\<close> (here \<open>None\<close> where it would return data) and leaves its
  reason in \<open>os_errno\<close>. \<open>os_read\<close> and \<open>os_write\<close> are given the length of the buffer and
  answer with the bytes moved; \<open>os_poll\<close> answers with its result and the \<open>revents\<close> of the
  i-th entry; \<open>os_so_error\<close> is \<open>getsockopt(SO_ERROR)\<close>: its result and the error value.
\<close>

record 'k posix_os =
  os_errno :: "'k \<Rightarrow> int"
  os_now :: "'k \<Rightarrow> ns \<times> 'k"
  os_close :: "fd \<Rightarrow> 'k \<Rightarrow> int \<times> 'k"
  os_read :: "fd \<Rightarrow> nat \<Rightarrow> 'k \<Rightarrow> byte list option \<times> 'k"
  os_write :: "fd \<Rightarrow> byte list \<Rightarrow> 'k \<Rightarrow> nat option \<times> 'k"
  os_accept4 :: "fd \<Rightarrow> 'k \<Rightarrow> int \<times> 'k"
  os_connect :: "fd \<Rightarrow> sockaddr \<Rightarrow> 'k \<Rightarrow> int \<times> 'k"
  os_so_error :: "fd \<Rightarrow> 'k \<Rightarrow> int \<times> int \<times> 'k"
  os_poll :: "pollfd list \<Rightarrow> int \<Rightarrow> 'k \<Rightarrow> int \<times> (nat \<Rightarrow> 16 word) \<times> 'k"
  os_ignore_sigpipe :: "'k \<Rightarrow> 'k"
  os_pipe2 :: "'k \<Rightarrow> (fd \<times> fd) option \<times> 'k"
  os_socket :: "int \<Rightarrow> int \<Rightarrow> int \<Rightarrow> 'k \<Rightarrow> fd \<times> 'k"
  os_getfl :: "fd \<Rightarrow> 'k \<Rightarrow> 32 word \<times> 'k"
  os_setfl :: "fd \<Rightarrow> 32 word \<Rightarrow> 'k \<Rightarrow> int \<times> 'k"
  os_listen :: "fd \<Rightarrow> int \<Rightarrow> 'k \<Rightarrow> int \<times> 'k"
  os_bind :: "fd \<Rightarrow> sockaddr \<Rightarrow> 'k \<Rightarrow> int \<times> 'k"
  os_reuse_port :: "fd \<Rightarrow> int \<Rightarrow> 'k \<Rightarrow> int \<times> 'k"
  os_getrlimit :: "'k \<Rightarrow> int \<times> nat \<times> nat \<times> 'k"
  os_setrlimit :: "nat \<Rightarrow> nat \<Rightarrow> 'k \<Rightarrow> int \<times> 'k"
  os_getaddrinfo :: "string \<Rightarrow> 'k \<Rightarrow> int \<times> sockaddr list \<times> 'k"

text \<open>
  \<open>read\<close> and \<open>write\<close> as the code sees them: a non-negative return value is the number of
  bytes moved, and the calls never move more than the buffer holds.
\<close>

definition sys_read :: "'k posix_os \<Rightarrow> fd \<Rightarrow> nat \<Rightarrow> 'k \<Rightarrow> int \<times> byte list \<times> 'k" where
  "sys_read os f n k =
     (case os_read os f n k of
        (None, k') \<Rightarrow> (-1, [], k')
      | (Some bs, k') \<Rightarrow> (int (length (take n bs)), take n bs, k'))"

definition sys_write :: "'k posix_os \<Rightarrow> fd \<Rightarrow> byte list \<Rightarrow> 'k \<Rightarrow> int \<times> 'k" where
  "sys_write os f bs k =
     (case os_write os f bs k of
        (None, k') \<Rightarrow> (-1, k')
      | (Some n, k') \<Rightarrow> (int (min n (length bs)), k'))"

lemma sys_read_bound: "sys_read os f n k = (r, bs, k') \<Longrightarrow> length bs \<le> n \<and> r \<le> int n"
  by (auto simp: sys_read_def split: prod.splits option.splits)

lemma sys_read_length: "sys_read os f n k = (r, bs, k') \<Longrightarrow> 0 \<le> r \<Longrightarrow> r = int (length bs)"
  by (auto simp: sys_read_def split: prod.splits option.splits)

lemma sys_write_bound: "sys_write os f bs k = (r, k') \<Longrightarrow> r \<le> int (length bs)"
  by (auto simp: sys_write_def split: prod.splits option.splits)

text \<open>\<open>get_error\<close>, \<open>would_block\<close> and \<open>bad_fd\<close> on POSIX.\<close>

definition get_error :: "'k posix_os \<Rightarrow> 'k \<Rightarrow> int" where
  "get_error os k = os_errno os k"

definition would_block :: "int \<Rightarrow> bool" where
  "would_block err \<longleftrightarrow> err = EAGAIN \<or> err = EWOULDBLOCK"

definition bad_fd :: "int \<Rightarrow> bool" where
  "bad_fd err \<longleftrightarrow> err = EBADF"

subsection \<open>Socket helpers\<close>

definition O_NONBLOCK :: "32 word" where "O_NONBLOCK = 0x800"
definition AF_INET :: int where [simp]: "AF_INET = 2"
definition AF_INET6 :: int where [simp]: "AF_INET6 = 10"
definition SOCK_STREAM :: int where [simp]: "SOCK_STREAM = 1"

text \<open>\<open>htons\<close> and \<open>htonl\<close> on a little-endian machine swap the bytes.\<close>

definition htons :: "16 word \<Rightarrow> 16 word" where
  "htons w = push_bit 8 w OR drop_bit 8 w"

definition htonl :: "32 word \<Rightarrow> byte list" where
  "htonl w = [ucast (drop_bit 24 w), ucast (drop_bit 16 w), ucast (drop_bit 8 w), ucast w]"

definition set_port :: "sockaddr \<Rightarrow> 16 word \<Rightarrow> sockaddr" where
  "set_port address port =
     (if sa_family address = AF_INET then address\<lparr>sa_port := htons port\<rparr>
      else if sa_family address = AF_INET6 then address\<lparr>sa_port := htons port\<rparr>
      else address)"

definition listen_fd :: "'k posix_os \<Rightarrow> fd \<Rightarrow> int \<Rightarrow> 'k \<Rightarrow> (exn + unit) \<times> 'k" where
  "listen_fd os f backlog k =
     (let (r, k1) = os_listen os f backlog k in
      if r = -1 then (Inl (SystemError (get_error os k1) ''listen error''), k1)
      else (Inr (), k1))"

definition set_non_blocking :: "'k posix_os \<Rightarrow> fd \<Rightarrow> 'k \<Rightarrow> (exn + unit) \<times> 'k" where
  "set_non_blocking os sock k =
     (let (flags, k1) = os_getfl os sock k;
          (err, k2) = os_setfl os sock (flags OR O_NONBLOCK) k1 in
      if err \<noteq> 0 then (Inl (SystemError (get_error os k2) ''fcntl F_SETFL error''), k2)
      else (Inr (), k2))"

definition set_reuse_port :: "'k posix_os \<Rightarrow> fd \<Rightarrow> 'k \<Rightarrow> (exn + unit) \<times> 'k" where
  "set_reuse_port os sock k =
     (let (r, k1) = os_reuse_port os sock 1 k in
      if r = -1 then (Inl (SystemError (get_error os k1) ''setsockopt SO_REUSEPORT failed''), k1)
      else (Inr (), k1))"

definition bind_fd ::
  "'k posix_os \<Rightarrow> fd \<Rightarrow> 32 word \<Rightarrow> 16 word \<Rightarrow> 'k \<Rightarrow> (exn + unit) \<times> 'k" where
  "bind_fd os sock addr port k =
     (let sin = \<lparr>sa_family = AF_INET, sa_port = htons port, sa_addr = htonl addr\<rparr>;
          (r, k1) = os_bind os sock sin k in
      if r \<noteq> 0 then (Inl (SystemError (get_error os k1) ''Binding server socket''), k1)
      else (Inr (), k1))"

text \<open>\<open>bind_to_any_address\<close>: \<open>INADDR_ANY\<close> is \<open>0.0.0.0\<close>.\<close>

definition bind_to_any_address ::
  "'k posix_os \<Rightarrow> fd \<Rightarrow> 16 word \<Rightarrow> 'k \<Rightarrow> (exn + unit) \<times> 'k" where
  "bind_to_any_address os sock port k = bind_fd os sock 0 port k"

definition promise_to_never_use_select ::
  "'k posix_os \<Rightarrow> 'k \<Rightarrow> (exn + nat \<times> nat) \<times> 'k" where
  "promise_to_never_use_select os k =
     (let (r, cur, mx, k1) = os_getrlimit os k in
      if r \<noteq> 0
      then (Inl (SystemError (os_errno os k1) ''getrlimit RLIMIT_NOFILE error''), k1)
      else if cur < mx then
        (let (r2, k2) = os_setrlimit os mx mx k1 in
         if r2 \<noteq> 0
         then (Inl (SystemError (os_errno os k2) ''setrlimit RLIMIT_NOFILE error''), k2)
         else (Inr (cur, mx), k2))
      else (Inr (cur, mx), k1))"

text \<open>
  \<open>warden::create_socket\<close>: the socket is prepared by the warden's \<open>do_prepare_socket\<close>
  (passed as \<open>prepare\<close>), and its \<open>posix::fd\<close> closes it when that throws.
\<close>

definition create_socket ::
  "'k posix_os \<Rightarrow> (fd \<Rightarrow> 'k \<Rightarrow> (exn + unit) \<times> 'k) \<Rightarrow> int \<Rightarrow> int \<Rightarrow> int \<Rightarrow> 'k
    \<Rightarrow> (exn + fd) \<times> 'k" where
  "create_socket os prepare domain type protocol k =
     (let (s, k1) = os_socket os domain type protocol k in
      if s = -1
      then (Inl (SystemError (get_error os k1) ''Error creating socket''), k1)
      else (case prepare s k1 of
              (Inl e, k2) \<Rightarrow> (Inl e, snd (os_close os s k2))
            | (Inr _, k2) \<Rightarrow> (Inr s, k2)))"

definition create_pipe :: "'k posix_os \<Rightarrow> 'k \<Rightarrow> (exn + fd \<times> fd) \<times> 'k" where
  "create_pipe os k =
     (case os_pipe2 os k of
        (Some rw, k1) \<Rightarrow> (Inr rw, k1)
      | (None, k1) \<Rightarrow> (Inl (SystemError (get_error os k1) ''Creating pipe''), k1))"

text \<open>
  The same where there is no \<open>pipe2\<close>: \<open>os_pipe\<close> is \<open>pipe(2)\<close>. The two owners close what they hold
  when a mode cannot be set, the last one first.
\<close>

definition create_pipe_portable ::
  "'k posix_os \<Rightarrow> ('k \<Rightarrow> (fd \<times> fd) option \<times> 'k) \<Rightarrow> 'k \<Rightarrow> (exn + fd \<times> fd) \<times> 'k" where
  "create_pipe_portable os os_pipe k =
     (case os_pipe k of
        (None, k1) \<Rightarrow> (Inl (SystemError (get_error os k1) ''Creating pipe''), k1)
      | (Some (r, w), k1) \<Rightarrow>
          (let unwind = (\<lambda>k. snd (os_close os r (snd (os_close os w k))))
           in case set_non_blocking os r k1 of
                (Inl e, k2) \<Rightarrow> (Inl e, unwind k2)
              | (Inr u, k2) \<Rightarrow>
                  (case set_non_blocking os w k2 of
                     (Inl e, k3) \<Rightarrow> (Inl e, unwind k3)
                   | (Inr v, k3) \<Rightarrow> (Inr (r, w), k3))))"

subsection \<open>Lemmas on the helpers\<close>

lemma bit_htons:
  "bit (htons w) n \<longleftrightarrow> n < 16 \<and> (if n < 8 then bit w (n + 8) else bit w (n - 8))"
  by (cases "n < 8") (auto simp: htons_def bit_simps add.commute dest: bit_imp_le_length)

lemma htons_involution: "htons (htons w) = w"
  by (rule bit_word_eqI) (auto simp: bit_htons)

lemma set_port_idem: "set_port (set_port a p) q = set_port a q"
  by (simp add: set_port_def)

end
