(* ===== verification/AsyncResumption.thy ===== *)
theory AsyncResumption
  imports Prelude
begin

text \<open>
  Deferred resumption (\<open>include/felspar/io/async_resumption.hpp\<close>), and coroutine handles.
  A handle is null, the no-op coroutine or a coroutine, named by a number. Resuming a
  coroutine runs code of the application, so \<open>resume_all\<close> takes the resumption as an
  argument: it may do anything to the warden that holds the queues, in particular queue more
  handles. \<open>rget\<close> and \<open>rput\<close> give access to the queues inside the state of that warden.
\<close>

datatype coro = NullCoro | NoopCoro | Coro nat

record async_resumption =
  queued :: "coro list"
  resuming :: "coro list"

definition no_requests :: async_resumption where
  "no_requests = \<lparr>queued = [], resuming = []\<rparr>"

text \<open>The loop of \<open>queue\<close>: push the non-null handles, and remember whether there was one.\<close>

fun queue_loop :: "coro list \<Rightarrow> bool \<Rightarrow> async_resumption \<Rightarrow> bool \<times> async_resumption" where
  "queue_loop [] queued_any a = (queued_any, a)"
| "queue_loop (h # hs) queued_any a =
     (if h \<noteq> NullCoro then queue_loop hs True (a\<lparr>queued := queued a @ [h]\<rparr>)
      else queue_loop hs queued_any a)"

definition queue :: "coro list \<Rightarrow> async_resumption \<Rightarrow> bool \<times> async_resumption" where
  "queue handles a = queue_loop handles False a"

definition has_requests :: "async_resumption \<Rightarrow> bool" where
  "has_requests a \<longleftrightarrow> queued a \<noteq> []"

definition swap_queues :: "async_resumption \<Rightarrow> async_resumption" where
  "swap_queues a = \<lparr>queued = resuming a, resuming = queued a\<rparr>"

definition resume_all ::
  "('w \<Rightarrow> async_resumption) \<Rightarrow> (async_resumption \<Rightarrow> 'w \<Rightarrow> 'w) \<Rightarrow> (coro \<Rightarrow> 'w \<Rightarrow> 'w) \<Rightarrow> 'w \<Rightarrow> 'w" where
  "resume_all rget rput resume w =
     (let w1 = rput (swap_queues (rget w)) w;
          w2 = fold resume (resuming (rget w1)) w1
      in rput ((rget w2)\<lparr>resuming := []\<rparr>) w2)"

subsection \<open>Queueing\<close>

lemma queue_loop_eq:
  "queue_loop hs b a =
     (b \<or> (\<exists>h\<in>set hs. h \<noteq> NullCoro), a\<lparr>queued := queued a @ filter (\<lambda>h. h \<noteq> NullCoro) hs\<rparr>)"
  by (induction hs b a rule: queue_loop.induct) auto

lemma queue_eq:
  "queue hs a =
     ((\<exists>h\<in>set hs. h \<noteq> NullCoro), a\<lparr>queued := queued a @ filter (\<lambda>h. h \<noteq> NullCoro) hs\<rparr>)"
  by (simp add: queue_def queue_loop_eq)

lemma queue_any_iff: "fst (queue hs a) \<longleftrightarrow> filter (\<lambda>h. h \<noteq> NullCoro) hs \<noteq> []"
  by (auto simp: queue_eq filter_empty_conv)

text \<open>\<open>appends a b\<close>: from \<open>a\<close> to \<open>b\<close> only (non-null) handles were queued.\<close>

definition appends :: "async_resumption \<Rightarrow> async_resumption \<Rightarrow> bool" where
  "appends a b \<longleftrightarrow> (\<exists>hs. NullCoro \<notin> set hs \<and> b = a\<lparr>queued := queued a @ hs\<rparr>)"

lemma appends_refl [simp, intro]: "appends a a"
  unfolding appends_def by (rule exI [of _ "[]"]) simp

lemma appends_trans [trans]:
  assumes "appends a b" "appends b c"
  shows "appends a c"
proof -
  from assms obtain hs ms where "NullCoro \<notin> set (hs @ ms)"
    "b = a\<lparr>queued := queued a @ hs\<rparr>" "c = b\<lparr>queued := queued b @ ms\<rparr>"
    by (auto simp: appends_def)
  then have "NullCoro \<notin> set (hs @ ms) \<and> c = a\<lparr>queued := queued a @ (hs @ ms)\<rparr>" by simp
  then show ?thesis unfolding appends_def by blast
qed

lemma appends_queue: "appends a (snd (queue hs a))"
  unfolding appends_def queue_eq
  by (rule exI [of _ "filter (\<lambda>h. h \<noteq> NullCoro) hs"]) simp

lemma appends_resuming: "appends a b \<Longrightarrow> resuming b = resuming a"
  by (auto simp: appends_def)

lemma appends_no_null: "appends a b \<Longrightarrow> NullCoro \<notin> set (queued a) \<Longrightarrow> NullCoro \<notin> set (queued b)"
  by (auto simp: appends_def)

subsection \<open>The contract of the warden that holds the queues\<close>

text \<open>
  What \<open>resume_all\<close> relies on: the queues are a component of the state, and a resumption
  only ever appends to \<open>queued\<close> (through \<open>async_resume\<close>), leaving \<open>resuming\<close> alone.
\<close>

locale resumption_host =
  fixes rget :: "'w \<Rightarrow> async_resumption"
    and rput :: "async_resumption \<Rightarrow> 'w \<Rightarrow> 'w"
    and resume :: "coro \<Rightarrow> 'w \<Rightarrow> 'w"
  assumes rget_rput: "rget (rput a w) = a"
    and resume_appends: "appends (rget w) (rget (resume h w))"
begin

lemma fold_resume_appends: "appends (rget w) (rget (fold resume hs w))"
proof (induction hs arbitrary: w)
  case (Cons h hs)
  show ?case
    using appends_trans [OF resume_appends Cons.IH] by simp
qed simp

text \<open>
  One call resumes exactly the handles queued when it starts, each once and in order, and
  what those resumptions queue is left for the next call.
\<close>

lemma resume_all_runs_queue:
  "resume_all rget rput resume w =
     (let w1 = rput (swap_queues (rget w)) w; w2 = fold resume (queued (rget w)) w1
      in rput ((rget w2)\<lparr>resuming := []\<rparr>) w2)"
  by (simp add: resume_all_def rget_rput swap_queues_def)

lemma resume_all_leaves:
  assumes "resuming (rget w) = []"
  shows "resuming (rget (resume_all rget rput resume w)) = []"
    and "queued (rget (resume_all rget rput resume w)) =
         queued (rget (fold resume (queued (rget w)) (rput (swap_queues (rget w)) w)))"
  by (simp_all add: resume_all_runs_queue rget_rput Let_def)

end

end
