(* ===== verification/Warden.thy ===== *)
theory Warden
  imports Outcome Posix AsyncResumption
begin

text \<open>
  What the two wardens share (\<open>include/felspar/io/warden.hpp\<close>, \<open>deadline.hpp\<close>): the IOPs
  the interface offers, the values they produce, deadlines, and the code of the application.
  Coroutines are code of the application, so what a coroutine does when it is resumed is a
  parameter: \<open>user h w\<close> is the sequence of calls into the library that run, in the warden
  state \<open>w\<close>, from the moment handle \<open>h\<close> is resumed until control is back in the warden.
  It may depend on the whole state; symmetric transfer to another coroutine (an IOP that
  completes at once resumes its own coroutine, a finished task resumes the one awaiting it)
  just continues the sequence. \<open>Await c h\<close> is \<open>co_await\<close> of the IOP with completion \<open>c\<close> in
  coroutine \<open>h\<close>; \<open>DestroyIop c\<close> is the end of life of an \<open>iop\<close>; \<open>Kernel f\<close> is a system call
  the application makes itself. Re-entering the event loop from a coroutine is not modelled.
\<close>

subsection \<open>IOPs\<close>

datatype iop_kind =
    Close fd
  | Sleep ns
  | ReadSome fd nat              \<comment> \<open>with the size of the buffer\<close>
  | WriteSome fd "byte list"
  | Accept fd
  | Connect fd sockaddr
  | ReadReady fd
  | WriteReady fd

datatype ret = RSize nat | RFd int

text \<open>Which queue of which descriptor a poll completion waits in.\<close>

fun read_side :: "iop_kind \<Rightarrow> fd option" where
  "read_side (ReadSome f n) = Some f"
| "read_side (Accept f) = Some f"
| "read_side (ReadReady f) = Some f"
| "read_side _ = None"

fun write_side :: "iop_kind \<Rightarrow> fd option" where
  "write_side (WriteSome f bs) = Some f"
| "write_side (Connect f a) = Some f"
| "write_side (WriteReady f) = Some f"
| "write_side _ = None"

fun is_void :: "iop_kind \<Rightarrow> bool" where
  "is_void (ReadSome f n) = False"
| "is_void (WriteSome f bs) = False"
| "is_void (Accept f) = False"
| "is_void _ = True"

lemma sides_disjoint: "read_side k = Some f \<Longrightarrow> write_side k = None"
  by (cases k) auto

subsection \<open>Calls into the library\<close>

datatype 'k act =
    NewIop iop_kind "ns option"
  | Await cid nat
  | DestroyIop cid
  | AsyncResume "coro list"
  | Finish nat
  | Kernel "'k \<Rightarrow> 'k"

subsection \<open>Deadlines\<close>

text \<open>\<open>deadline_from\<close>: the time out is turned into a deadline at one reading of the clock.\<close>

definition deadline_from :: "'k posix_os \<Rightarrow> ns \<Rightarrow> 'k \<Rightarrow> ns \<times> 'k" where
  "deadline_from os timeout k = (let (now, k1) = os_now os k in (now + timeout, k1))"

text \<open>
  The overloads of every timed call: a descriptor or its owner, and no deadline, a deadline
  or a time out. They all end in the call with a plain descriptor and an optional deadline.
\<close>

datatype sock = Plain fd | Owner fd    \<comment> \<open>\<open>socket_descriptor\<close> or \<open>posix::fd const &\<close>\<close>
datatype time_limit = NoDeadline | By ns | Within ns

fun native_handle :: "sock \<Rightarrow> fd" where
  "native_handle (Plain f) = f"
| "native_handle (Owner f) = f"

subsection \<open>The contract of a warden with its application\<close>

text \<open>
  A warden has an invariant, and conditions under which an application may make a call; each
  lawful call keeps the invariant. Everything the event loops need of application code
  follows from that contract, once for both wardens.
\<close>

fun lawful_acts :: "('a \<Rightarrow> 'w \<Rightarrow> 'w) \<Rightarrow> ('a \<Rightarrow> 'w \<Rightarrow> bool) \<Rightarrow> 'a list \<Rightarrow> 'w \<Rightarrow> bool" where
  "lawful_acts exec lawful [] w = True"
| "lawful_acts exec lawful (a # as) w =
     (lawful a w \<and> lawful_acts exec lawful as (exec a w))"

locale warden_contract =
  fixes exec :: "'a \<Rightarrow> 'w \<Rightarrow> 'w"
    and inv :: "'w \<Rightarrow> bool"
    and lawful :: "'a \<Rightarrow> 'w \<Rightarrow> bool"
  assumes exec_inv: "inv w \<Longrightarrow> lawful a w \<Longrightarrow> inv (exec a w)"
begin

lemma acts_inv: "inv w \<Longrightarrow> lawful_acts exec lawful as w \<Longrightarrow> inv (fold exec as w)"
  by (induction as arbitrary: w) (auto intro: exec_inv)

lemma acts_append:
  "lawful_acts exec lawful (as @ bs) w \<longleftrightarrow>
   lawful_acts exec lawful as w \<and> lawful_acts exec lawful bs (fold exec as w)"
  by (induction as arbitrary: w) auto

end

end
