(* ===== verification/PollIops.thy ===== *)
theory PollIops
  imports Warden
begin

text \<open>
  The poll warden's state and its IOPs (\<open>warden.poll.hpp\<close>, \<open>src/poll.hpp\<close>,
  \<open>src/poll.iops.cpp\<close>).
  Completions are objects on a heap, named by their address; \<open>requests\<close>, \<open>timeouts\<close> and
  the continuations hold raw pointers to them. A pointer that is followed after its
  completion was deleted is undefined behaviour in C++: the model sets \<open>dangling\<close> and goes
  on, so "no use after free" is the statement that the flag stays down.
  \<open>to_visit\<close> is the position of the range-for over \<open>bookkeeping->continuations\<close>: the entries
  it has not reached yet.
\<close>

subsection \<open>State\<close>

record completion =
  kind :: iop_kind
  deadline :: "ns option"
  handle :: coro
  comp_result :: "ret outcome"
  filled :: "byte list"          \<comment> \<open>what \<open>read\<close> put into the caller's buffer\<close>

record request =
  reads :: "cid list"
  writes :: "cid list"

record 'k poll_warden =
  requests :: "(fd \<times> request) list"
  timeouts :: "(ns \<times> cid) list"
  wakeup_read :: fd
  wakeup_write :: fd
  resumer :: async_resumption
  iops :: "pollfd list"
  continuations :: "cid list"
  to_visit :: "cid list"
  heap :: "cid \<Rightarrow> completion option"
  next_cid :: cid
  finished :: "nat list"
  dangling :: bool
  kern :: 'k

definition no_request :: request where
  "no_request = \<lparr>reads = [], writes = []\<rparr>"

text \<open>\<open>requests[fd]\<close>: reading it, and updating it (which inserts a missing entry).\<close>

definition req_at :: "'k poll_warden \<Rightarrow> fd \<Rightarrow> request" where
  "req_at w f = (case map_of (requests w) f of Some r \<Rightarrow> r | None \<Rightarrow> no_request)"

definition req_upd :: "fd \<Rightarrow> (request \<Rightarrow> request) \<Rightarrow> 'k poll_warden \<Rightarrow> 'k poll_warden" where
  "req_upd f g w = w\<lparr>requests := map_put f (g (req_at w f)) (requests w)\<rparr>"

definition push_read :: "fd \<Rightarrow> cid \<Rightarrow> 'k poll_warden \<Rightarrow> 'k poll_warden" where
  "push_read f c w = req_upd f (\<lambda>r. r\<lparr>reads := reads r @ [c]\<rparr>) w"

definition push_write :: "fd \<Rightarrow> cid \<Rightarrow> 'k poll_warden \<Rightarrow> 'k poll_warden" where
  "push_write f c w = req_upd f (\<lambda>r. r\<lparr>writes := writes r @ [c]\<rparr>) w"

definition erase_read :: "fd \<Rightarrow> cid \<Rightarrow> 'k poll_warden \<Rightarrow> 'k poll_warden" where
  "erase_read f c w = req_upd f (\<lambda>r. r\<lparr>reads := removeAll c (reads r)\<rparr>) w"

definition erase_write :: "fd \<Rightarrow> cid \<Rightarrow> 'k poll_warden \<Rightarrow> 'k poll_warden" where
  "erase_write f c w = req_upd f (\<lambda>r. r\<lparr>writes := removeAll c (writes r)\<rparr>) w"

definition store :: "cid \<Rightarrow> completion \<Rightarrow> 'k poll_warden \<Rightarrow> 'k poll_warden" where
  "store c x w = w\<lparr>heap := (heap w)(c \<mapsto> x)\<rparr>"

subsection \<open>\<open>poll_warden::completion\<close>\<close>

definition insert_timeout :: "cid \<Rightarrow> completion \<Rightarrow> 'k poll_warden \<Rightarrow> 'k poll_warden" where
  "insert_timeout c x w =
     (case deadline x of
        Some d \<Rightarrow> w\<lparr>timeouts := mm_insert d c (timeouts w)\<rparr>
      | None \<Rightarrow> w)"

definition cancel_timeout :: "cid \<Rightarrow> completion \<Rightarrow> 'k poll_warden \<Rightarrow> 'k poll_warden" where
  "cancel_timeout c x w =
     (case deadline x of
        Some d \<Rightarrow> w\<lparr>timeouts := erase_if_first (\<lambda>s. snd s = c) (timeouts w)\<rparr>
      | None \<Rightarrow> w)"

text \<open>The \<open>cancel_iop\<close> overrides.\<close>

fun cancel_iop :: "cid \<Rightarrow> iop_kind \<Rightarrow> 'k poll_warden \<Rightarrow> 'k poll_warden" where
  "cancel_iop c (Close f) w = w"
| "cancel_iop c (Sleep t) w = w"
| "cancel_iop c (ReadSome f n) w = erase_read f c w"
| "cancel_iop c (WriteSome f bs) w = erase_write f c w"
| "cancel_iop c (Accept f) w = erase_read f c w"
| "cancel_iop c (Connect f a) w = erase_write f c w"
| "cancel_iop c (ReadReady f) w = erase_read f c w"
| "cancel_iop c (WriteReady f) w = erase_write f c w"

definition cancel_timeout_then_resume ::
  "cid \<Rightarrow> completion \<Rightarrow> 'k poll_warden \<Rightarrow> coro \<times> 'k poll_warden" where
  "cancel_timeout_then_resume c x w = (handle x, cancel_timeout c x w)"

definition succeed :: "ret \<Rightarrow> completion \<Rightarrow> completion" where
  "succeed r x = x\<lparr>comp_result := assign_value r (comp_result x)\<rparr>"

definition fail :: "int \<Rightarrow> string \<Rightarrow> completion \<Rightarrow> completion" where
  "fail e m x = x\<lparr>comp_result := assign_void \<lparr>error = e, message = m\<rparr> (comp_result x)\<rparr>"

subsection \<open>\<open>try_or_resume\<close>\<close>

definition close_try_or_resume ::
  "'k posix_os \<Rightarrow> fd \<Rightarrow> cid \<Rightarrow> completion \<Rightarrow> 'k poll_warden \<Rightarrow> coro \<times> 'k poll_warden" where
  "close_try_or_resume os f c x w =
     cancel_timeout_then_resume c x (w\<lparr>kern := snd (os_close os f (kern w))\<rparr>)"

definition read_some_try_or_resume ::
  "'k posix_os \<Rightarrow> fd \<Rightarrow> nat \<Rightarrow> cid \<Rightarrow> completion \<Rightarrow> 'k poll_warden \<Rightarrow> coro \<times> 'k poll_warden"
where
  "read_some_try_or_resume os f n c x w =
     (let (bytes, bs, k) = sys_read os f n (kern w); w1 = w\<lparr>kern := k\<rparr> in
      if bytes \<ge> 0 then
        (let y = succeed (RSize (nat bytes)) (x\<lparr>filled := bs\<rparr>)
         in cancel_timeout_then_resume c y (store c y w1))
      else if would_block (get_error os k) then (NoopCoro, push_read f c w1)
      else
        (let y = fail (get_error os k) ''read'' x
         in cancel_timeout_then_resume c y (store c y w1)))"

definition write_some_try_or_resume ::
  "'k posix_os \<Rightarrow> fd \<Rightarrow> byte list \<Rightarrow> cid \<Rightarrow> completion \<Rightarrow> 'k poll_warden \<Rightarrow> coro \<times> 'k poll_warden"
where
  "write_some_try_or_resume os f buf c x w =
     (let (bytes, k) = sys_write os f buf (kern w); w1 = w\<lparr>kern := k\<rparr> in
      if bytes \<ge> 0 then
        (let y = succeed (RSize (nat bytes)) x
         in cancel_timeout_then_resume c y (store c y w1))
      else if would_block (get_error os k) then (NoopCoro, push_write f c w1)
      else
        (let y = fail (get_error os k) ''write'' x
         in cancel_timeout_then_resume c y (store c y w1)))"

definition accept_try_or_resume ::
  "'k posix_os \<Rightarrow> fd \<Rightarrow> cid \<Rightarrow> completion \<Rightarrow> 'k poll_warden \<Rightarrow> coro \<times> 'k poll_warden" where
  "accept_try_or_resume os f c x w =
     (let (r, k) = os_accept4 os f (kern w); w1 = w\<lparr>kern := k\<rparr> in
      if r \<ge> 0 then
        (let y = succeed (RFd r) x in cancel_timeout_then_resume c y (store c y w1))
      else if would_block (get_error os k) then (NoopCoro, push_read f c w1)
      else if bad_fd (get_error os k) then
        (let y = succeed (RFd r) x in cancel_timeout_then_resume c y (store c y w1))
      else
        (let y = fail (get_error os k) ''accept'' x
         in cancel_timeout_then_resume c y (store c y w1)))"

text \<open>
  The follow-up of a non-blocking connect: \<open>errvalue\<close> is tested for zero, then \<open>errno\<close>
  (not \<open>errvalue\<close>) decides whether to wait again and is the code reported.
\<close>

definition connect_try_or_resume ::
  "'k posix_os \<Rightarrow> fd \<Rightarrow> cid \<Rightarrow> completion \<Rightarrow> 'k poll_warden \<Rightarrow> coro \<times> 'k poll_warden" where
  "connect_try_or_resume os f c x w =
     (let (r, errvalue, k) = os_so_error os f (kern w); w1 = w\<lparr>kern := k\<rparr> in
      if r = 0 then
        if errvalue = 0 then cancel_timeout_then_resume c x w1
        else if os_errno os k = EINPROGRESS
        then (NoopCoro, insert_timeout c x (push_write f c w1))
        else
          (let y = fail (get_error os k) ''connect in follow up call'' x
           in cancel_timeout_then_resume c y (store c y w1))
      else
        (let y = fail (get_error os k) ''connect/getsockopt'' x
         in cancel_timeout_then_resume c y (store c y w1)))"

text \<open>The virtual call on an object.\<close>

definition try_or_resume_obj ::
  "'k posix_os \<Rightarrow> cid \<Rightarrow> completion \<Rightarrow> 'k poll_warden \<Rightarrow> coro \<times> 'k poll_warden" where
  "try_or_resume_obj os c x w =
     (case kind x of
        Close f \<Rightarrow> close_try_or_resume os f c x w
      | Sleep t \<Rightarrow> (NoopCoro, w)
      | ReadSome f n \<Rightarrow> read_some_try_or_resume os f n c x w
      | WriteSome f bs \<Rightarrow> write_some_try_or_resume os f bs c x w
      | Accept f \<Rightarrow> accept_try_or_resume os f c x w
      | Connect f a \<Rightarrow> connect_try_or_resume os f c x w
      | ReadReady f \<Rightarrow> cancel_timeout_then_resume c x w
      | WriteReady f \<Rightarrow> cancel_timeout_then_resume c x w)"

text \<open>The same through a pointer, which may dangle.\<close>

definition try_or_resume ::
  "'k posix_os \<Rightarrow> cid \<Rightarrow> 'k poll_warden \<Rightarrow> coro \<times> 'k poll_warden" where
  "try_or_resume os c w =
     (case heap w c of
        Some x \<Rightarrow> try_or_resume_obj os c x w
      | None \<Rightarrow> (NoopCoro, w\<lparr>dangling := True\<rparr>))"

subsection \<open>\<open>await_suspend\<close>, \<open>iop_timedout\<close> and the end of an IOP\<close>

definition connect_await_suspend ::
  "'k posix_os \<Rightarrow> fd \<Rightarrow> sockaddr \<Rightarrow> cid \<Rightarrow> completion \<Rightarrow> coro \<Rightarrow> 'k poll_warden
    \<Rightarrow> coro \<times> 'k poll_warden" where
  "connect_await_suspend os f a c x h w =
     (let x1 = x\<lparr>handle := h\<rparr>;
          (err, k) = os_connect os f a (kern w);
          w1 = store c x1 (w\<lparr>kern := k\<rparr>)
      in if err = 0 then (handle x1, w1)
         else if os_errno os k = EINPROGRESS
         then (NoopCoro, insert_timeout c x1 (push_write f c w1))
         else
           (let y = fail (os_errno os k) ''connect failure in initial call'' x1
            in (handle y, store c y w1)))"

definition read_ready_await_suspend ::
  "fd \<Rightarrow> cid \<Rightarrow> completion \<Rightarrow> coro \<Rightarrow> 'k poll_warden \<Rightarrow> coro \<times> 'k poll_warden" where
  "read_ready_await_suspend f c x h w =
     (let x1 = x\<lparr>handle := h\<rparr> in (NoopCoro, insert_timeout c x1 (push_read f c (store c x1 w))))"

definition write_ready_await_suspend ::
  "fd \<Rightarrow> cid \<Rightarrow> completion \<Rightarrow> coro \<Rightarrow> 'k poll_warden \<Rightarrow> coro \<times> 'k poll_warden" where
  "write_ready_await_suspend f c x h w =
     (let x1 = x\<lparr>handle := h\<rparr> in (NoopCoro, insert_timeout c x1 (push_write f c (store c x1 w))))"

definition completion_await_suspend ::
  "'k posix_os \<Rightarrow> cid \<Rightarrow> completion \<Rightarrow> coro \<Rightarrow> 'k poll_warden \<Rightarrow> coro \<times> 'k poll_warden" where
  "completion_await_suspend os c x h w =
     (let x1 = x\<lparr>handle := h\<rparr>
      in try_or_resume_obj os c x1 (insert_timeout c x1 (store c x1 w)))"

definition await_suspend ::
  "'k posix_os \<Rightarrow> cid \<Rightarrow> coro \<Rightarrow> 'k poll_warden \<Rightarrow> coro \<times> 'k poll_warden" where
  "await_suspend os c h w =
     (case heap w c of
        None \<Rightarrow> (NoopCoro, w\<lparr>dangling := True\<rparr>)
      | Some x \<Rightarrow>
          (case kind x of
             Connect f a \<Rightarrow> connect_await_suspend os f a c x h w
           | ReadReady f \<Rightarrow> read_ready_await_suspend f c x h w
           | WriteReady f \<Rightarrow> write_ready_await_suspend f c x h w
           | _ \<Rightarrow> completion_await_suspend os c x h w))"

definition iop_timedout :: "cid \<Rightarrow> 'k poll_warden \<Rightarrow> coro \<times> 'k poll_warden" where
  "iop_timedout c w =
     (case heap w c of
        None \<Rightarrow> (NoopCoro, w\<lparr>dangling := True\<rparr>)
      | Some x \<Rightarrow>
          (case kind x of
             Sleep t \<Rightarrow> (handle x, w)
           | _ \<Rightarrow> (handle x, store c (fail ETIME ''IOP timed out'' x) (cancel_iop c (kind x) w))))"

text \<open>\<open>~iop\<close>: \<open>delete_due_to_iop_destructed\<close> and then the completion goes.\<close>

definition iop_destroy :: "cid \<Rightarrow> 'k poll_warden \<Rightarrow> 'k poll_warden" where
  "iop_destroy c w =
     (case heap w c of
        None \<Rightarrow> w\<lparr>dangling := True\<rparr>
      | Some x \<Rightarrow>
          (let w1 = cancel_iop c (kind x) (cancel_timeout c x w)
           in w1\<lparr>heap := (heap w1)(c := None)\<rparr>))"

text \<open>\<open>iop::await_resume\<close>: the value, or the exception of the outcome.\<close>

definition iop_value :: "completion \<Rightarrow> exn + ret option" where
  "iop_value x =
     (if is_void (kind x)
      then (case value_void (comp_result x) of Inl e \<Rightarrow> Inl e | Inr _ \<Rightarrow> Inr None)
      else (case value_rvalue (comp_result x) of Inl e \<Rightarrow> Inl e | Inr r \<Rightarrow> Inr (Some r)))"

subsection \<open>Creating IOPs\<close>

definition new_completion ::
  "iop_kind \<Rightarrow> ns option \<Rightarrow> 'k poll_warden \<Rightarrow> cid \<times> 'k poll_warden" where
  "new_completion k dl w =
     (let c = next_cid w;
          x = \<lparr>kind = k, deadline = dl, handle = NullCoro, comp_result = no_outcome, filled = []\<rparr>
      in (c, store c x (w\<lparr>next_cid := Suc c\<rparr>)))"

definition do_close :: "fd \<Rightarrow> 'k poll_warden \<Rightarrow> cid \<times> 'k poll_warden" where
  "do_close f w = new_completion (Close f) None w"

definition do_sleep :: "'k posix_os \<Rightarrow> ns \<Rightarrow> 'k poll_warden \<Rightarrow> cid \<times> 'k poll_warden" where
  "do_sleep os t w =
     (let (d, k) = deadline_from os t (kern w)
      in new_completion (Sleep t) (Some d) (w\<lparr>kern := k\<rparr>))"

definition do_read_some :: "fd \<Rightarrow> nat \<Rightarrow> ns option \<Rightarrow> 'k poll_warden \<Rightarrow> cid \<times> 'k poll_warden" where
  "do_read_some f n dl w = new_completion (ReadSome f n) dl w"

definition do_write_some ::
  "fd \<Rightarrow> byte list \<Rightarrow> ns option \<Rightarrow> 'k poll_warden \<Rightarrow> cid \<times> 'k poll_warden" where
  "do_write_some f bs dl w = new_completion (WriteSome f bs) dl w"

definition do_accept :: "fd \<Rightarrow> ns option \<Rightarrow> 'k poll_warden \<Rightarrow> cid \<times> 'k poll_warden" where
  "do_accept f dl w = new_completion (Accept f) dl w"

definition do_connect ::
  "fd \<Rightarrow> sockaddr \<Rightarrow> ns option \<Rightarrow> 'k poll_warden \<Rightarrow> cid \<times> 'k poll_warden" where
  "do_connect f a dl w = new_completion (Connect f a) dl w"

definition do_read_ready :: "fd \<Rightarrow> ns option \<Rightarrow> 'k poll_warden \<Rightarrow> cid \<times> 'k poll_warden" where
  "do_read_ready f dl w = new_completion (ReadReady f) dl w"

definition do_write_ready :: "fd \<Rightarrow> ns option \<Rightarrow> 'k poll_warden \<Rightarrow> cid \<times> 'k poll_warden" where
  "do_write_ready f dl w = new_completion (WriteReady f) dl w"

fun new_iop ::
  "'k posix_os \<Rightarrow> iop_kind \<Rightarrow> ns option \<Rightarrow> 'k poll_warden \<Rightarrow> cid \<times> 'k poll_warden" where
  "new_iop os (Close f) dl w = do_close f w"
| "new_iop os (Sleep t) dl w = do_sleep os t w"
| "new_iop os (ReadSome f n) dl w = do_read_some f n dl w"
| "new_iop os (WriteSome f bs) dl w = do_write_some f bs dl w"
| "new_iop os (Accept f) dl w = do_accept f dl w"
| "new_iop os (Connect f a) dl w = do_connect f a dl w"
| "new_iop os (ReadReady f) dl w = do_read_ready f dl w"
| "new_iop os (WriteReady f) dl w = do_write_ready f dl w"

end
