(* ===== verification/PollWarden.thy ===== *)
theory PollWarden
  imports PollIops
begin

unbundle bit_operations_syntax

text \<open>
  The poll loop (\<open>src/poll.warden.cpp\<close>): time outs, the call to \<open>poll\<close> and the dispatch of
  what it reports, deferred resumption and the self-pipe that wakes a blocked loop.
  Loops whose end depends on the kernel or on the application (\<open>drain_wakeup\<close>,
  \<open>clear_timeouts\<close>, \<open>run_until\<close>) are partial functions: \<open>None\<close> is "never returns".
\<close>

subsection \<open>Poll flags\<close>

definition POLLIN :: "16 word" where [simp]: "POLLIN = 1"
definition POLLOUT :: "16 word" where [simp]: "POLLOUT = 4"
definition POLLERR :: "16 word" where [simp]: "POLLERR = 8"
definition POLLHUP :: "16 word" where [simp]: "POLLHUP = 16"
definition POLLNVAL :: "16 word" where [simp]: "POLLNVAL = 32"

definition has_flag :: "16 word \<Rightarrow> 16 word \<Rightarrow> bool" where
  "has_flag revs flags \<longleftrightarrow> revs AND flags \<noteq> 0"

subsection \<open>Waking the loop\<close>

definition wake_event_loop :: "'k posix_os \<Rightarrow> 'k poll_warden \<Rightarrow> 'k poll_warden" where
  "wake_event_loop os w = w\<lparr>kern := snd (sys_write os (wakeup_write w) [0] (kern w))\<rparr>"

definition do_async_resume ::
  "'k posix_os \<Rightarrow> coro list \<Rightarrow> 'k poll_warden \<Rightarrow> 'k poll_warden" where
  "do_async_resume os handles w =
     (let was_empty = (\<not> has_requests (resumer w));
          (queued_any, a) = queue handles (resumer w);
          w1 = w\<lparr>resumer := a\<rparr>
      in if queued_any \<and> was_empty then wake_event_loop os w1 else w1)"

partial_function (option) drain :: "'k posix_os \<Rightarrow> fd \<Rightarrow> 'k \<Rightarrow> 'k option" where
  "drain os f k =
     (let (r, bs, k1) = sys_read os f 64 k in if r > 0 then drain os f k1 else Some k1)"

definition drain_wakeup :: "'k posix_os \<Rightarrow> 'k poll_warden \<Rightarrow> 'k poll_warden option" where
  "drain_wakeup os w =
     (case drain os (wakeup_read w) (kern w) of
        None \<Rightarrow> None
      | Some k \<Rightarrow> Some (w\<lparr>kern := k\<rparr>))"

subsection \<open>The application\<close>

fun exec :: "'k posix_os \<Rightarrow> 'k act \<Rightarrow> 'k poll_warden \<Rightarrow> 'k poll_warden" where
  "exec os (NewIop k dl) w = snd (new_iop os k dl w)"
| "exec os (Await c h) w = snd (await_suspend os c (Coro h) w)"
| "exec os (DestroyIop c) w = iop_destroy c w"
| "exec os (AsyncResume hs) w = do_async_resume os hs w"
| "exec os (Finish h) w = w\<lparr>finished := h # finished w\<rparr>"
| "exec os (Kernel f) w = w\<lparr>kern := f (kern w)\<rparr>"

type_synonym 'k user = "nat \<Rightarrow> 'k poll_warden \<Rightarrow> 'k act list"

fun resume :: "'k posix_os \<Rightarrow> 'k user \<Rightarrow> coro \<Rightarrow> 'k poll_warden \<Rightarrow> 'k poll_warden" where
  "resume os user NullCoro w = w\<lparr>dangling := True\<rparr>"
| "resume os user NoopCoro w = w"
| "resume os user (Coro h) w = fold (exec os) (user h w) w"

definition resume_queued :: "'k posix_os \<Rightarrow> 'k user \<Rightarrow> 'k poll_warden \<Rightarrow> 'k poll_warden" where
  "resume_queued os user w = resume_all resumer (\<lambda>a w. w\<lparr>resumer := a\<rparr>) (resume os user) w"

subsection \<open>\<open>do_poll\<close>\<close>

definition req_flags :: "request \<Rightarrow> 16 word" where
  "req_flags r =
     (if reads r \<noteq> [] then POLLIN else 0) OR (if writes r \<noteq> [] then POLLOUT else 0)"

definition poll_set :: "'k poll_warden \<Rightarrow> pollfd list" where
  "poll_set w =
     \<lparr>pfd = wakeup_read w, events = POLLIN, revents = 0\<rparr> #
     map (\<lambda>(f, r). \<lparr>pfd = f, events = req_flags r, revents = 0\<rparr>) (requests w)"

fun with_revents :: "(nat \<Rightarrow> 16 word) \<Rightarrow> nat \<Rightarrow> pollfd list \<Rightarrow> pollfd list" where
  "with_revents rv i [] = []"
| "with_revents rv i (p # ps) = p\<lparr>revents := rv i\<rparr> # with_revents rv (Suc i) ps"

definition collect_reads :: "fd \<Rightarrow> 'k poll_warden \<Rightarrow> 'k poll_warden" where
  "collect_reads f w =
     req_upd f (\<lambda>r. r\<lparr>reads := []\<rparr>)
       (w\<lparr>continuations := continuations w @ reads (req_at w f)\<rparr>)"

definition collect_writes :: "fd \<Rightarrow> 'k poll_warden \<Rightarrow> 'k poll_warden" where
  "collect_writes f w =
     req_upd f (\<lambda>r. r\<lparr>writes := []\<rparr>)
       (w\<lparr>continuations := continuations w @ writes (req_at w f)\<rparr>)"

text \<open>One iteration of the loop over the entries \<open>poll\<close> filled in.\<close>

definition collect_one ::
  "'k posix_os \<Rightarrow> pollfd \<Rightarrow> 'k poll_warden \<Rightarrow> 'k poll_warden option" where
  "collect_one os p w =
     (if pfd p = wakeup_read w then
        (if has_flag (revents p) POLLIN then drain_wakeup os w else Some w)
      else
        (let w1 = (if has_flag (revents p) (POLLIN OR POLLHUP OR POLLERR OR POLLNVAL)
                   then collect_reads (pfd p) w else w);
             w2 = (if has_flag (revents p) (POLLOUT OR POLLERR OR POLLNVAL)
                   then collect_writes (pfd p) w1 else w1)
         in Some w2))"

fun collect :: "'k posix_os \<Rightarrow> pollfd list \<Rightarrow> 'k poll_warden \<Rightarrow> 'k poll_warden option" where
  "collect os [] w = Some w"
| "collect os (p # ps) w =
     (case collect_one os p w of None \<Rightarrow> None | Some w1 \<Rightarrow> collect os ps w1)"

text \<open>The loop that resumes: \<open>to_visit\<close> is what the iterator has in front of it.\<close>

fun dispatch ::
  "'k posix_os \<Rightarrow> 'k user \<Rightarrow> cid list \<Rightarrow> 'k poll_warden \<Rightarrow> 'k poll_warden" where
  "dispatch os user [] w = w\<lparr>to_visit := []\<rparr>"
| "dispatch os user (c # cs) w =
     (let (h, w1) = try_or_resume os c (w\<lparr>to_visit := cs\<rparr>)
      in dispatch os user cs (resume os user h w1))"

definition do_poll ::
  "'k posix_os \<Rightarrow> 'k user \<Rightarrow> int \<Rightarrow> 'k poll_warden \<Rightarrow> ((exn + unit) \<times> 'k poll_warden) option"
where
  "do_poll os user timeout w =
     (let w0 = w\<lparr>iops := poll_set w\<rparr>;
          (pr, rv, k) = os_poll os (iops w0) timeout (kern w0);
          w1 = w0\<lparr>kern := k, iops := with_revents rv 0 (iops w0)\<rparr>
      in if pr < 0 then
           (if get_error os k = EINTR then Some (Inr (), w1)
            else Some (Inl (SystemError (get_error os k) ''poll''), w1))
         else if pr > 0 then
           (case collect os (iops w1) (w1\<lparr>continuations := []\<rparr>) of
              None \<Rightarrow> None
            | Some w2 \<Rightarrow> Some (Inr (), dispatch os user (continuations w2) w2))
         else Some (Inr (), w1))"

subsection \<open>\<open>clear_timeouts\<close>\<close>

text \<open>
  The number handed to \<open>poll\<close>: the \<open>long\<close> count of whole milliseconds, converted to the
  \<open>int\<close> the function returns.
\<close>

definition milliseconds :: "ns \<Rightarrow> int" where
  "milliseconds t = t div 1000000"

definition poll_timeout :: "ns \<Rightarrow> int" where
  "poll_timeout tdiff = sint (word_of_int (milliseconds tdiff) :: 32 word)"

definition fire_timeout ::
  "'k posix_os \<Rightarrow> 'k user \<Rightarrow> cid \<Rightarrow> 'k poll_warden \<Rightarrow> 'k poll_warden" where
  "fire_timeout os user c w = (let (h, w1) = iop_timedout c w in resume os user h w1)"

partial_function (option) clear_timeouts ::
  "'k posix_os \<Rightarrow> 'k user \<Rightarrow> 'k poll_warden \<Rightarrow> (int \<times> 'k poll_warden) option" where
  "clear_timeouts os user w =
     (case timeouts w of
        [] \<Rightarrow> Some (-1, w)
      | s # rest \<Rightarrow>
          (let (now, k) = os_now os (kern w);
               tdiff = fst s - now;
               w1 = w\<lparr>kern := k\<rparr>
           in if tdiff < 1000000
              then clear_timeouts os user (fire_timeout os user (snd s) (w1\<lparr>timeouts := rest\<rparr>))
              else Some (poll_timeout tdiff, w1)))"

subsection \<open>\<open>run_batch\<close> and \<open>run_until\<close>\<close>

definition run_batch ::
  "'k posix_os \<Rightarrow> 'k user \<Rightarrow> 'k poll_warden \<Rightarrow> ((exn + unit) \<times> 'k poll_warden) option" where
  "run_batch os user w =
     (case clear_timeouts os user w of
        None \<Rightarrow> None
      | Some (t, w1) \<Rightarrow>
          (case do_poll os user 0 w1 of
             None \<Rightarrow> None
           | Some (Inl e, w2) \<Rightarrow> Some (Inl e, w2)
           | Some (Inr u, w2) \<Rightarrow> Some (Inr (), resume_queued os user w2)))"

partial_function (option) run_loop ::
  "'k posix_os \<Rightarrow> 'k user \<Rightarrow> nat \<Rightarrow> 'k poll_warden \<Rightarrow> ((exn + unit) \<times> 'k poll_warden) option"
where
  "run_loop os user coro w =
     (case clear_timeouts os user w of
        None \<Rightarrow> None
      | Some tw \<Rightarrow>
          (if coro \<in> set (finished (snd tw)) then Some (Inr (), snd tw)
           else (case do_poll os user (fst tw) (snd tw) of
                   None \<Rightarrow> None
                 | Some rw \<Rightarrow>
                     (case fst rw of
                        Inl e \<Rightarrow> Some (Inl e, snd rw)
                      | Inr u \<Rightarrow> run_loop os user coro (resume_queued os user (snd rw))))))"

definition run_until ::
  "'k posix_os \<Rightarrow> 'k user \<Rightarrow> nat \<Rightarrow> 'k poll_warden \<Rightarrow> ((exn + unit) \<times> 'k poll_warden) option"
where
  "run_until os user coro w = run_loop os user coro (resume os user (Coro coro) w)"

text \<open>The constructor: ignore \<open>SIGPIPE\<close>, create the self-pipe.\<close>

definition new_poll_warden :: "'k posix_os \<Rightarrow> 'k \<Rightarrow> exn + 'k poll_warden" where
  "new_poll_warden os k =
     (case create_pipe os (os_ignore_sigpipe os k) of
        (Inl e, k1) \<Rightarrow> Inl e
      | (Inr rw, k1) \<Rightarrow>
          Inr \<lparr>requests = [], timeouts = [], wakeup_read = fst rw, wakeup_write = snd rw,
               resumer = no_requests, iops = [], continuations = [], to_visit = [],
               heap = (\<lambda>_. None), next_cid = 0, finished = [], dangling = False, kern = k1\<rparr>)"

definition do_prepare_socket :: "'k posix_os \<Rightarrow> fd \<Rightarrow> 'k \<Rightarrow> (exn + unit) \<times> 'k" where
  "do_prepare_socket os sock k = set_non_blocking os sock k"

end
