(* ===== verification/PollInvariant.thy ===== *)
theory PollInvariant
  imports PollWarden
begin

text \<open>
  The invariant of the poll warden and the proof that every call keeps it.
  \<open>pinv os vs w\<close> says that every raw pointer the warden holds (in \<open>requests\<close>, \<open>timeouts\<close>
  and \<open>vs\<close>, the continuations still to be visited) leads to a live completion that waits for
  it: of the right kind and descriptor, with its coroutine's handle set, and in one place only.
\<close>

subsection \<open>Reading and updating the request map\<close>

lemma req_at_upd [simp]:
  "req_at (req_upd f g w) f' = (if f' = f then g (req_at w f) else req_at w f')"
  by (simp add: req_at_def req_upd_def)

lemma req_upd_frame [frame, simp]:
  "timeouts (req_upd f g w) = timeouts w" "heap (req_upd f g w) = heap w"
  "next_cid (req_upd f g w) = next_cid w" "dangling (req_upd f g w) = dangling w"
  "to_visit (req_upd f g w) = to_visit w" "kern (req_upd f g w) = kern w"
  "resumer (req_upd f g w) = resumer w" "continuations (req_upd f g w) = continuations w"
  "wakeup_read (req_upd f g w) = wakeup_read w" "wakeup_write (req_upd f g w) = wakeup_write w"
  "iops (req_upd f g w) = iops w" "finished (req_upd f g w) = finished w"
  by (simp_all add: req_upd_def)

lemma req_at_frame [simp]:
  "req_at (w\<lparr>kern := k\<rparr>) f = req_at w f" "req_at (w\<lparr>timeouts := t\<rparr>) f = req_at w f"
  "req_at (w\<lparr>heap := hp\<rparr>) f = req_at w f" "req_at (w\<lparr>to_visit := v\<rparr>) f = req_at w f"
  "req_at (w\<lparr>continuations := v\<rparr>) f = req_at w f" "req_at (w\<lparr>resumer := a\<rparr>) f = req_at w f"
  "req_at (w\<lparr>iops := p\<rparr>) f = req_at w f" "req_at (w\<lparr>next_cid := n\<rparr>) f = req_at w f"
  "req_at (w\<lparr>finished := d\<rparr>) f = req_at w f" "req_at (w\<lparr>dangling := b\<rparr>) f = req_at w f"
  by (simp_all add: req_at_def)

subsection \<open>The invariant\<close>

fun is_coro :: "coro \<Rightarrow> bool" where
  "is_coro (Coro h) = True"
| "is_coro _ = False"

text \<open>
  A connect that times out is only safe on a kernel whose \<open>errno\<close> is not left at
  \<open>EINPROGRESS\<close> when \<open>SO_ERROR\<close> reports a failure: otherwise the follow-up queues the
  completion a second time without taking its time out down.
\<close>

definition connect_clean :: "'k posix_os \<Rightarrow> bool" where
  "connect_clean os \<longleftrightarrow>
     (\<forall>f k e k'. os_so_error os f k = (0, e, k') \<longrightarrow> e \<noteq> 0 \<longrightarrow> os_errno os k' \<noteq> EINPROGRESS)"

definition connect_ok :: "'k posix_os \<Rightarrow> completion \<Rightarrow> bool" where
  "connect_ok os x \<longleftrightarrow>
     ((\<exists>f a. kind x = Connect f a) \<and> deadline x \<noteq> None \<longrightarrow> connect_clean os)"

definition in_queue :: "'k poll_warden \<Rightarrow> cid \<Rightarrow> bool" where
  "in_queue w c \<longleftrightarrow> (\<exists>f. c \<in> set (reads (req_at w f)) \<or> c \<in> set (writes (req_at w f)))"

definition timed :: "'k poll_warden \<Rightarrow> cid \<Rightarrow> bool" where
  "timed w c \<longleftrightarrow> c \<in> snd ` set (timeouts w)"

definition queues_ok :: "'k poll_warden \<Rightarrow> bool" where
  "queues_ok w \<longleftrightarrow>
     sorted_wrt (<) (map fst (requests w)) \<and>
     (\<forall>f. distinct (reads (req_at w f)) \<and> distinct (writes (req_at w f))) \<and>
     (\<forall>f. \<forall>c\<in>set (reads (req_at w f)).
        \<exists>x. heap w c = Some x \<and> read_side (kind x) = Some f \<and> is_coro (handle x)) \<and>
     (\<forall>f. \<forall>c\<in>set (writes (req_at w f)).
        \<exists>x. heap w c = Some x \<and> write_side (kind x) = Some f \<and> is_coro (handle x))"

definition timeouts_ok :: "'k poll_warden \<Rightarrow> bool" where
  "timeouts_ok w \<longleftrightarrow>
     sorted (map fst (timeouts w)) \<and> distinct (map snd (timeouts w)) \<and>
     (\<forall>s\<in>set (timeouts w).
        \<exists>x. heap w (snd s) = Some x \<and> deadline x = Some (fst s) \<and> is_coro (handle x))"

definition visits_ok :: "cid list \<Rightarrow> 'k poll_warden \<Rightarrow> bool" where
  "visits_ok vs w \<longleftrightarrow>
     distinct vs \<and>
     (\<forall>c\<in>set vs. \<not> in_queue w c \<and> (\<exists>x. heap w c = Some x \<and> is_coro (handle x)))"

definition heap_ok :: "'k posix_os \<Rightarrow> 'k poll_warden \<Rightarrow> bool" where
  "heap_ok os w \<longleftrightarrow> (\<forall>c x. heap w c = Some x \<longrightarrow> c < next_cid w \<and> connect_ok os x)"

definition pinv :: "'k posix_os \<Rightarrow> cid list \<Rightarrow> 'k poll_warden \<Rightarrow> bool" where
  "pinv os vs w \<longleftrightarrow>
     \<not> dangling w \<and> queues_ok w \<and> timeouts_ok w \<and> visits_ok vs w \<and> heap_ok os w"

definition inv :: "'k posix_os \<Rightarrow> 'k poll_warden \<Rightarrow> bool" where
  "inv os w \<longleftrightarrow> pinv os (to_visit w) w"

lemmas pinv_defs = pinv_def queues_ok_def timeouts_ok_def visits_ok_def heap_ok_def

lemma pinv_frame [simp]:
  "pinv os vs (w\<lparr>kern := k\<rparr>) = pinv os vs w" "pinv os vs (w\<lparr>resumer := a\<rparr>) = pinv os vs w"
  "pinv os vs (w\<lparr>iops := p\<rparr>) = pinv os vs w" "pinv os vs (w\<lparr>finished := d\<rparr>) = pinv os vs w"
  "pinv os vs (w\<lparr>to_visit := v\<rparr>) = pinv os vs w"
  "pinv os vs (w\<lparr>continuations := v\<rparr>) = pinv os vs w"
  by (simp_all add: pinv_defs in_queue_def)

lemma in_queue_frame [simp]:
  "in_queue (w\<lparr>kern := k\<rparr>) = in_queue w" "in_queue (w\<lparr>timeouts := t\<rparr>) = in_queue w"
  "in_queue (w\<lparr>heap := hp\<rparr>) = in_queue w" "in_queue (w\<lparr>to_visit := v\<rparr>) = in_queue w"
  by (simp_all add: in_queue_def fun_eq_iff)

lemma timed_frame [simp]:
  "timed (w\<lparr>kern := k\<rparr>) = timed w" "timed (w\<lparr>heap := hp\<rparr>) = timed w"
  "timed (req_upd f g w) = timed w" "timed (w\<lparr>to_visit := v\<rparr>) = timed w"
  by (simp_all add: timed_def fun_eq_iff)

lemma sorted_req_upd:
  "sorted_wrt (<) (map fst (requests w)) \<Longrightarrow> sorted_wrt (<) (map fst (requests (req_upd f g w)))"
  by (simp add: req_upd_def sorted_map_put)

text \<open>What the invariant says of one completion.\<close>

lemma pinv_in_queue_live: "pinv os vs w \<Longrightarrow> in_queue w c \<Longrightarrow> \<exists>x. heap w c = Some x"
  by (fastforce simp: pinv_def queues_ok_def in_queue_def)

lemma pinv_timed_live: "pinv os vs w \<Longrightarrow> timed w c \<Longrightarrow> \<exists>x. heap w c = Some x"
  by (fastforce simp: pinv_def timeouts_ok_def timed_def)

lemma pinv_no_deadline: "pinv os vs w \<Longrightarrow> heap w c = Some x \<Longrightarrow> deadline x = None \<Longrightarrow> \<not> timed w c"
  by (fastforce simp: pinv_def timeouts_ok_def timed_def)

lemma pinv_reads:
  "pinv os vs w \<Longrightarrow> c \<in> set (reads (req_at w f)) \<Longrightarrow>
   \<exists>x. heap w c = Some x \<and> read_side (kind x) = Some f \<and> is_coro (handle x)"
  by (auto simp: pinv_def queues_ok_def)

lemma pinv_writes:
  "pinv os vs w \<Longrightarrow> c \<in> set (writes (req_at w f)) \<Longrightarrow>
   \<exists>x. heap w c = Some x \<and> write_side (kind x) = Some f \<and> is_coro (handle x)"
  by (auto simp: pinv_def queues_ok_def)

text \<open>A completion waits in at most one queue.\<close>

lemma pinv_one_queue:
  assumes "pinv os vs w"
  shows "c \<in> set (reads (req_at w f)) \<Longrightarrow> c \<in> set (reads (req_at w g)) \<Longrightarrow> g = f"
    and "c \<in> set (writes (req_at w f)) \<Longrightarrow> c \<in> set (writes (req_at w g)) \<Longrightarrow> g = f"
    and "c \<in> set (reads (req_at w f)) \<Longrightarrow> c \<notin> set (writes (req_at w g))"
  by (auto dest!: pinv_reads [OF assms] pinv_writes [OF assms] dest: sides_disjoint)

lemma pinv_tail: "pinv os (c # cs) w \<Longrightarrow> pinv os cs w"
  by (simp add: pinv_def visits_ok_def)

lemma pinv_head:
  "pinv os (c # cs) w \<Longrightarrow>
   c \<notin> set cs \<and> \<not> in_queue w c \<and> (\<exists>x. heap w c = Some x \<and> is_coro (handle x))"
  by (simp add: pinv_def visits_ok_def)

subsection \<open>The primitive updates keep the invariant\<close>

lemma pinv_store:
  assumes "pinv os vs w" "heap w c = Some x"
    and "kind y = kind x" "deadline y = deadline x" "is_coro (handle x) \<longrightarrow> is_coro (handle y)"
  shows "pinv os vs (store c y w)"
  using assms
  by (fastforce simp: pinv_defs store_def in_queue_def connect_ok_def)

lemma pinv_push_read:
  assumes "pinv os vs w" "heap w c = Some x" "read_side (kind x) = Some f" "is_coro (handle x)"
    and "\<not> in_queue w c" "c \<notin> set vs"
  shows "pinv os vs (push_read f c w)"
  using assms
  by (auto simp: pinv_defs push_read_def in_queue_def intro: sorted_req_upd)

lemma pinv_push_write:
  assumes "pinv os vs w" "heap w c = Some x" "write_side (kind x) = Some f" "is_coro (handle x)"
    and "\<not> in_queue w c" "c \<notin> set vs"
  shows "pinv os vs (push_write f c w)"
  using assms
  by (auto simp: pinv_defs push_write_def in_queue_def intro: sorted_req_upd)

lemma pinv_erase_read: "pinv os vs w \<Longrightarrow> pinv os vs (erase_read f c w)"
  by (auto simp: pinv_defs erase_read_def in_queue_def distinct_removeAll intro: sorted_req_upd)

lemma pinv_erase_write: "pinv os vs w \<Longrightarrow> pinv os vs (erase_write f c w)"
  by (auto simp: pinv_defs erase_write_def in_queue_def distinct_removeAll intro: sorted_req_upd)

lemma pinv_insert_timeout:
  assumes "pinv os vs w" "heap w c = Some x" "is_coro (handle x)" "\<not> timed w c"
  shows "pinv os vs (insert_timeout c x w)"
  using assms
  by (auto simp: pinv_defs insert_timeout_def in_queue_def timed_def sorted_mm_insert
      distinct_snd_mm_insert split: option.splits)

lemma timeouts_sub_ok:
  "timeouts_ok w \<Longrightarrow> timeouts_ok (w\<lparr>timeouts := erase_if_first P (timeouts w)\<rparr>)"
  by (auto simp: timeouts_ok_def sorted_erase_if_first distinct_erase_if_first
      dest: subsetD [OF set_erase_if_first])

lemma pinv_cancel_timeout: "pinv os vs w \<Longrightarrow> pinv os vs (cancel_timeout c x w)"
  using timeouts_sub_ok [of w]
  by (auto simp: pinv_def cancel_timeout_def queues_ok_def visits_ok_def heap_ok_def
      split: option.splits)

lemma cancel_timeout_not_timed:
  assumes "pinv os vs w" "heap w c = Some x" "deadline y = deadline x"
  shows "\<not> timed (cancel_timeout c y w) c"
proof (cases "deadline x")
  case None
  with assms show ?thesis by (simp add: cancel_timeout_def pinv_no_deadline)
next
  case (Some d)
  with assms show ?thesis
    by (auto simp: cancel_timeout_def timed_def pinv_def timeouts_ok_def erase_snd_set)
qed

lemma pinv_delete:
  assumes "pinv os vs w" "\<not> in_queue w c" "\<not> timed w c" "c \<notin> set vs"
  shows "pinv os vs (w\<lparr>heap := (heap w)(c := None)\<rparr>)"
  using assms
  by (auto simp: pinv_defs in_queue_def timed_def)

lemma pinv_create:
  assumes "pinv os vs w" "connect_ok os x"
  shows "pinv os vs (store (next_cid w) x (w\<lparr>next_cid := Suc (next_cid w)\<rparr>))"
  using assms
  by (fastforce simp: pinv_defs store_def in_queue_def)

lemmas pinv_primitives = pinv_store pinv_push_read pinv_push_write pinv_erase_read
  pinv_erase_write pinv_insert_timeout pinv_cancel_timeout pinv_delete pinv_create

subsection \<open>Frames of the calls\<close>

lemma update_frame [frame, simp]:
  "to_visit (store c x w) = to_visit w" "to_visit (push_read f c w) = to_visit w"
  "to_visit (push_write f c w) = to_visit w" "to_visit (erase_read f c w) = to_visit w"
  "to_visit (erase_write f c w) = to_visit w" "to_visit (insert_timeout c x w) = to_visit w"
  "to_visit (cancel_timeout c x w) = to_visit w"
  "heap (push_read f c w) = heap w" "heap (push_write f c w) = heap w"
  "heap (erase_read f c w) = heap w" "heap (erase_write f c w) = heap w"
  "heap (insert_timeout c x w) = heap w" "heap (cancel_timeout c x w) = heap w"
  "heap (store c x w) = (heap w)(c \<mapsto> x)"
  by (simp_all add: store_def push_read_def push_write_def erase_read_def erase_write_def
      insert_timeout_def cancel_timeout_def split: option.splits)

lemma cancel_iop_frame [frame, simp]:
  "to_visit (cancel_iop c k w) = to_visit w" "heap (cancel_iop c k w) = heap w"
  by (cases k; simp)+

lemma queue_frame [simp]:
  "in_queue (store c x w) = in_queue w" "in_queue (insert_timeout c x w) = in_queue w"
  "in_queue (cancel_timeout c x w) = in_queue w"
  by (simp_all add: in_queue_def fun_eq_iff store_def insert_timeout_def cancel_timeout_def
      split: option.splits)

lemma timed_store [simp]:
  "timed (store c x w) = timed w" "timed (push_read f d w) = timed w"
  "timed (push_write f d w) = timed w" "timed (erase_read f d w) = timed w"
  "timed (erase_write f d w) = timed w"
  by (simp_all add: timed_def fun_eq_iff store_def push_read_def push_write_def erase_read_def
      erase_write_def)

lemma pinv_cancel_iop: "pinv os vs w \<Longrightarrow> pinv os vs (cancel_iop c k w)"
  by (cases k) (simp_all add: pinv_erase_read pinv_erase_write)

text \<open>After \<open>cancel_iop\<close> the completion is in no queue at all.\<close>

lemma cancel_iop_not_in_queue:
  assumes "pinv os vs w" "heap w c = Some x"
  shows "\<not> in_queue (cancel_iop c (kind x) w) c"
proof -
  have q: "c \<in> set (reads (req_at w f)) \<Longrightarrow> read_side (kind x) = Some f"
      "c \<in> set (writes (req_at w f)) \<Longrightarrow> write_side (kind x) = Some f" for f
    using assms by (fastforce simp: pinv_def queues_ok_def)+
  show ?thesis
    by (cases "kind x")
      (auto simp: in_queue_def erase_read_def erase_write_def split: if_splits dest: q)
qed

lemma cancel_iop_timed [simp]: "timed (cancel_iop c k w) = timed w"
  by (cases k) simp_all

subsection \<open>Trying an IOP\<close>

text \<open>
  The contract of \<open>try_or_resume\<close>: it keeps the invariant, and either leaves the completion
  waiting (and returns the no-op coroutine) or returns the coroutine that awaits it, with the
  completion out of every queue.
\<close>

definition settled_or_waiting ::
  "'k posix_os \<Rightarrow> cid list \<Rightarrow> cid \<Rightarrow> completion \<Rightarrow> coro \<times> 'k poll_warden \<Rightarrow> bool" where
  "settled_or_waiting os vs c x r \<longleftrightarrow>
     pinv os vs (snd r) \<and>
     (fst r = NoopCoro \<or>
      fst r = handle x \<and> \<not> in_queue (snd r) c \<and> \<not> timed (snd r) c) \<and>
     (\<exists>y. heap (snd r) c = Some y \<and> kind y = kind x \<and> deadline y = deadline x \<and>
          handle y = handle x)"

lemma cancel_then_resume_ok:
  assumes "pinv os vs w" "heap w c = Some y" "\<not> in_queue w c"
    and "kind y = kind x" "deadline y = deadline x" "handle y = handle x"
  shows "settled_or_waiting os vs c x (cancel_timeout_then_resume c y w)"
  using assms pinv_cancel_timeout [of os vs w c y] cancel_timeout_not_timed [of os vs w c y y]
  by (auto simp: settled_or_waiting_def cancel_timeout_then_resume_def)

lemma same_completion [simp]:
  "kind (succeed r x) = kind x" "deadline (succeed r x) = deadline x"
  "handle (succeed r x) = handle x" "kind (fail e m x) = kind x"
  "deadline (fail e m x) = deadline x" "handle (fail e m x) = handle x"
  by (simp_all add: succeed_def fail_def)

lemma store_then_resume_ok:
  assumes "pinv os vs w" "heap w c = Some x" "\<not> in_queue w c"
    and "kind y = kind x" "deadline y = deadline x" "handle y = handle x"
  shows "settled_or_waiting os vs c x (cancel_timeout_then_resume c y (store c y w))"
  using assms by (intro cancel_then_resume_ok pinv_store) auto

lemma wait_ok:
  assumes "pinv os vs w" "heap w c = Some x"
  shows "settled_or_waiting os vs c x (NoopCoro, w)"
  using assms by (simp add: settled_or_waiting_def)

lemma try_or_resume_obj_ok:
  assumes inv: "pinv os vs w" and x: "heap w c = Some x" "is_coro (handle x)"
    and idle: "\<not> in_queue w c" "c \<notin> set vs"
  shows "settled_or_waiting os vs c x (try_or_resume_obj os c x w)"
proof -
  note facts = inv x idle
  have push: "settled_or_waiting os vs c x (NoopCoro, push_read f c (w\<lparr>kern := k\<rparr>))"
    if "read_side (kind x) = Some f" for f k
    using facts that by (intro wait_ok pinv_push_read) auto
  have pushw: "settled_or_waiting os vs c x (NoopCoro, push_write f c (w\<lparr>kern := k\<rparr>))"
    if "write_side (kind x) = Some f" for f k
    using facts that by (intro wait_ok pinv_push_write) auto
  have finish: "settled_or_waiting os vs c x
      (cancel_timeout_then_resume c y (store c y (w\<lparr>kern := k\<rparr>)))"
    if "kind y = kind x" "deadline y = deadline x" "handle y = handle x" for y k
    using facts that by (intro store_then_resume_ok) auto
  have plain: "settled_or_waiting os vs c x (cancel_timeout_then_resume c x (w\<lparr>kern := k\<rparr>))"
    for k
    using facts by (intro cancel_then_resume_ok) auto
  show ?thesis
  proof (cases "kind x")
    case (Connect f a)
    have retry: "settled_or_waiting os vs c x
        (NoopCoro, insert_timeout c x (push_write f c (w\<lparr>kern := k\<rparr>)))"
      if "os_so_error os f (kern w) = (0, e, k)" "e \<noteq> 0" "os_errno os k = EINPROGRESS" for k e
    proof -
      have "connect_ok os x" using inv x by (auto simp: pinv_def heap_ok_def)
      with that Connect have "deadline x = None" by (auto simp: connect_ok_def connect_clean_def)
      with pushw Connect show ?thesis by (simp add: insert_timeout_def)
    qed
    from Connect show ?thesis
      by (auto simp: try_or_resume_obj_def connect_try_or_resume_def Let_def
          intro: plain finish retry split: prod.splits)
  qed (auto simp: try_or_resume_obj_def close_try_or_resume_def read_some_try_or_resume_def
      write_some_try_or_resume_def accept_try_or_resume_def Let_def facts
      intro: plain finish push pushw wait_ok plain [of "kern w", simplified] split: prod.splits)
qed

end
