(* ===== verification/PollSafety.thy ===== *)
theory PollSafety
  imports PollInvariant
begin

text \<open>
  Memory safety of the poll warden: with an application that keeps the ownership rules of
  \<open>lawful\<close>, no call, no dispatch, no time out and no pass of the loop ever follows a dangling
  pointer. The application contract is the locale \<open>warden_contract\<close>, interpreted here.
\<close>

subsection \<open>Suspending, timing out, destroying\<close>

lemma try_or_resume_obj_to_visit [frame, simp]:
  "to_visit (snd (try_or_resume_obj os c x w)) = to_visit w"
  by (cases "kind x")
    (auto simp: try_or_resume_obj_def close_try_or_resume_def read_some_try_or_resume_def
      write_some_try_or_resume_def accept_try_or_resume_def connect_try_or_resume_def
      cancel_timeout_then_resume_def Let_def split: prod.splits)

lemma try_or_resume_to_visit [frame, simp]:
  "to_visit (snd (try_or_resume os c w)) = to_visit w"
  by (simp add: try_or_resume_def split: option.splits)

lemma await_suspend_to_visit [frame, simp]:
  "to_visit (snd (await_suspend os c h w)) = to_visit w"
  by (auto simp: await_suspend_def connect_await_suspend_def read_ready_await_suspend_def
      write_ready_await_suspend_def completion_await_suspend_def Let_def
      split: option.splits iop_kind.splits prod.splits)

lemma iop_timedout_to_visit [frame, simp]: "to_visit (snd (iop_timedout c w)) = to_visit w"
  by (auto simp: iop_timedout_def split: option.splits iop_kind.splits)

lemma iop_destroy_to_visit [frame, simp]: "to_visit (iop_destroy c w) = to_visit w"
  by (auto simp: iop_destroy_def Let_def split: option.splits)

lemma new_iop_to_visit [frame, simp]: "to_visit (snd (new_iop os k dl w)) = to_visit w"
  by (cases k) (simp_all add: do_close_def do_sleep_def do_read_some_def do_write_some_def
      do_accept_def do_connect_def do_read_ready_def do_write_ready_def new_completion_def
      deadline_from_def Let_def split: prod.splits)

lemma do_async_resume_to_visit [frame, simp]: "to_visit (do_async_resume os hs w) = to_visit w"
  by (simp add: do_async_resume_def wake_event_loop_def Let_def split: prod.splits)

lemma exec_to_visit [frame, simp]: "to_visit (exec os a w) = to_visit w"
  by (cases a) simp_all

lemma acts_to_visit [frame, simp]: "to_visit (fold (exec os) as w) = to_visit w"
  by (induction as arbitrary: w) simp_all

lemma resume_to_visit [frame, simp]: "to_visit (resume os user h w) = to_visit w"
  by (cases h) simp_all

lemma await_suspend_ok:
  assumes inv: "pinv os vs w" and x: "heap w c = Some x"
    and idle: "\<not> in_queue w c" "\<not> timed w c" "c \<notin> set vs"
  shows "settled_or_waiting os vs c (x\<lparr>handle := Coro h\<rparr>) (await_suspend os c (Coro h) w)"
proof -
  let ?x = "x\<lparr>handle := Coro h\<rparr>"
  have stored: "pinv os vs (store c ?x (w\<lparr>kern := k\<rparr>))" for k
    using inv x by (intro pinv_store) auto
  have stored0: "pinv os vs (store c ?x w)"
    using stored [of "kern w"] by simp
  have base: "settled_or_waiting os vs c ?x (completion_await_suspend os c x (Coro h) w)"
    unfolding completion_await_suspend_def Let_def
    using stored0 idle by (intro try_or_resume_obj_ok pinv_insert_timeout) auto
  show ?thesis
  proof (cases "kind x")
    case (Connect f a)
    have wait: "settled_or_waiting os vs c ?x
        (NoopCoro, insert_timeout c ?x (push_write f c (store c ?x (w\<lparr>kern := k\<rparr>))))" for k
      using stored idle Connect by (intro wait_ok pinv_insert_timeout pinv_push_write) auto
    have now: "settled_or_waiting os vs c ?x (Coro h, store c y (w\<lparr>kern := k\<rparr>))"
      if "kind y = kind x" "deadline y = deadline x" "handle y = Coro h" for y k
      using inv idle that x pinv_store [of os vs "w\<lparr>kern := k\<rparr>" c x y]
      by (simp add: settled_or_waiting_def)
    have twice: "store c y (store c ?x v) = store c y v" for y and v :: "'a poll_warden"
      by (simp add: store_def)
    from Connect x show ?thesis
      by (auto simp: await_suspend_def connect_await_suspend_def Let_def twice
          intro: wait now split: prod.splits)
  next
    case (ReadReady f)
    have "settled_or_waiting os vs c ?x
        (NoopCoro, insert_timeout c ?x (push_read f c (store c ?x w)))"
      using stored0 idle ReadReady by (intro wait_ok pinv_insert_timeout pinv_push_read) auto
    with ReadReady x show ?thesis
      by (simp add: await_suspend_def read_ready_await_suspend_def Let_def)
  next
    case (WriteReady f)
    have "settled_or_waiting os vs c ?x
        (NoopCoro, insert_timeout c ?x (push_write f c (store c ?x w)))"
      using stored0 idle WriteReady by (intro wait_ok pinv_insert_timeout pinv_push_write) auto
    with WriteReady x show ?thesis
      by (simp add: await_suspend_def write_ready_await_suspend_def Let_def)
  qed (use base x in \<open>simp_all add: await_suspend_def\<close>)
qed

lemma sleep_not_in_queue:
  "pinv os vs w \<Longrightarrow> heap w c = Some x \<Longrightarrow> kind x = Sleep t \<Longrightarrow> \<not> in_queue w c"
  by (fastforce simp: pinv_def queues_ok_def in_queue_def)

lemma iop_timedout_ok:
  assumes inv: "pinv os vs w" and x: "heap w c = Some x" and nt: "\<not> timed w c"
  shows "settled_or_waiting os vs c x (iop_timedout c w) \<and> fst (iop_timedout c w) = handle x"
proof -
  have "settled_or_waiting os vs c x
      (handle x, store c (fail ETIME ''IOP timed out'' x) (cancel_iop c (kind x) w))"
    using assms cancel_iop_not_in_queue [OF inv x]
      pinv_store [OF pinv_cancel_iop [OF inv], where c = c and x = x
        and y = "fail ETIME ''IOP timed out'' x"]
    by (simp add: settled_or_waiting_def)
  moreover have "settled_or_waiting os vs c x (handle x, w)" if "kind x = Sleep t" for t
    using assms sleep_not_in_queue [OF inv x that] by (simp add: settled_or_waiting_def)
  ultimately show ?thesis
    using x by (auto simp: iop_timedout_def split: iop_kind.splits)
qed

lemma iop_destroy_ok:
  assumes inv: "pinv os vs w" and x: "heap w c = Some x" and nv: "c \<notin> set vs"
  shows "pinv os vs (iop_destroy c w)"
proof -
  let ?w = "cancel_timeout c x w"
  have 1: "pinv os vs ?w" "heap ?w c = Some x" "\<not> timed ?w c"
    using assms by (simp_all add: pinv_cancel_timeout cancel_timeout_not_timed)
  let ?v = "cancel_iop c (kind x) ?w"
  have "pinv os vs ?v" "\<not> in_queue ?v c" "\<not> timed ?v c"
    using 1 by (simp_all add: pinv_cancel_iop cancel_iop_not_in_queue)
  then have "pinv os vs (?v\<lparr>heap := (heap ?v)(c := None)\<rparr>)"
    using nv by (intro pinv_delete)
  with x show ?thesis by (simp add: iop_destroy_def Let_def)
qed

subsection \<open>Lawful applications\<close>

fun lawful :: "'k posix_os \<Rightarrow> 'k act \<Rightarrow> 'k poll_warden \<Rightarrow> bool" where
  "lawful os (NewIop k dl) w \<longleftrightarrow> (\<exists>f a. k = Connect f a) \<and> dl \<noteq> None \<longrightarrow> connect_clean os"
| "lawful os (Await c h) w \<longleftrightarrow>
     heap w c \<noteq> None \<and> \<not> in_queue w c \<and> \<not> timed w c \<and> c \<notin> set (to_visit w)"
| "lawful os (DestroyIop c) w \<longleftrightarrow> heap w c \<noteq> None \<and> c \<notin> set (to_visit w)"
| "lawful os (AsyncResume hs) w \<longleftrightarrow> True"
| "lawful os (Finish h) w \<longleftrightarrow> True"
| "lawful os (Kernel f) w \<longleftrightarrow> True"

lemma new_completion_inv:
  assumes "pinv os vs w" "(\<exists>f a. k = Connect f a) \<and> dl \<noteq> None \<longrightarrow> connect_clean os"
  shows "pinv os vs (snd (new_completion k dl w))"
  unfolding new_completion_def Let_def snd_conv
  using assms by (intro pinv_create) (auto simp: connect_ok_def)

lemma exec_pinv:
  assumes "pinv os (to_visit w) w" "lawful os a w"
  shows "pinv os (to_visit w) (exec os a w)"
proof (cases a)
  case (NewIop k dl)
  with assms show ?thesis
    by (cases k) (auto simp: do_close_def do_sleep_def do_read_some_def do_write_some_def
        do_accept_def do_connect_def do_read_ready_def do_write_ready_def
        intro!: new_completion_inv split: prod.splits)
next
  case (Await c h)
  with assms obtain x where "heap w c = Some x" by auto
  with Await assms show ?thesis
    using await_suspend_ok [of os "to_visit w" w c x h] by (simp add: settled_or_waiting_def)
next
  case (DestroyIop c)
  with assms show ?thesis by (auto intro: iop_destroy_ok)
next
  case (AsyncResume hs)
  with assms show ?thesis
    by (simp add: do_async_resume_def wake_event_loop_def Let_def split: prod.splits)
qed (use assms in auto)

interpretation poll_app: warden_contract "exec os" "inv os" "lawful os"
  by unfold_locales (simp add: inv_def exec_pinv)

definition well_behaved :: "'k posix_os \<Rightarrow> 'k user \<Rightarrow> bool" where
  "well_behaved os user \<longleftrightarrow>
     (\<forall>h w. inv os w \<longrightarrow> lawful_acts (exec os) (lawful os) (user h w) w)"

lemma resume_inv:
  assumes "well_behaved os user" "inv os w" "h \<noteq> NullCoro"
  shows "inv os (resume os user h w)"
  using assms by (cases h) (auto simp: well_behaved_def intro: poll_app.acts_inv)

lemma is_coro_not_null: "is_coro h \<Longrightarrow> h \<noteq> NullCoro"
  by auto

subsection \<open>Dispatch\<close>

lemma dispatch_inv:
  assumes wb: "well_behaved os user"
  shows "pinv os cs w \<Longrightarrow>
    inv os (dispatch os user cs w) \<and> to_visit (dispatch os user cs w) = []"
proof (induction cs arbitrary: w)
  case Nil
  then show ?case by (simp add: inv_def)
next
  case (Cons c cs)
  let ?w = "w\<lparr>to_visit := cs\<rparr>"
  obtain x where x: "heap w c = Some x" "is_coro (handle x)"
    and idle: "c \<notin> set cs" "\<not> in_queue w c"
    using pinv_head [OF Cons.prems] by auto
  obtain h w1 where hw: "try_or_resume_obj os c x ?w = (h, w1)"
    by (cases "try_or_resume_obj os c x ?w")
  have "settled_or_waiting os cs c x (h, w1)"
    using try_or_resume_obj_ok [of os cs ?w c x] pinv_tail [OF Cons.prems] x idle hw by simp
  moreover have "to_visit w1 = cs"
    using try_or_resume_obj_to_visit [of os c x ?w] hw by simp
  ultimately have "inv os w1" "h \<noteq> NullCoro" "to_visit w1 = cs"
    using x by (auto simp: settled_or_waiting_def inv_def)
  then have "pinv os cs (resume os user h w1)"
    using resume_inv [OF wb, of w1 h] by (simp add: inv_def)
  from Cons.IH [OF this] show ?case
    using x hw by (simp add: try_or_resume_def)
qed

text \<open>
  While \<open>do_poll\<close> moves the ready completions from \<open>requests\<close> into the continuations, these
  are the visits to come.
\<close>

lemma pinv_collect_reads:
  assumes "pinv os (continuations w) w"
  shows "pinv os (continuations (collect_reads f w)) (collect_reads f w)"
proof -
  let ?rs = "reads (req_at w f)"
  have rs: "distinct ?rs" "\<And>c. c \<in> set ?rs \<Longrightarrow> \<exists>x. heap w c = Some x \<and> is_coro (handle x)"
    using assms by (auto simp: pinv_def queues_ok_def dest!: pinv_reads [OF assms])
  have elsewhere: "c \<in> set ?rs \<Longrightarrow> c \<in> set (reads (req_at w g)) \<Longrightarrow> g = f"
      "c \<in> set ?rs \<Longrightarrow> c \<notin> set (writes (req_at w g))" for c g
    using pinv_one_queue [OF assms] by blast+
  show ?thesis
    using assms rs elsewhere
    by (auto simp: pinv_defs collect_reads_def in_queue_def intro: sorted_req_upd)
qed

lemma pinv_collect_writes:
  assumes "pinv os (continuations w) w"
  shows "pinv os (continuations (collect_writes f w)) (collect_writes f w)"
proof -
  let ?rs = "writes (req_at w f)"
  have rs: "distinct ?rs" "\<And>c. c \<in> set ?rs \<Longrightarrow> \<exists>x. heap w c = Some x \<and> is_coro (handle x)"
    using assms by (auto simp: pinv_def queues_ok_def dest!: pinv_writes [OF assms])
  have elsewhere: "c \<in> set ?rs \<Longrightarrow> c \<in> set (writes (req_at w g)) \<Longrightarrow> g = f"
      "c \<in> set ?rs \<Longrightarrow> c \<notin> set (reads (req_at w g))" for c g
    using pinv_one_queue [OF assms] by blast+
  show ?thesis
    using assms rs elsewhere
    by (auto simp: pinv_defs collect_writes_def in_queue_def intro: sorted_req_upd)
qed

lemma collect_one_inv:
  "collect_one os p w = Some w' \<Longrightarrow> pinv os (continuations w) w \<Longrightarrow>
   pinv os (continuations w') w'"
  by (auto simp: collect_one_def drain_wakeup_def Let_def split: if_splits option.splits
      intro: pinv_collect_reads pinv_collect_writes)

lemma collect_inv:
  "collect os ps w = Some w' \<Longrightarrow> pinv os (continuations w) w \<Longrightarrow>
   pinv os (continuations w') w'"
  by (induction ps arbitrary: w) (auto split: option.splits dest: collect_one_inv)

lemma do_poll_inv:
  assumes wb: "well_behaved os user" and inv: "inv os w" and tv: "to_visit w = []"
    and run: "do_poll os user t w = Some (r, w')"
  shows "inv os w' \<and> to_visit w' = []"
proof -
  obtain pr rv k where p: "os_poll os (poll_set w) t (kern w) = (pr, rv, k)"
    by (metis prod_cases3)
  let ?w1 = "w\<lparr>kern := k, iops := with_revents rv 0 (poll_set w)\<rparr>"
  have w1: "pinv os [] ?w1" using inv tv by (simp add: inv_def)
  show ?thesis
  proof (cases "pr > 0")
    case True
    with run p obtain w2 where w2: "collect os (iops ?w1) (?w1\<lparr>continuations := []\<rparr>) = Some w2"
        and w': "w' = dispatch os user (continuations w2) w2"
      by (auto simp: do_poll_def Let_def split: option.splits)
    have "pinv os (continuations w2) w2"
      using collect_inv [OF w2] w1 by simp
    with w' dispatch_inv [OF wb] show ?thesis by simp
  next
    case False
    with run p have "w' = ?w1"
      by (auto simp: do_poll_def Let_def split: if_splits)
    with w1 tv show ?thesis by (simp add: inv_def)
  qed
qed

end
