(* ===== verification/PollLoop.thy ===== *)
theory PollLoop
  imports PollSafety
begin

text \<open>
  The poll loop as a transition system. \<open>loop_step\<close> has one rule for each thing a run does
  between two points of the loop: read the clock, fire the earliest time out, poll and
  dispatch and resume what was queued, fail in \<open>poll\<close>, or let the application start a
  coroutine. \<open>run_until\<close> and \<open>run_batch\<close> only take such steps, so an invariant of the
  relation holds throughout every run, finished or not.
\<close>

subsection \<open>The queues of deferred resumptions\<close>

lemma try_or_resume_obj_resumer [frame, simp]:
  "resumer (snd (try_or_resume_obj os c x w)) = resumer w"
  by (cases "kind x")
    (auto simp: try_or_resume_obj_def close_try_or_resume_def read_some_try_or_resume_def
      write_some_try_or_resume_def accept_try_or_resume_def connect_try_or_resume_def
      cancel_timeout_then_resume_def cancel_timeout_def insert_timeout_def store_def
      push_read_def push_write_def Let_def split: prod.splits option.splits)

lemma cancel_iop_resumer [frame, simp]:
  "resumer (erase_read f c w) = resumer w" "resumer (erase_write f c w) = resumer w"
  "resumer (cancel_iop c k w) = resumer w"
  by (cases k; simp add: erase_read_def erase_write_def)+

lemma await_suspend_resumer [frame, simp]:
  "resumer (snd (await_suspend os c h w)) = resumer w"
  by (auto simp: await_suspend_def connect_await_suspend_def read_ready_await_suspend_def
      write_ready_await_suspend_def completion_await_suspend_def insert_timeout_def store_def
      push_read_def push_write_def Let_def
      split: option.splits iop_kind.splits prod.splits)

lemma other_calls_resumer [frame, simp]:
  "resumer (snd (try_or_resume os c w)) = resumer w"
  "resumer (snd (iop_timedout c w)) = resumer w"
  "resumer (iop_destroy c w) = resumer w"
  "resumer (snd (new_completion k dl w)) = resumer w"
  by (auto simp: try_or_resume_def iop_timedout_def iop_destroy_def new_completion_def store_def
      cancel_timeout_def Let_def split: option.splits iop_kind.splits)

lemma new_iop_resumer [frame, simp]: "resumer (snd (new_iop os k dl w)) = resumer w"
  by (cases k) (simp_all add: do_close_def do_sleep_def do_read_some_def do_write_some_def
      do_accept_def do_connect_def do_read_ready_def do_write_ready_def split: prod.splits)

lemma do_async_resume_resumer:
  "resumer (do_async_resume os hs w) = snd (queue hs (resumer w))"
  by (auto simp: do_async_resume_def wake_event_loop_def Let_def split: prod.splits)

lemma exec_appends: "appends (resumer w) (resumer (exec os a w))"
  by (cases a) (simp_all add: do_async_resume_resumer appends_queue)

lemma acts_appends: "appends (resumer w) (resumer (fold (exec os) as w))"
  by (induction as arbitrary: w) (auto intro: appends_trans exec_appends)

interpretation poll_queue: resumption_host resumer "\<lambda>a w. w\<lparr>resumer := a\<rparr>" "resume os user"
proof unfold_locales
  fix w :: "'a poll_warden" and h
  show "appends (resumer w) (resumer (resume os user h w))"
    by (cases h) (simp_all add: acts_appends)
qed simp

lemma dispatch_appends: "appends (resumer w) (resumer (dispatch os user cs w))"
proof (induction cs arbitrary: w)
  case (Cons c cs)
  obtain h w1 where hw: "try_or_resume os c (w\<lparr>to_visit := cs\<rparr>) = (h, w1)"
    by (cases "try_or_resume os c (w\<lparr>to_visit := cs\<rparr>)")
  have "resumer w1 = resumer w"
    using other_calls_resumer(1) [of os c "w\<lparr>to_visit := cs\<rparr>"] hw by simp
  then show ?case
    using hw appends_trans [OF poll_queue.resume_appends [of w1 os user h] Cons.IH] by simp
qed simp

lemma collect_resumer: "collect os ps w = Some w' \<Longrightarrow> resumer w' = resumer w"
  by (induction ps arbitrary: w)
    (auto simp: collect_one_def drain_wakeup_def collect_reads_def collect_writes_def Let_def
      split: option.splits if_splits)

lemma do_poll_appends:
  "do_poll os user t w = Some (r, w') \<Longrightarrow> appends (resumer w) (resumer w')"
  by (auto simp: do_poll_def Let_def split: prod.splits if_splits option.splits
      dest!: collect_resumer intro: appends_trans [OF _ dispatch_appends])

subsection \<open>The invariant of the loop\<close>

definition queue_ok :: "'k poll_warden \<Rightarrow> bool" where
  "queue_ok w \<longleftrightarrow> NullCoro \<notin> set (queued (resumer w)) \<and> resuming (resumer w) = []"

definition loop_inv :: "'k posix_os \<Rightarrow> 'k poll_warden \<Rightarrow> bool" where
  "loop_inv os w \<longleftrightarrow> inv os w \<and> to_visit w = [] \<and> queue_ok w"

lemma queue_ok_appends: "appends (resumer w) (resumer w') \<Longrightarrow> queue_ok w \<Longrightarrow> queue_ok w'"
  by (auto simp: queue_ok_def dest: appends_resuming appends_no_null)

lemma resume_loop_inv:
  assumes "well_behaved os user" "loop_inv os w" "h \<noteq> NullCoro"
  shows "loop_inv os (resume os user h w)"
  using assms
  by (auto simp: loop_inv_def resume_inv intro: queue_ok_appends [OF poll_queue.resume_appends])

lemma fold_resume_inv:
  assumes wb: "well_behaved os user"
  shows "NullCoro \<notin> set hs \<Longrightarrow> inv os w \<Longrightarrow> inv os (fold (resume os user) hs w)"
proof (induction hs arbitrary: w)
  case (Cons h hs)
  then have "h \<noteq> NullCoro" by auto
  with Cons show ?case by (simp add: resume_inv [OF wb])
qed simp

lemma fold_resume_to_visit [simp]: "to_visit (fold (resume os user) hs w) = to_visit w"
  by (induction hs arbitrary: w) auto

lemma resume_queued_inv:
  assumes wb: "well_behaved os user" and inv: "loop_inv os w"
  shows "loop_inv os (resume_queued os user w)"
proof -
  let ?w1 = "w\<lparr>resumer := swap_queues (resumer w)\<rparr>"
  let ?w2 = "fold (resume os user) (queued (resumer w)) ?w1"
  have eq: "resume_queued os user w = ?w2\<lparr>resumer := (resumer ?w2)\<lparr>resuming := []\<rparr>\<rparr>"
    by (simp add: resume_queued_def poll_queue.resume_all_runs_queue Let_def)
  have "inv os ?w1" "NullCoro \<notin> set (queued (resumer w))"
    using inv by (auto simp: loop_inv_def inv_def queue_ok_def)
  then have "inv os ?w2" by (rule fold_resume_inv [OF wb, rotated])
  moreover have "NullCoro \<notin> set (queued (resumer ?w2))"
    using appends_no_null [OF poll_queue.fold_resume_appends [of ?w1 os user]] inv
    by (simp add: swap_queues_def loop_inv_def queue_ok_def)
  ultimately show ?thesis
    using inv by (simp add: eq loop_inv_def inv_def queue_ok_def)
qed

lemma fire_timeout_inv:
  assumes wb: "well_behaved os user" and inv: "loop_inv os w" and t: "timeouts w = s # rest"
  shows "loop_inv os (fire_timeout os user (snd s) (w\<lparr>kern := k, timeouts := rest\<rparr>))"
proof -
  let ?w = "w\<lparr>kern := k, timeouts := rest\<rparr>"
  have pw: "pinv os [] ?w" and nt: "\<not> timed ?w (snd s)"
    and x: "\<exists>x. heap ?w (snd s) = Some x \<and> is_coro (handle x)"
    using inv t by (auto simp: loop_inv_def inv_def pinv_defs in_queue_def timed_def)
  then obtain x where x: "heap ?w (snd s) = Some x" "is_coro (handle x)" by auto
  obtain h w1 where hw: "iop_timedout (snd s) ?w = (h, w1)"
    by (cases "iop_timedout (snd s) ?w")
  have "pinv os [] w1" "h = handle x"
    using iop_timedout_ok [OF pw x(1) nt] hw by (auto simp: settled_or_waiting_def)
  moreover have "to_visit w1 = to_visit w" "resumer w1 = resumer w"
    using iop_timedout_to_visit [of "snd s" ?w] other_calls_resumer(2) [of "snd s" ?w] hw
    by simp_all
  ultimately have "loop_inv os w1" "h \<noteq> NullCoro"
    using inv x by (auto simp: loop_inv_def inv_def queue_ok_def)
  then show ?thesis
    using resume_loop_inv [OF wb] hw by (simp add: fire_timeout_def)
qed

lemma do_poll_loop_inv:
  assumes "well_behaved os user" "loop_inv os w" "do_poll os user t w = Some (r, w')"
  shows "loop_inv os w'"
  using assms do_poll_inv [OF assms(1) _ _ assms(3)] queue_ok_appends [OF do_poll_appends [OF assms(3)]]
  by (simp add: loop_inv_def)

subsection \<open>Steps of a run\<close>

inductive loop_step ::
  "'k posix_os \<Rightarrow> 'k user \<Rightarrow> 'k poll_warden \<Rightarrow> 'k poll_warden \<Rightarrow> bool"
  for os :: "'k posix_os" and user :: "'k user" where
  clock: "os_now os (kern w) = (now, k) \<Longrightarrow> loop_step os user w (w\<lparr>kern := k\<rparr>)"
| fire: "timeouts w = s # rest \<Longrightarrow> os_now os (kern w) = (now, k) \<Longrightarrow>
    fst s - now < 1000000 \<Longrightarrow>
    loop_step os user w (fire_timeout os user (snd s) (w\<lparr>kern := k, timeouts := rest\<rparr>))"
| poll: "do_poll os user t w = Some (Inr u, w') \<Longrightarrow>
    loop_step os user w (resume_queued os user w')"
| poll_failed: "do_poll os user t w = Some (Inl e, w') \<Longrightarrow> loop_step os user w w'"
| start: "loop_step os user w (resume os user (Coro h) w)"

inductive_cases loop_stepE: "loop_step os user w w'"

lemma loop_step_inv:
  assumes wb: "well_behaved os user"
  shows "loop_step os user w w' \<Longrightarrow> loop_inv os w \<Longrightarrow> loop_inv os w'"
proof (induction rule: loop_step.induct)
  case (clock w now k)
  then show ?case by (auto simp: loop_inv_def inv_def queue_ok_def)
next
  case (start w h)
  from resume_loop_inv [OF wb this, of "Coro h"] show ?case by simp
qed (auto intro: fire_timeout_inv [OF wb] resume_queued_inv [OF wb] do_poll_loop_inv [OF wb])

lemma loop_steps_inv:
  assumes wb: "well_behaved os user"
  shows "(loop_step os user)\<^sup>*\<^sup>* w w' \<Longrightarrow> loop_inv os w \<Longrightarrow> loop_inv os w'"
  by (induction rule: rtranclp_induct) (auto intro: loop_step_inv [OF wb])

subsection \<open>The code takes only such steps\<close>

lemma clear_timeouts_steps:
  assumes "clear_timeouts os user w = Some (t, w')"
  shows "(loop_step os user)\<^sup>*\<^sup>* w w'"
proof -
  have "(loop_step os user)\<^sup>*\<^sup>* w (snd (t, w'))"
  proof (rule clear_timeouts.raw_induct
      [where P = "\<lambda>os user w r. (loop_step os user)\<^sup>*\<^sup>* w (snd r)", OF _ assms])
    fix f os and user :: "'a user" and w r
    assume IH: "\<And>os (user :: 'a user) w r. f os user w = Some r \<Longrightarrow> (loop_step os user)\<^sup>*\<^sup>* w (snd r)"
      and eq: "(case timeouts w of [] \<Rightarrow> Some (-1, w)
        | s # rest \<Rightarrow>
            let (now, k) = os_now os (kern w); tdiff = fst s - now; w1 = w\<lparr>kern := k\<rparr>
            in if tdiff < 1000000
               then f os user (fire_timeout os user (snd s) (w1\<lparr>timeouts := rest\<rparr>))
               else Some (poll_timeout tdiff, w1)) = Some r"
    obtain now k where now: "os_now os (kern w) = (now, k)" by (cases "os_now os (kern w)")
    show "(loop_step os user)\<^sup>*\<^sup>* w (snd r)"
    proof (cases "timeouts w")
      case Nil
      with eq show ?thesis by auto
    next
      case (Cons s rest)
      let ?w = "fire_timeout os user (snd s) (w\<lparr>kern := k, timeouts := rest\<rparr>)"
      show ?thesis
      proof (cases "fst s - now < 1000000")
        case True
        with eq now Cons have "(loop_step os user)\<^sup>*\<^sup>* ?w (snd r)"
          by (intro IH) (simp add: Let_def)
        with loop_step.fire [OF Cons now True] show ?thesis
          by (rule converse_rtranclp_into_rtranclp)
      next
        case False
        with eq now Cons have "snd r = w\<lparr>kern := k\<rparr>" by (auto simp: Let_def)
        with loop_step.clock [OF now] show ?thesis by auto
      qed
    qed
  qed
  then show ?thesis by simp
qed

lemma run_loop_steps:
  assumes "run_loop os user coro w = Some (r, w')"
  shows "(loop_step os user)\<^sup>*\<^sup>* w w'"
proof -
  have "(loop_step os user)\<^sup>*\<^sup>* w (snd (r, w'))"
  proof (rule run_loop.raw_induct
      [where P = "\<lambda>os user coro w r. (loop_step os user)\<^sup>*\<^sup>* w (snd r)", OF _ assms])
    fix f os and user :: "'a user" and coro w r
    assume IH: "\<And>os (user :: 'a user) coro w r. f os user coro w = Some r \<Longrightarrow>
        (loop_step os user)\<^sup>*\<^sup>* w (snd r)"
      and eq: "(case clear_timeouts os user w of None \<Rightarrow> None
        | Some tw \<Rightarrow>
            if coro \<in> set (finished (snd tw)) then Some (Inr (), snd tw)
            else case do_poll os user (fst tw) (snd tw) of None \<Rightarrow> None
              | Some rw \<Rightarrow>
                  (case fst rw of Inl e \<Rightarrow> Some (Inl e, snd rw)
                   | Inr u \<Rightarrow> f os user coro (resume_queued os user (snd rw)))) = Some r"
    then obtain t w1 where ct: "clear_timeouts os user w = Some (t, w1)"
      by (auto split: option.splits)
    then have s1: "(loop_step os user)\<^sup>*\<^sup>* w w1" by (rule clear_timeouts_steps)
    show "(loop_step os user)\<^sup>*\<^sup>* w (snd r)"
    proof (cases "coro \<in> set (finished w1)")
      case True
      with eq ct s1 show ?thesis by auto
    next
      case False
      with eq ct obtain q w2 where dp: "do_poll os user t w1 = Some (q, w2)"
        by (auto split: option.splits)
      show ?thesis
      proof (cases q)
        case (Inl e)
        with eq ct False dp have "snd r = w2" by auto
        with s1 loop_step.poll_failed [OF dp [unfolded Inl]] show ?thesis by simp
      next
        case (Inr u)
        with eq ct False dp have "(loop_step os user)\<^sup>*\<^sup>* (resume_queued os user w2) (snd r)"
          by (intro IH) simp
        with s1 loop_step.poll [OF dp [unfolded Inr]] show ?thesis
          by (meson converse_rtranclp_into_rtranclp rtranclp_trans)
      qed
    qed
  qed
  then show ?thesis by simp
qed

lemma run_until_steps:
  "run_until os user coro w = Some (r, w') \<Longrightarrow> (loop_step os user)\<^sup>*\<^sup>* w w'"
  unfolding run_until_def
  by (rule converse_rtranclp_into_rtranclp [OF loop_step.start run_loop_steps])

lemma run_batch_steps:
  assumes "run_batch os user w = Some (r, w')"
  shows "(loop_step os user)\<^sup>*\<^sup>* w w'"
proof -
  from assms obtain t w1 q w2 where ct: "clear_timeouts os user w = Some (t, w1)"
    and dp: "do_poll os user 0 w1 = Some (q, w2)"
    by (auto simp: run_batch_def split: option.splits prod.splits)
  note s1 = clear_timeouts_steps [OF ct]
  show ?thesis
  proof (cases q)
    case (Inl e)
    with assms ct dp have "w' = w2" by (auto simp: run_batch_def)
    with s1 loop_step.poll_failed [OF dp [unfolded Inl]] show ?thesis by simp
  next
    case (Inr u)
    with assms ct dp have "w' = resume_queued os user w2" by (auto simp: run_batch_def)
    with s1 loop_step.poll [OF dp [unfolded Inr]] show ?thesis by simp
  qed
qed

subsection \<open>The initial warden\<close>

lemma new_poll_warden_inv: "new_poll_warden os k = Inr w \<Longrightarrow> loop_inv os w"
  by (auto simp: new_poll_warden_def loop_inv_def inv_def pinv_defs queue_ok_def no_requests_def
      req_at_def no_request_def in_queue_def split: prod.splits sum.splits)

end
