(* ===== verification/PollTimeouts.thy ===== *)
theory PollTimeouts
  imports PollLoop
begin

text \<open>
  The time outs of the poll loop: the number handed to \<open>poll\<close>, what \<open>clear_timeouts\<close> has
  done when it returns, when it returns, and an application for which it never does.
\<close>

subsection \<open>The argument of \<open>poll\<close>\<close>

lemma sint_word32_small:
  assumes "0 \<le> m" "m < 2147483648"
  shows "sint (word_of_int m :: 32 word) = m"
  using assms by (simp add: sint_sbintrunc' signed_take_bit_int_eq_self)

lemma sint_word32_wrapped:
  assumes "2147483648 \<le> m" "m < 4294967296"
  shows "sint (word_of_int m :: 32 word) = m - 4294967296"
proof -
  have "(m + 2147483648) mod 4294967296 = (m - 2147483648 + 4294967296) mod 4294967296"
    by (rule arg_cong [where f = "\<lambda>x. x mod 4294967296"]) simp
  also have "\<dots> = (m - 2147483648) mod 4294967296" by (rule mod_add_self2)
  also have "\<dots> = m - 2147483648" using assms by (intro mod_pos_pos_trivial) auto
  finally show ?thesis
    by (simp add: sint_sbintrunc' signed_take_bit_eq_take_bit_shift take_bit_eq_mod)
qed

lemma milliseconds_bounds:
  "milliseconds t * 1000000 \<le> t \<and> t < (milliseconds t + 1) * 1000000"
  unfolding milliseconds_def by presburger

subsection \<open>When \<open>clear_timeouts\<close> returns\<close>

lemma clear_timeouts_unfold:
  "clear_timeouts os user w =
     (case timeouts w of
        [] \<Rightarrow> Some (-1, w)
      | s # rest \<Rightarrow>
          (if fst s - fst (os_now os (kern w)) < 1000000
           then clear_timeouts os user
                  (fire_timeout os user (snd s)
                     (w\<lparr>kern := snd (os_now os (kern w)), timeouts := rest\<rparr>))
           else Some (poll_timeout (fst s - fst (os_now os (kern w))),
                      w\<lparr>kern := snd (os_now os (kern w))\<rparr>)))"
  by (subst clear_timeouts.simps) (simp add: Let_def split: list.splits prod.splits)

lemma cancel_iop_timeouts [frame, simp]:
  "timeouts (erase_read f c w) = timeouts w" "timeouts (erase_write f c w) = timeouts w"
  "timeouts (cancel_iop c k w) = timeouts w"
  by (cases k; simp add: erase_read_def erase_write_def)+

lemma iop_timedout_timeouts [frame, simp]: "timeouts (snd (iop_timedout c w)) = timeouts w"
  by (auto simp: iop_timedout_def store_def split: option.splits iop_kind.splits)

text \<open>What holds on return: nothing is due any more.\<close>

definition none_due :: "'k posix_os \<Rightarrow> int \<Rightarrow> 'k poll_warden \<Rightarrow> bool" where
  "none_due os t w \<longleftrightarrow>
     timeouts w = [] \<and> t = -1 \<or>
     (\<exists>s rest now k0. timeouts w = s # rest \<and> os_now os k0 = (now, kern w) \<and>
        fst s - now \<ge> 1000000 \<and> t = poll_timeout (fst s - now))"

lemma clear_timeouts_none_due:
  assumes "clear_timeouts os user w = Some (t, w')"
  shows "none_due os t w'"
proof -
  have "(\<lambda>(t, w'). none_due os t w') (t, w')"
  proof (rule clear_timeouts.raw_induct
      [where P = "\<lambda>os user w r. (\<lambda>(t, w'). none_due os t w') r", OF _ assms])
    fix f os and user :: "'a user" and w r
    assume IH: "\<And>os (user :: 'a user) w r. f os user w = Some r \<Longrightarrow> (\<lambda>(t, w'). none_due os t w') r"
      and eq: "(case timeouts w of [] \<Rightarrow> Some (-1, w)
        | s # rest \<Rightarrow>
            let (now, k) = os_now os (kern w); tdiff = fst s - now; w1 = w\<lparr>kern := k\<rparr>
            in if tdiff < 1000000
               then f os user (fire_timeout os user (snd s) (w1\<lparr>timeouts := rest\<rparr>))
               else Some (poll_timeout tdiff, w1)) = Some r"
    obtain now k where now: "os_now os (kern w) = (now, k)" by (cases "os_now os (kern w)")
    show "(\<lambda>(t, w'). none_due os t w') r"
    proof (cases "timeouts w")
      case Nil
      with eq show ?thesis by (auto simp: none_due_def)
    next
      case (Cons s rest)
      show ?thesis
      proof (cases "fst s - now < 1000000")
        case True
        with eq now Cons show ?thesis by (intro IH) (simp add: Let_def)
      next
        case False
        with eq now Cons have r: "r = (poll_timeout (fst s - now), w\<lparr>kern := k\<rparr>)"
          by (simp add: Let_def)
        have "none_due os (poll_timeout (fst s - now)) (w\<lparr>kern := k\<rparr>)"
          unfolding none_due_def using Cons now False
          by (intro disjI2 exI [of _ s] exI [of _ rest] exI [of _ now] exI [of _ "kern w"]) simp
        with r show ?thesis by simp
      qed
    qed
  qed
  then show ?thesis by simp
qed

text \<open>
  It returns when the coroutines it resumes set no new time outs: each round then takes one
  away.
\<close>

lemma clear_timeouts_returns:
  assumes "\<And>h w. length (timeouts (resume os user h w)) \<le> length (timeouts w)"
  shows "\<exists>r. clear_timeouts os user w = Some r"
proof (induction "length (timeouts w)" arbitrary: w rule: less_induct)
  case less
  show ?case
  proof (cases "timeouts w")
    case Nil
    then show ?thesis by (simp add: clear_timeouts_unfold [of os user w])
  next
    case (Cons s rest)
    let ?k = "snd (os_now os (kern w))"
    let ?w = "fire_timeout os user (snd s) (w\<lparr>kern := ?k, timeouts := rest\<rparr>)"
    obtain h w1 where hw: "iop_timedout (snd s) (w\<lparr>kern := ?k, timeouts := rest\<rparr>) = (h, w1)"
      by (cases "iop_timedout (snd s) (w\<lparr>kern := ?k, timeouts := rest\<rparr>)")
    then have "timeouts w1 = rest"
      using iop_timedout_timeouts [of "snd s" "w\<lparr>kern := ?k, timeouts := rest\<rparr>"] by simp
    then have "length (timeouts ?w) < length (timeouts w)"
      using assms [of h w1] hw Cons by (simp add: fire_timeout_def)
    from less [OF this] show ?thesis
      using Cons by (simp add: clear_timeouts_unfold [of os user w])
  qed
qed

subsection \<open>An application that starves the loop\<close>

text \<open>
  A coroutine that sleeps over and over for less than a millisecond: each wake-up ends the
  IOP that woke it and awaits a new one.
\<close>

definition sleeper :: "ns \<Rightarrow> 'k user" where
  "sleeper t h w =
     (if next_cid w = 0 then [NewIop (Sleep t) None, Await 0 h]
      else [DestroyIop (next_cid w - 1), NewIop (Sleep t) None, Await (next_cid w) h])"

definition monotone_clock :: "'k posix_os \<Rightarrow> bool" where
  "monotone_clock os \<longleftrightarrow> (\<forall>k. fst (os_now os k) \<le> fst (os_now os (snd (os_now os k))))"

text \<open>The one time out there is belongs to that coroutine, and is due already.\<close>

definition starving :: "'k posix_os \<Rightarrow> 'k poll_warden \<Rightarrow> bool" where
  "starving os w \<longleftrightarrow>
     (\<exists>d c x t h. timeouts w = [(d, c)] \<and> next_cid w = Suc c \<and> heap w c = Some x \<and>
        kind x = Sleep t \<and> deadline x = Some d \<and> handle x = Coro h \<and>
        d - fst (os_now os (kern w)) < 1000000)"

lemma sleep_round:
  assumes "monotone_clock os" "t < 1000000" "starving os w" "timeouts w = s # rest"
  shows "starving os (fire_timeout os (sleeper t) (snd s)
    (w\<lparr>kern := snd (os_now os (kern w)), timeouts := rest\<rparr>))"
proof -
  obtain d c x u h where w: "timeouts w = [(d, c)]" "next_cid w = Suc c" "heap w c = Some x"
      "kind x = Sleep u" "deadline x = Some d" "handle x = Coro h"
    using assms(3) by (auto simp: starving_def)
  let ?k = "snd (os_now os (kern w))"
  obtain now k where now: "os_now os ?k = (now, k)" by (cases "os_now os ?k")
  have "now \<le> fst (os_now os k)"
    using assms(1) now unfolding monotone_clock_def by (metis fst_conv snd_conv)
  then have "now + t - fst (os_now os k) < 1000000" using assms(2) by linarith
  moreover have "snd s = c" "rest = []" using assms(4) w by auto
  ultimately show ?thesis
    using w now
    by (simp add: fire_timeout_def iop_timedout_def sleeper_def iop_destroy_def
        cancel_timeout_def do_sleep_def deadline_from_def new_completion_def store_def
        await_suspend_def completion_await_suspend_def insert_timeout_def
        try_or_resume_obj_def starving_def Let_def)
qed

lemma starving_never_returns:
  fixes os :: "'k posix_os"
  assumes "monotone_clock os" "t < 1000000" "starving os w"
  shows "clear_timeouts os (sleeper t) w = None"
proof (rule ccontr)
  assume "clear_timeouts os (sleeper t) w \<noteq> None"
  then obtain r where ret: "clear_timeouts os (sleeper t) w = Some r" by auto
  have "\<not> (monotone_clock os \<and> sleeper t = (sleeper t :: 'k user) \<and> starving os w)"
  proof (rule clear_timeouts.raw_induct
      [where P = "\<lambda>os user w r. \<not> (monotone_clock os \<and> user = sleeper t \<and> starving os w)",
        OF _ ret])
    fix f os and user :: "'k user" and w r
    assume IH: "\<And>os (user :: 'k user) w r. f os user w = Some r \<Longrightarrow>
        \<not> (monotone_clock os \<and> user = sleeper t \<and> starving os w)"
      and eq: "(case timeouts w of [] \<Rightarrow> Some (-1, w)
        | s # rest \<Rightarrow>
            let (now, k) = os_now os (kern w); tdiff = fst s - now; w1 = w\<lparr>kern := k\<rparr>
            in if tdiff < 1000000
               then f os user (fire_timeout os user (snd s) (w1\<lparr>timeouts := rest\<rparr>))
               else Some (poll_timeout tdiff, w1)) = Some r"
    show "\<not> (monotone_clock os \<and> user = sleeper t \<and> starving os w)"
    proof
      assume st: "monotone_clock os \<and> user = sleeper t \<and> starving os w"
      then obtain s where s: "timeouts w = [s]"
          "fst s - fst (os_now os (kern w)) < 1000000"
        by (auto simp: starving_def)
      obtain now k where now: "os_now os (kern w) = (now, k)" by (cases "os_now os (kern w)")
      have "f os user (fire_timeout os user (snd s) (w\<lparr>kern := k, timeouts := []\<rparr>)) = Some r"
        using eq s now by (simp add: Let_def)
      with IH sleep_round [of os t w s "[]"] st assms(2) s now show False by fastforce
    qed
  qed
  with assms show False by simp
qed

end
