(* ===== verification/Kernels.thy ===== *)
theory Kernels
  imports PollLoop
begin

text \<open>
  A concrete system interface to evaluate the model on: every call would block, nothing is
  ever ready and the clock stands still. Variants replace single calls. Also the coroutines
  used as examples, with the proofs that they keep the rules of the application contract.
\<close>

definition quiet_os :: "'k posix_os" where
  "quiet_os = \<lparr>
     os_errno = (\<lambda>k. EAGAIN),
     os_now = (\<lambda>k. (0, k)),
     os_close = (\<lambda>f k. (0, k)),
     os_read = (\<lambda>f n k. (None, k)),
     os_write = (\<lambda>f bs k. (Some (length bs), k)),
     os_accept4 = (\<lambda>f k. (-1, k)),
     os_connect = (\<lambda>f a k. (-1, k)),
     os_so_error = (\<lambda>f k. (0, 0, k)),
     os_poll = (\<lambda>ps t k. (0, \<lambda>i. 0, k)),
     os_ignore_sigpipe = (\<lambda>k. k),
     os_pipe2 = (\<lambda>k. (Some (3, 4), k)),
     os_socket = (\<lambda>d t p k. (5, k)),
     os_getfl = (\<lambda>f k. (0, k)),
     os_setfl = (\<lambda>f fl k. (0, k)),
     os_listen = (\<lambda>f b k. (0, k)),
     os_bind = (\<lambda>f a k. (0, k)),
     os_reuse_port = (\<lambda>f v k. (0, k)),
     os_getrlimit = (\<lambda>k. (0, 1024, 4096, k)),
     os_setrlimit = (\<lambda>c m k. (0, k)),
     os_getaddrinfo = (\<lambda>h k. (0, [], k))\<rparr>"

definition start_warden :: "'k \<Rightarrow> 'k poll_warden" where
  "start_warden k =
     \<lparr>requests = [], timeouts = [], wakeup_read = 3, wakeup_write = 4,
      resumer = no_requests, iops = [], continuations = [], to_visit = [],
      heap = (\<lambda>_. None), next_cid = 0, finished = [], dangling = False, kern = k\<rparr>"

lemma quiet_start: "new_poll_warden quiet_os k = Inr (start_warden k)"
  by (simp add: new_poll_warden_def create_pipe_def quiet_os_def start_warden_def)

lemma start_loop_inv: "loop_inv quiet_os (start_warden k)"
  by (rule new_poll_warden_inv [OF quiet_start])

lemma start_inv [simp]: "inv quiet_os (start_warden k)"
  using start_loop_inv [of k] by (simp add: loop_inv_def)

definition some_addr :: sockaddr where
  "some_addr = \<lparr>sa_family = AF_INET, sa_port = 0, sa_addr = [127, 0, 0, 1]\<rparr>"

subsection \<open>Example coroutines\<close>

text \<open>Start one IOP and wait for it, then finish.\<close>

definition one_iop :: "iop_kind \<Rightarrow> ns option \<Rightarrow> 'k user" where
  "one_iop k dl h w =
     (if next_cid w = 0 then [NewIop k dl, Await 0 h] else [Finish h])"

lemma new_iop_fresh:
  "\<exists>x. heap (snd (new_iop os k dl w)) (next_cid w) = Some x \<and>
       in_queue (snd (new_iop os k dl w)) = in_queue w \<and>
       timed (snd (new_iop os k dl w)) = timed w"
  by (cases k) (auto simp: do_close_def do_sleep_def do_read_some_def do_write_some_def
      do_accept_def do_connect_def do_read_ready_def do_write_ready_def new_completion_def
      store_def in_queue_def req_at_def timed_def Let_def fun_eq_iff split: prod.splits)

lemma inv_fresh_idle:
  assumes "inv os w"
  shows "\<not> in_queue w (next_cid w)" "\<not> timed w (next_cid w)" "next_cid w \<notin> set (to_visit w)"
proof -
  have "heap w (next_cid w) = None"
  proof (rule ccontr)
    assume "heap w (next_cid w) \<noteq> None"
    then obtain x where "heap w (next_cid w) = Some x" by auto
    with assms show False by (auto simp: inv_def pinv_def heap_ok_def)
  qed
  then show "\<not> in_queue w (next_cid w)" "\<not> timed w (next_cid w)" "next_cid w \<notin> set (to_visit w)"
    using assms pinv_in_queue_live pinv_timed_live
    by (fastforce simp: inv_def pinv_def visits_ok_def)+
qed

lemma one_iop_well_behaved:
  assumes "(\<exists>f a. k = Connect f a) \<and> dl \<noteq> None \<longrightarrow> connect_clean os"
  shows "well_behaved os (one_iop k dl)"
proof -
  have "lawful_acts (exec os) (lawful os) [NewIop k dl, Await 0 h] w"
    if "inv os w" "next_cid w = 0" for h w
    using assms inv_fresh_idle [OF that(1)] new_iop_fresh [of os k dl w] that(2) by auto
  then show ?thesis by (auto simp: well_behaved_def one_iop_def)
qed

text \<open>Do nothing but record, in the kernel state, which coroutine was resumed.\<close>

definition logger :: "nat list user" where
  "logger h w = [Kernel (\<lambda>log. log @ [h])]"

text \<open>The same, and queue oneself again.\<close>

definition requeuer :: "nat list user" where
  "requeuer h w = [Kernel (\<lambda>log. log @ [h]), AsyncResume [Coro h]]"

end
