(* ===== verification/PollBehaviour.thy ===== *)
theory PollBehaviour
  imports PollTimeouts Kernels
begin

text \<open>
  What the single operations of the poll warden do, on every branch: no awaited IOP is lost,
  what a time out and an error become for the coroutine, and the behaviours of the code that
  its comments do not promise (a follow-up of \<open>connect\<close> decided by a stale \<open>errno\<close>).
\<close>

subsection \<open>No awaited IOP is lost\<close>

definition waits :: "'k poll_warden \<Rightarrow> cid \<Rightarrow> bool" where
  "waits w c \<longleftrightarrow> in_queue w c \<or> timed w c"

lemma in_queue_push [simp]:
  "in_queue (push_read f c w) c" "in_queue (push_write f c w) c"
  by (auto simp: in_queue_def push_read_def push_write_def)

lemma cancel_timeout_then_resume_handle [simp]:
  "fst (cancel_timeout_then_resume c x w) = handle x"
  by (simp add: cancel_timeout_then_resume_def)

lemma try_parks:
  assumes "fst (try_or_resume_obj os c x w) = NoopCoro" "is_coro (handle x)"
    and "\<And>t. kind x \<noteq> Sleep t"
  shows "in_queue (snd (try_or_resume_obj os c x w)) c"
  using assms
  by (cases "kind x")
    (auto simp: try_or_resume_obj_def close_try_or_resume_def read_some_try_or_resume_def
      write_some_try_or_resume_def accept_try_or_resume_def connect_try_or_resume_def
      fail_def succeed_def Let_def split: prod.splits if_splits)

lemma timed_insert: "deadline x \<noteq> None \<Longrightarrow> timed (insert_timeout c x w) c"
  by (auto simp: timed_def insert_timeout_def)

lemma await_parks:
  assumes "heap w c = Some x" "fst (await_suspend os c (Coro h) w) = NoopCoro"
    and "\<And>t. kind x = Sleep t \<Longrightarrow> deadline x \<noteq> None"
  shows "waits (snd (await_suspend os c (Coro h) w)) c"
proof (cases "kind x")
  case (Sleep t)
  with assms(1) assms(3) [OF Sleep] show ?thesis
    by (simp add: await_suspend_def completion_await_suspend_def try_or_resume_obj_def waits_def
        timed_insert Let_def)
qed (use assms try_parks [of os c "x\<lparr>handle := Coro h\<rparr>"
      "insert_timeout c (x\<lparr>handle := Coro h\<rparr>) (store c (x\<lparr>handle := Coro h\<rparr>) w)"]
      in \<open>auto simp: await_suspend_def connect_await_suspend_def read_ready_await_suspend_def
        write_ready_await_suspend_def completion_await_suspend_def waits_def fail_def Let_def
        split: prod.splits if_splits\<close>)

text \<open>C4: An awaited IOP is never lost: \<open>await_suspend\<close> either hands control back to the
  awaiting coroutine with the completion in none of the warden's containers, or leaves the
  completion in a request queue or among the time outs, from where the loop resumes it.\<close>

theorem await_never_lost:
  assumes "inv os w" "heap w c = Some x" "\<not> in_queue w c" "\<not> timed w c" "c \<notin> set (to_visit w)"
    and "\<And>t. kind x = Sleep t \<Longrightarrow> deadline x \<noteq> None"
    and "await_suspend os c (Coro h) w = (h', w')"
  shows "h' = Coro h \<and> \<not> waits w' c \<or> h' = NoopCoro \<and> waits w' c"
  using await_suspend_ok [of os "to_visit w" w c x h] await_parks [of w c x os h] assms
  by (auto simp: inv_def settled_or_waiting_def waits_def)

definition idle_reader :: "nat poll_warden" where
  "idle_reader = (start_warden 0)\<lparr>
     heap := [0 \<mapsto> \<lparr>kind = ReadSome 7 16, deadline = Some 5, handle = NullCoro,
                    comp_result = no_outcome, filled = []\<rparr>],
     next_cid := 1\<rparr>"

theorem await_never_lost_witness:
  "waits (snd (await_suspend quiet_os 0 (Coro 1) idle_reader)) 0"
proof -
  let ?r = "await_suspend quiet_os 0 (Coro 1) idle_reader"
  have "inv quiet_os idle_reader"
    by (auto simp: inv_def pinv_defs idle_reader_def start_warden_def req_at_def no_request_def
        in_queue_def connect_ok_def)
  moreover have "fst ?r = NoopCoro"
    by (simp add: idle_reader_def await_suspend_def completion_await_suspend_def
        try_or_resume_obj_def read_some_try_or_resume_def sys_read_def quiet_os_def
        get_error_def would_block_def insert_timeout_def store_def start_warden_def Let_def)
  ultimately show ?thesis
    using await_never_lost [of quiet_os idle_reader 0 _ 1 "fst ?r" "snd ?r"]
    by (simp add: idle_reader_def in_queue_def req_at_def no_request_def timed_def
        start_warden_def)
qed


definition parked_reader :: "nat poll_warden" where
  "parked_reader = (start_warden 0)\<lparr>
     heap := [0 \<mapsto> \<lparr>kind = ReadSome 7 16, deadline = Some 5, handle = Coro 1,
                    comp_result = no_outcome, filled = []\<rparr>],
     next_cid := 1, timeouts := [(5, 0)]\<rparr>"


subsection \<open>What a coroutine gets\<close>

lemma value_succeed [simp]: "\<not> is_void (kind x) \<Longrightarrow> iop_value (succeed r x) = Inr (Some r)"
  by (simp add: iop_value_def succeed_def)

lemma value_fail:
  "e \<noteq> 0 \<Longrightarrow>
   iop_value (fail e m x) = Inl (if e = ETIME then Timeout m else SystemError e m)"
  by (simp add: iop_value_def fail_def outcome_defs)

lemma value_fail_zero: "is_void (kind x) \<Longrightarrow> iop_value (fail 0 m x) = Inr None"
  by (simp add: iop_value_def fail_def outcome_defs)

text \<open>C21: A time out resumes the awaiting coroutine with the \<open>timeout\<close> exception and takes the
  completion out of its queue; a sleep that comes due returns normally instead.\<close>

theorem timeout_outcome:
  assumes "inv os w" "timeouts w = s # rest" "heap w (snd s) = Some x"
    and "iop_timedout (snd s) (w\<lparr>timeouts := rest\<rparr>) = (h, w')"
  shows "h = handle x \<and> \<not> waits w' (snd s) \<and>
    (\<exists>y. heap w' (snd s) = Some y \<and>
       ((\<forall>t. kind x \<noteq> Sleep t) \<longrightarrow> iop_value y = Inl (Timeout ''IOP timed out'')) \<and>
       ((\<exists>t. kind x = Sleep t) \<longrightarrow> y = x))"
proof -
  let ?w = "w\<lparr>timeouts := rest\<rparr>"
  have pw: "pinv os [] ?w" "\<not> timed ?w (snd s)"
    using assms(1,2) by (auto simp: inv_def pinv_defs in_queue_def timed_def)
  have "settled_or_waiting os [] (snd s) x (h, w')" "h = handle x"
    using iop_timedout_ok [OF pw(1) _ pw(2), of x] assms(3,4) by auto
  moreover have "is_coro (handle x)"
    using assms(1-3) by (fastforce simp: inv_def pinv_def timeouts_ok_def)
  ultimately have "h = handle x" "\<not> waits w' (snd s)"
    by (auto simp: settled_or_waiting_def waits_def)
  moreover have "(\<forall>t. kind x \<noteq> Sleep t) \<longrightarrow>
      heap w' (snd s) = Some (fail ETIME ''IOP timed out'' x)"
    "(\<exists>t. kind x = Sleep t) \<longrightarrow> heap w' (snd s) = Some x"
    using assms(3,4) by (auto simp: iop_timedout_def split: iop_kind.splits)
  ultimately show ?thesis
    by (cases "\<exists>t. kind x = Sleep t") (auto simp: value_fail)
qed

theorem timeout_outcome_witness:
  "iop_value (the (heap (snd (iop_timedout 0 (parked_reader\<lparr>timeouts := []\<rparr>))) 0)) =
   Inl (Timeout ''IOP timed out'')"
proof -
  have "inv quiet_os parked_reader"
    by (auto simp: inv_def pinv_defs parked_reader_def start_warden_def req_at_def
        no_request_def in_queue_def connect_ok_def)
  from timeout_outcome [OF this, of "(5, 0)" "[]" _ "fst (iop_timedout 0 (parked_reader\<lparr>timeouts := []\<rparr>))"
      "snd (iop_timedout 0 (parked_reader\<lparr>timeouts := []\<rparr>))"]
  show ?thesis by (auto simp: parked_reader_def)
qed


definition read_os :: "'k posix_os" where
  "read_os = quiet_os\<lparr>os_read := (\<lambda>f n k. (Some [1, 2, 3], k))\<rparr>"


text \<open>C23: \<open>write_some\<close> reports how many bytes the kernel took, never more than it was given;
  errors and blocking are as for reads, in the writer queue.\<close>

theorem write_some_outcome:
  assumes "kind x = WriteSome f bs" "sys_write os f bs (kern w) = (r, k)" "os_errno os k \<noteq> 0"
    and "try_or_resume_obj os c x w = (h, w')"
  shows "if r \<ge> 0 then
           h = handle x \<and> nat r \<le> length bs \<and>
           (\<exists>y. heap w' c = Some y \<and> iop_value y = Inr (Some (RSize (nat r))))
         else if would_block (os_errno os k) then
           h = NoopCoro \<and> writes (req_at w' f) = writes (req_at w f) @ [c]
         else
           h = handle x \<and>
           (\<exists>y. heap w' c = Some y \<and>
                iop_value y = Inl (if os_errno os k = ETIME then Timeout ''write''
                                   else SystemError (os_errno os k) ''write''))"
proof (cases "r \<ge> 0")
  case True
  with assms sys_write_bound [OF assms(2)] show ?thesis
    by (auto simp: try_or_resume_obj_def write_some_try_or_resume_def Let_def
        cancel_timeout_then_resume_def)
next
  case False
  with assms show ?thesis
    by (auto simp: try_or_resume_obj_def write_some_try_or_resume_def Let_def get_error_def
        cancel_timeout_then_resume_def value_fail push_write_def)
qed

definition full_os :: "'k posix_os" where
  "full_os = quiet_os\<lparr>os_write := (\<lambda>f bs k. (None, k))\<rparr>"

theorem write_some_outcome_witness:
  "writes (req_at (snd (try_or_resume_obj full_os 0
     \<lparr>kind = WriteSome 7 [1], deadline = None, handle = Coro 1, comp_result = no_outcome,
      filled = []\<rparr> (start_warden (0::nat)))) 7) = [0]"
proof -
  let ?x = "\<lparr>kind = WriteSome 7 [1], deadline = None, handle = Coro 1,
    comp_result = no_outcome, filled = []\<rparr>"
  let ?w = "start_warden (0::nat)"
  let ?r = "try_or_resume_obj full_os 0 ?x ?w"
  have "sys_write full_os 7 [1] (kern ?w) = (-1, kern ?w)" "os_errno full_os (kern ?w) = EAGAIN"
    by (simp_all add: sys_write_def full_os_def quiet_os_def)
  then have "writes (req_at (snd ?r) 7) = writes (req_at ?w 7) @ [0]"
    using write_some_outcome [of ?x 7 "[1]" full_os ?w "-1" "kern ?w" 0 "fst ?r" "snd ?r"]
    by (simp add: would_block_def)
  then show ?thesis by (simp add: start_warden_def req_at_def no_request_def)
qed

subsection \<open>The follow-up of \<open>connect\<close>\<close>

text \<open>C40: The follow-up of a non-blocking connect asks \<open>errno\<close>, which a successful
  \<open>getsockopt\<close> leaves alone, and not the error value it was given: a connection that failed
  with error \<open>e\<close> is reported as a success when \<open>errno\<close> is zero, and put back to wait for the
  same socket when \<open>errno\<close> still is \<open>EINPROGRESS\<close>.\<close>

theorem connect_follow_up_asks_errno:
  assumes "kind x = Connect f a" "os_so_error os f (kern w) = (0, e, k)" "e \<noteq> 0"
    and "try_or_resume_obj os c x w = (h, w')"
  shows "(os_errno os k = 0 \<longrightarrow>
           h = handle x \<and> (\<exists>y. heap w' c = Some y \<and> iop_value y = Inr None)) \<and>
         (os_errno os k = EINPROGRESS \<longrightarrow>
           h = NoopCoro \<and> writes (req_at w' f) = writes (req_at w f) @ [c])"
  using assms
  by (auto simp: try_or_resume_obj_def connect_try_or_resume_def Let_def get_error_def
      cancel_timeout_then_resume_def push_write_def insert_timeout_def value_fail_zero
      split: option.splits)

definition refused_os :: "int \<Rightarrow> 'k posix_os" where
  "refused_os err = quiet_os\<lparr>os_so_error := (\<lambda>f k. (0, ECONNREFUSED, k)), os_errno := (\<lambda>k. err)\<rparr>"

definition connecting :: "nat poll_warden" where
  "connecting = (start_warden 0)\<lparr>
     heap := [0 \<mapsto> \<lparr>kind = Connect 7 some_addr, deadline = Some 5, handle = Coro 1,
                    comp_result = no_outcome, filled = []\<rparr>],
     next_cid := 1, timeouts := [(5, 0)]\<rparr>"

theorem connect_follow_up_witness:
  "iop_value (the (heap (snd (try_or_resume (refused_os 0) 0 connecting)) 0)) = Inr None"
proof -
  let ?x = "the (heap connecting 0)"
  let ?r = "try_or_resume_obj (refused_os 0) 0 ?x connecting"
  have "\<exists>y. heap (snd ?r) 0 = Some y \<and> iop_value y = Inr None"
    using connect_follow_up_asks_errno [of ?x 7 some_addr "refused_os 0" connecting ECONNREFUSED
        "kern connecting" 0 "fst ?r" "snd ?r"]
    by (simp add: connecting_def refused_os_def)
  then show ?thesis by (auto simp: try_or_resume_def connecting_def)
qed

lemma filter_mm_insert:
  "length (filter P (mm_insert k v m)) = length (filter P m) + (if P (k, v) then 1 else 0)"
  by (induction k v m rule: mm_insert.induct) auto

text \<open>In the second case a connect with a deadline has its time out entered twice, so
  that ending the IOP leaves an entry behind that points to the deleted completion.\<close>

theorem connect_retry_leaves_dangling_timeout:
  assumes "heap w c = Some x" "kind x = Connect f a" "deadline x = Some d"
    and "(d, c) \<in> set (timeouts w)"
    and "os_so_error os f (kern w) = (0, e, k)" "e \<noteq> 0" "os_errno os k = EINPROGRESS"
  shows "let w' = iop_destroy c (snd (try_or_resume os c w))
         in heap w' c = None \<and> (\<exists>s\<in>set (timeouts w'). snd s = c)"
proof -
  let ?w1 = "insert_timeout c x (push_write f c (w\<lparr>kern := k\<rparr>))"
  let ?P = "\<lambda>s. snd s = c"
  have r: "try_or_resume os c w = (NoopCoro, ?w1)"
    using assms by (simp add: try_or_resume_def try_or_resume_obj_def connect_try_or_resume_def
        Let_def)
  have t: "timeouts (iop_destroy c ?w1) = erase_if_first ?P (mm_insert d c (timeouts w))"
    using assms by (simp add: iop_destroy_def cancel_timeout_def insert_timeout_def
        push_write_def erase_write_def Let_def)
  have "(d, c) \<in> set (filter ?P (timeouts w))" using assms(4) by simp
  then have "0 < length (filter ?P (timeouts w))" by (metis length_pos_if_in_set)
  then have "0 < length (filter ?P (timeouts (iop_destroy c ?w1)))"
    by (simp add: t erase_one filter_mm_insert)
  then have "\<exists>s\<in>set (timeouts (iop_destroy c ?w1)). snd s = c"
    by (auto simp: filter_empty_conv)
  moreover have "heap (iop_destroy c ?w1) c = None"
    using assms(1) by (simp add: iop_destroy_def Let_def)
  ultimately show ?thesis by (simp add: r)
qed

theorem connect_retry_witness:
  "\<exists>s\<in>set (timeouts (iop_destroy 0 (snd (try_or_resume (refused_os EINPROGRESS) 0 connecting)))).
     snd s = 0"
  using connect_retry_leaves_dangling_timeout [of connecting 0 _ 7 some_addr 5
      "refused_os EINPROGRESS" ECONNREFUSED "kern connecting"]
  by (simp add: connecting_def refused_os_def Let_def)

end
