(* ===== verification/PollHazards.thy ===== *)
theory PollHazards
  imports PollBehaviour
begin

text \<open>
  Loop-level behaviour of the poll warden: the numbers handed to \<open>poll\<close>, when
  \<open>clear_timeouts\<close> comes back, interrupted polls, and the hazards of the design: an IOP
  destroyed by another coroutine of the same batch, a descriptor that stays in the poll set
  for ever, and short sleeps that keep the loop from polling.
\<close>

subsection \<open>The argument of \<open>poll\<close>\<close>

lemma milliseconds_ge:
  assumes "n * 1000000 \<le> t"
  shows "n \<le> milliseconds t"
proof -
  have "n * 1000000 < (milliseconds t + 1) * 1000000"
    using assms milliseconds_bounds [of t] by (blast intro: order.strict_trans1)
  then have "n < milliseconds t + 1"
    by (rule mult_right_less_imp_less) simp
  then show ?thesis by simp
qed

lemma milliseconds_less:
  assumes "t < n * 1000000"
  shows "milliseconds t < n"
proof -
  have "milliseconds t * 1000000 < n * 1000000"
    using assms milliseconds_bounds [of t] by (blast intro: order.strict_trans1)
  then show ?thesis by (rule mult_right_less_imp_less) simp
qed

text \<open>C36: The time handed to \<open>poll\<close> is the time left, rounded down to whole milliseconds, as
  long as it fits an \<open>int\<close>: the loop never sleeps past a deadline.\<close>

theorem poll_timeout_exact:
  assumes "1000000 \<le> t" "t < 2147483648 * 1000000"
  shows "1 \<le> poll_timeout t \<and> poll_timeout t * 1000000 \<le> t \<and> t < (poll_timeout t + 1) * 1000000"
proof -
  have m: "milliseconds t * 1000000 \<le> t" "t < (milliseconds t + 1) * 1000000"
    using milliseconds_bounds [of t] by auto
  have "1 \<le> milliseconds t" "milliseconds t < 2147483648"
    using assms milliseconds_ge [of 1 t] milliseconds_less [of t 2147483648] by auto
  then have "poll_timeout t = milliseconds t"
    by (simp add: poll_timeout_def sint_word32_small)
  with m \<open>1 \<le> milliseconds t\<close> show ?thesis by simp
qed

theorem poll_timeout_exact_witness: "poll_timeout 2500000 = 2"
  using poll_timeout_exact [of 2500000] by simp

text \<open>A time out 2^31 milliseconds (some 25 days) away overflows that \<open>int\<close>: \<open>poll\<close> is
  given a negative number, which means to wait without limit.\<close>

theorem poll_timeout_wraps:
  assumes "2147483648 * 1000000 \<le> t" "t < 4294967296 * 1000000"
  shows "poll_timeout t < 0"
proof -
  have "2147483648 \<le> milliseconds t" "milliseconds t < 4294967296"
    using assms milliseconds_ge milliseconds_less by blast+
  then show ?thesis
    by (simp add: poll_timeout_def sint_word32_wrapped)
qed

theorem poll_timeout_wraps_witness: "poll_timeout (2592000 * 1000000000) < 0"
  using poll_timeout_wraps [of "2592000 * 1000000000"] by simp

subsection \<open>\<open>clear_timeouts\<close>\<close>

text \<open>When \<open>clear_timeouts\<close> returns nothing is due any more: there are no time outs and
  the answer is \<open>-1\<close>, or the earliest one is at least a millisecond away and the answer is
  the time left until it.\<close>

theorem clear_timeouts_post:
  assumes "clear_timeouts os user w = Some (t, w')"
  shows "timeouts w' = [] \<and> t = -1 \<or>
    (\<exists>s rest now k. timeouts w' = s # rest \<and> os_now os k = (now, kern w') \<and>
       fst s - now \<ge> 1000000 \<and> t = poll_timeout (fst s - now))"
  using clear_timeouts_none_due [OF assms] by (simp add: none_due_def)

theorem clear_timeouts_post_witness:
  "clear_timeouts quiet_os logger ((start_warden [])\<lparr>timeouts := [(3000000, 0)]\<rparr>) =
     Some (3, (start_warden [])\<lparr>timeouts := [(3000000, 0)]\<rparr>)"
proof -
  let ?w = "(start_warden [])\<lparr>timeouts := [(3000000, 0)]\<rparr>"
  have pt: "poll_timeout 3000000 = 3"
    by (simp add: poll_timeout_def milliseconds_def)
  have "clear_timeouts quiet_os logger ?w = Some (poll_timeout 3000000, ?w)"
    by (simp add: clear_timeouts_unfold quiet_os_def start_warden_def)
  from clear_timeouts_post [OF this] this pt show ?thesis by simp
qed

text \<open>C35: \<open>clear_timeouts\<close> returns whenever the coroutines it resumes set no new time outs.\<close>

theorem clear_timeouts_terminates:
  assumes "\<And>h w. length (timeouts (resume os user h w)) \<le> length (timeouts w)"
  shows "clear_timeouts os user w \<noteq> None"
  using clear_timeouts_returns [of os user w, OF assms] by auto

theorem clear_timeouts_terminates_witness:
  "clear_timeouts quiet_os logger ((start_warden [])\<lparr>timeouts := [(0, 0), (0, 1)]\<rparr>) \<noteq> None"
proof (rule clear_timeouts_terminates)
  fix h and w :: "nat list poll_warden"
  show "length (timeouts (resume quiet_os logger h w)) \<le> length (timeouts w)"
    by (cases h) (simp_all add: logger_def)
qed

text \<open>A coroutine that sleeps again and again for less than a millisecond keeps the loop
  inside \<open>clear_timeouts\<close> for ever: \<open>run_until\<close> never returns, for whatever coroutine it
  waits, and no file descriptor is ever polled.\<close>

theorem short_sleeps_starve:
  assumes "monotone_clock os" "t < 1000000" "new_poll_warden os k = Inr w"
  shows "run_until os (sleeper t) h w = None"
proof -
  have w: "timeouts w = []" "next_cid w = 0" "finished w = []"
    using assms(3) by (auto simp: new_poll_warden_def split: prod.splits sum.splits)
  obtain now k1 where now: "os_now os (kern w) = (now, k1)" by (cases "os_now os (kern w)")
  have "now \<le> fst (os_now os k1)"
    using assms(1) now unfolding monotone_clock_def by (metis fst_conv snd_conv)
  then have "starving os (resume os (sleeper t) (Coro h) w)"
    using w now assms(2)
    by (simp add: sleeper_def do_sleep_def deadline_from_def new_completion_def store_def
        await_suspend_def completion_await_suspend_def insert_timeout_def try_or_resume_obj_def
        starving_def Let_def)
  from starving_never_returns [OF assms(1,2) this] show ?thesis
    unfolding run_until_def by (subst run_loop.simps) simp
qed

theorem short_sleeps_starve_witness:
  "run_until quiet_os (sleeper 500000) 1 (start_warden (0::nat)) = None"
  by (rule short_sleeps_starve [OF _ _ quiet_start]) (simp_all add: monotone_clock_def quiet_os_def)

subsection \<open>Interrupted and failing polls\<close>

text \<open>A poll interrupted by a signal changes nothing the coroutines can see: it counts as a
  pass without events; any other failure of \<open>poll\<close> is thrown.\<close>

theorem poll_failure:
  assumes "os_poll os (poll_set w) t (kern w) = (r, rv, k)" "r < 0"
    and "do_poll os user t w = Some (res, w')"
  shows "(if os_errno os k = EINTR then res = Inr ()
          else res = Inl (SystemError (os_errno os k) ''poll'')) \<and>
    requests w' = requests w \<and> timeouts w' = timeouts w \<and> heap w' = heap w \<and>
    resumer w' = resumer w \<and> finished w' = finished w \<and> kern w' = k"
  using assms by (auto simp: do_poll_def get_error_def Let_def split: if_splits)

theorem poll_failure_witness:
  "let os = quiet_os\<lparr>os_poll := (\<lambda>ps t k. (-1, \<lambda>i. 0, k)), os_errno := (\<lambda>k. EINTR)\<rparr>
   in \<exists>w'. do_poll os logger 5 (start_warden []) = Some (Inr (), w') \<and> requests w' = []"
proof -
  let ?os = "quiet_os\<lparr>os_poll := (\<lambda>ps t k. (-1, \<lambda>i. 0, k)), os_errno := (\<lambda>k. EINTR)\<rparr>"
  obtain res w' where r: "do_poll ?os logger 5 (start_warden []) = Some (res, w')"
    by (simp add: do_poll_def get_error_def Let_def)
  from poll_failure [OF _ _ r, of "-1" "\<lambda>i. 0" "[]"] r show ?thesis
    by (simp add: start_warden_def Let_def)
qed

subsection \<open>IOPs of the same batch\<close>

lemma dispatch_dangling: "dangling w \<Longrightarrow> heap w c = None \<Longrightarrow> dangling (dispatch os user [c] w)"
  by (simp add: try_or_resume_def)

text \<open>C39: A coroutine resumed by a batch must not end the IOP of another completion of the same
  batch: the loop still holds the pointer to it, and follows it.\<close>

theorem sibling_destroy_dangles:
  assumes "try_or_resume os a (w\<lparr>to_visit := [b]\<rparr>) = (Coro h, w1)"
    and "user h w1 = [DestroyIop b]"
  shows "dangling (dispatch os user [a, b] w)"
proof -
  have "heap (iop_destroy b w1) b = None"
    by (auto simp: iop_destroy_def Let_def split: option.splits)
  with assms show ?thesis by (simp add: try_or_resume_def)
qed

definition two_readers :: "nat poll_warden" where
  "two_readers = (start_warden 0)\<lparr>
     heap := (\<lambda>c. if c < 2 then Some \<lparr>kind = ReadReady 7, deadline = None,
       handle = Coro c, comp_result = no_outcome, filled = []\<rparr> else None),
     next_cid := 2\<rparr>"

definition canceller :: "'k user" where
  "canceller h w = (if h = 0 then [DestroyIop 1] else [])"

theorem sibling_destroy_dangles_witness:
  "dangling (dispatch quiet_os canceller [0, 1] two_readers) \<and> pinv quiet_os [0, 1] two_readers"
proof
  show "dangling (dispatch quiet_os canceller [0, 1] two_readers)"
    by (rule sibling_destroy_dangles [of _ _ _ _ 0])
      (simp_all add: two_readers_def try_or_resume_def try_or_resume_obj_def
        cancel_timeout_then_resume_def cancel_timeout_def canceller_def)
  show "pinv quiet_os [0, 1] two_readers"
    by (auto simp: pinv_defs two_readers_def start_warden_def req_at_def no_request_def
        in_queue_def connect_ok_def split: if_splits)
qed

subsection \<open>The poll set only grows\<close>

definition watched :: "'k poll_warden \<Rightarrow> fd set" where
  "watched w = fst ` set (requests w)"

lemma watched_req_upd [simp]: "watched (req_upd f g w) = insert f (watched w)"
  by (simp add: watched_def req_upd_def)

lemma watched_update [simp]:
  "watched (push_read f c w) = insert f (watched w)"
  "watched (push_write f c w) = insert f (watched w)"
  "watched (erase_read f c w) = insert f (watched w)"
  "watched (erase_write f c w) = insert f (watched w)"
  "watched (store c x w) = watched w" "watched (insert_timeout c x w) = watched w"
  "watched (cancel_timeout c x w) = watched w" "watched (w\<lparr>kern := k\<rparr>) = watched w"
  "watched (w\<lparr>timeouts := t\<rparr>) = watched w" "watched (w\<lparr>heap := hp\<rparr>) = watched w"
  "watched (w\<lparr>resumer := a\<rparr>) = watched w" "watched (w\<lparr>to_visit := v\<rparr>) = watched w"
  "watched (w\<lparr>continuations := v\<rparr>) = watched w" "watched (w\<lparr>iops := ps\<rparr>) = watched w"
  "watched (w\<lparr>finished := d\<rparr>) = watched w" "watched (w\<lparr>dangling := b\<rparr>) = watched w"
  "watched (w\<lparr>next_cid := n\<rparr>) = watched w"
  by (simp_all add: push_read_def push_write_def erase_read_def erase_write_def)
    (simp_all add: watched_def store_def insert_timeout_def cancel_timeout_def
      split: option.splits)

lemma watched_cancel_iop: "watched w \<subseteq> watched (cancel_iop c k w)"
  by (cases k) auto

lemma watched_try_obj: "watched w \<subseteq> watched (snd (try_or_resume_obj os c x w))"
  by (cases "kind x")
    (auto simp: try_or_resume_obj_def close_try_or_resume_def read_some_try_or_resume_def
      write_some_try_or_resume_def accept_try_or_resume_def connect_try_or_resume_def
      cancel_timeout_then_resume_def Let_def split: prod.splits)

lemma watched_try: "watched w \<subseteq> watched (snd (try_or_resume os c w))"
  by (auto simp: try_or_resume_def split: option.splits dest: subsetD [OF watched_try_obj])

lemma watched_await: "watched w \<subseteq> watched (snd (await_suspend os c h w))"
  using watched_try_obj [of "insert_timeout c (x\<lparr>handle := h\<rparr>) (store c (x\<lparr>handle := h\<rparr>) w)"
      os c "x\<lparr>handle := h\<rparr>" for x]
  by (auto simp: await_suspend_def connect_await_suspend_def read_ready_await_suspend_def
      write_ready_await_suspend_def completion_await_suspend_def Let_def
      split: option.splits iop_kind.splits prod.splits)

lemma watched_timedout: "watched w \<subseteq> watched (snd (iop_timedout c w))"
  using watched_cancel_iop by (auto simp: iop_timedout_def split: option.splits iop_kind.splits)

lemma watched_destroy: "watched w \<subseteq> watched (iop_destroy c w)"
  using watched_cancel_iop [of "cancel_timeout c x w" c k for x k]
  by (auto simp: iop_destroy_def Let_def split: option.splits)

lemma watched_new_iop [simp]: "watched (snd (new_iop os k dl w)) = watched w"
  by (cases k) (simp_all add: do_close_def do_sleep_def do_read_some_def do_write_some_def
      do_accept_def do_connect_def do_read_ready_def do_write_ready_def new_completion_def
      Let_def split: prod.splits)

lemma watched_exec: "watched w \<subseteq> watched (exec os a w)"
  by (cases a) (simp_all add: watched_await watched_destroy do_async_resume_def
      wake_event_loop_def Let_def split: prod.splits)

lemma watched_acts: "watched w \<subseteq> watched (fold (exec os) as w)"
  by (induction as arbitrary: w) (auto dest: subsetD [OF watched_exec])

lemma watched_resume: "watched w \<subseteq> watched (resume os user h w)"
  by (cases h) (simp_all add: watched_acts)

lemma watched_fold_resume: "watched w \<subseteq> watched (fold (resume os user) hs w)"
  by (induction hs arbitrary: w) (auto dest: subsetD [OF watched_resume])

lemma watched_resume_queued: "watched w \<subseteq> watched (resume_queued os user w)"
  using watched_fold_resume [of "w\<lparr>resumer := swap_queues (resumer w)\<rparr>" os user]
  by (simp add: resume_queued_def poll_queue.resume_all_runs_queue Let_def)

lemma watched_dispatch: "watched w \<subseteq> watched (dispatch os user cs w)"
proof (induction cs arbitrary: w)
  case (Cons c cs)
  obtain h w1 where hw: "try_or_resume os c (w\<lparr>to_visit := cs\<rparr>) = (h, w1)"
    by (cases "try_or_resume os c (w\<lparr>to_visit := cs\<rparr>)")
  have "watched w \<subseteq> watched w1"
    using watched_try [of "w\<lparr>to_visit := cs\<rparr>" os c] hw by simp
  also have "\<dots> \<subseteq> watched (resume os user h w1)" by (rule watched_resume)
  finally show ?case using hw Cons.IH [of "resume os user h w1"] by auto
qed simp

lemma watched_collect: "collect os ps w = Some w' \<Longrightarrow> watched w \<subseteq> watched w'"
proof (induction ps arbitrary: w)
  case (Cons p ps)
  then obtain w1 where w1: "collect_one os p w = Some w1" "collect os ps w1 = Some w'"
    by (auto split: option.splits)
  have "watched w \<subseteq> watched w1"
    using w1(1) by (auto simp: collect_one_def drain_wakeup_def collect_reads_def
        collect_writes_def Let_def split: if_splits option.splits)
  with Cons.IH [OF w1(2)] show ?case by blast
qed simp

lemma watched_do_poll: "do_poll os user t w = Some (r, w') \<Longrightarrow> watched w \<subseteq> watched w'"
  by (auto simp: do_poll_def Let_def split: prod.splits if_splits option.splits
      dest!: watched_collect dest: subsetD [OF watched_dispatch])

lemma watched_step: "loop_step os user w w' \<Longrightarrow> watched w \<subseteq> watched w'"
proof (induction rule: loop_step.induct)
  case (fire w s rest now k)
  let ?w = "w\<lparr>kern := k, timeouts := rest\<rparr>"
  obtain h w1 where hw: "iop_timedout (snd s) ?w = (h, w1)" by (cases "iop_timedout (snd s) ?w")
  have "watched w \<subseteq> watched w1" using watched_timedout [of ?w "snd s"] hw by simp
  also have "\<dots> \<subseteq> watched (resume os user h w1)" by (rule watched_resume)
  finally show ?case using hw by (simp add: fire_timeout_def)
next
  case (poll t w u w')
  from watched_do_poll [OF poll(1)] watched_resume_queued [of w' os user] show ?case by blast
next
  case (poll_failed t w e w')
  then show ?case by (rule watched_do_poll)
next
  case (start w h)
  show ?case by (rule watched_resume)
qed simp

text \<open>Once an IOP has waited for a descriptor, every later poll of the run includes it,
  even when nothing waits for it any more and even when it has been closed.\<close>

theorem descriptor_polled_forever:
  assumes "(loop_step os user)\<^sup>*\<^sup>* w w'" "f \<in> fst ` set (requests w)"
  shows "f \<in> pfd ` set (poll_set w')"
proof -
  have "watched w \<subseteq> watched w'"
    using assms(1) by (induction rule: rtranclp_induct) (use watched_step in blast)+
  with assms(2) show ?thesis
    by (force simp: watched_def poll_set_def)
qed

text \<open>The witness: wait for the descriptor with a time out, then close it.\<close>

definition wait_then_close :: "'k user" where
  "wait_then_close h w =
     (if next_cid w = 0 then [NewIop (ReadReady 7) (Some 0), Await 0 h]
      else [DestroyIop 0, NewIop (Close 7) None, Await 1 h])"

definition watching :: "nat poll_warden" where
  "watching = (start_warden 0)\<lparr>requests := [(7, \<lparr>reads = [0], writes = []\<rparr>)],
     timeouts := [(0, 0)], next_cid := 1,
     heap := [0 \<mapsto> \<lparr>kind = ReadReady 7, deadline = Some 0, handle = Coro 1,
       comp_result = no_outcome, filled = []\<rparr>]\<rparr>"

lemma watching_reached: "resume quiet_os wait_then_close (Coro 1) (start_warden 0) = watching"
  by (simp add: watching_def wait_then_close_def start_warden_def do_read_ready_def
      new_completion_def store_def await_suspend_def read_ready_await_suspend_def push_read_def
      insert_timeout_def req_upd_def req_at_def no_request_def Let_def)

theorem descriptor_polled_forever_witness:
  "\<exists>w'. loop_step quiet_os wait_then_close
      (resume quiet_os wait_then_close (Coro 1) (start_warden (0::nat))) w' \<and>
    req_at w' 7 = no_request \<and> 7 \<in> pfd ` set (poll_set w')"
proof -
  let ?w' = "fire_timeout quiet_os wait_then_close 0 (watching\<lparr>kern := 0, timeouts := []\<rparr>)"
  have step: "loop_step quiet_os wait_then_close watching ?w'"
    using loop_step.fire [of watching "(0, 0)" "[]" quiet_os 0 0 wait_then_close]
    by (simp add: watching_def quiet_os_def start_warden_def)
  have "7 \<in> fst ` set (requests watching)" by (simp add: watching_def)
  with descriptor_polled_forever [OF r_into_rtranclp, OF step]
  have "7 \<in> pfd ` set (poll_set ?w')" by blast
  moreover have "req_at ?w' 7 = no_request"
    by (simp add: watching_def fire_timeout_def iop_timedout_def erase_read_def store_def
        fail_def wait_then_close_def iop_destroy_def cancel_timeout_def do_close_def
        new_completion_def await_suspend_def completion_await_suspend_def insert_timeout_def
        try_or_resume_obj_def close_try_or_resume_def cancel_timeout_then_resume_def req_upd_def
        req_at_def no_request_def Let_def)
  ultimately show ?thesis using step unfolding watching_reached by blast
qed

end
