(* ===== verification/PollWake.thy ===== *)
theory PollWake
  imports PollLoop
begin

text \<open>
  Wake-ups of the poll loop. \<open>do_async_resume\<close> writes to the self-pipe only when the queue
  was empty before; the lemmas here show that this is enough: whenever the loop is about to
  poll with handles in the queue, there is a byte in the pipe, so \<open>poll\<close> cannot block.
  The pipe belongs to the kernel. \<open>avail k\<close> is the number of bytes in it, and \<open>wake_pipe\<close>
  states what the code relies on: a write to it leaves it non-empty (it was written to, or
  was full), and only reading its read end, or closing it, takes bytes out.
\<close>

definition keeps :: "('k \<Rightarrow> nat) \<Rightarrow> ('k \<Rightarrow> 'k) \<Rightarrow> bool" where
  "keeps avail f \<longleftrightarrow> (\<forall>k. 0 < avail k \<longrightarrow> 0 < avail (f k))"

definition wake_pipe :: "'k posix_os \<Rightarrow> fd \<Rightarrow> fd \<Rightarrow> ('k \<Rightarrow> nat) \<Rightarrow> bool" where
  "wake_pipe os rfd wfd avail \<longleftrightarrow>
     (\<forall>bs k. bs \<noteq> [] \<longrightarrow> 0 < avail (snd (os_write os wfd bs k))) \<and>
     (\<forall>f bs. keeps avail (\<lambda>k. snd (os_write os f bs k))) \<and>
     (\<forall>f n. f \<noteq> rfd \<longrightarrow> keeps avail (\<lambda>k. snd (os_read os f n k))) \<and>
     (\<forall>f. f \<noteq> rfd \<and> f \<noteq> wfd \<longrightarrow> keeps avail (\<lambda>k. snd (os_close os f k))) \<and>
     (\<forall>f. keeps avail (\<lambda>k. snd (os_accept4 os f k))) \<and>
     (\<forall>f a. keeps avail (\<lambda>k. snd (os_connect os f a k))) \<and>
     (\<forall>f. keeps avail (\<lambda>k. snd (snd (os_so_error os f k)))) \<and>
     (\<forall>ps t. keeps avail (\<lambda>k. snd (snd (os_poll os ps t k)))) \<and>
     keeps avail (\<lambda>k. snd (os_now os k))"

text \<open>An application leaves the two ends of the self-pipe alone.\<close>

fun spares :: "fd \<Rightarrow> fd \<Rightarrow> iop_kind \<Rightarrow> bool" where
  "spares rfd wfd (ReadSome f n) = (f \<noteq> rfd)"
| "spares rfd wfd (Close f) = (f \<noteq> rfd \<and> f \<noteq> wfd)"
| "spares rfd wfd _ = True"

fun wake_lawful :: "fd \<Rightarrow> fd \<Rightarrow> ('k \<Rightarrow> nat) \<Rightarrow> 'k act \<Rightarrow> 'k poll_warden \<Rightarrow> bool" where
  "wake_lawful rfd wfd avail (NewIop k dl) w = spares rfd wfd k"
| "wake_lawful rfd wfd avail (Kernel f) w = keeps avail f"
| "wake_lawful rfd wfd avail _ w = True"

definition pipe_spared :: "fd \<Rightarrow> fd \<Rightarrow> 'k poll_warden \<Rightarrow> bool" where
  "pipe_spared rfd wfd w \<longleftrightarrow>
     wakeup_read w = rfd \<and> wakeup_write w = wfd \<and>
     (\<forall>c x. heap w c = Some x \<longrightarrow> spares rfd wfd (kind x))"

definition awake :: "('k \<Rightarrow> nat) \<Rightarrow> 'k poll_warden \<Rightarrow> bool" where
  "awake avail w \<longleftrightarrow> (has_requests (resumer w) \<longrightarrow> 0 < avail (kern w))"

definition wake_inv :: "fd \<Rightarrow> fd \<Rightarrow> ('k \<Rightarrow> nat) \<Rightarrow> 'k poll_warden \<Rightarrow> bool" where
  "wake_inv rfd wfd avail w \<longleftrightarrow> pipe_spared rfd wfd w \<and> awake avail w"

subsection \<open>System calls keep the pipe filled\<close>

lemma wake_pipeD:
  assumes "wake_pipe os rfd wfd avail"
  shows "bs \<noteq> [] \<Longrightarrow> 0 < avail (snd (os_write os wfd bs k))"
    and "0 < avail k \<Longrightarrow> 0 < avail (snd (os_write os f bs k))"
    and "0 < avail k \<Longrightarrow> f \<noteq> rfd \<Longrightarrow> 0 < avail (snd (os_read os f n k))"
    and "0 < avail k \<Longrightarrow> f \<noteq> rfd \<Longrightarrow> f \<noteq> wfd \<Longrightarrow> 0 < avail (snd (os_close os f k))"
    and "0 < avail k \<Longrightarrow> 0 < avail (snd (os_accept4 os f k))"
    and "0 < avail k \<Longrightarrow> 0 < avail (snd (os_connect os f a k))"
    and "0 < avail k \<Longrightarrow> 0 < avail (snd (snd (os_so_error os f k)))"
    and "0 < avail k \<Longrightarrow> 0 < avail (snd (snd (os_poll os ps t k)))"
    and "0 < avail k \<Longrightarrow> 0 < avail (snd (os_now os k))"
  using assms by (auto simp: wake_pipe_def keeps_def)

lemma wake_read:
  assumes "wake_pipe os rfd wfd avail" "f \<noteq> rfd" "0 < avail k" "sys_read os f n k = (r, bs, k')"
  shows "0 < avail k'"
  using assms(4) wake_pipeD(3) [OF assms(1,3,2), of n]
  by (auto simp: sys_read_def split: prod.splits option.splits)

lemma wake_write:
  assumes "wake_pipe os rfd wfd avail" "0 < avail k" "sys_write os f bs k = (r, k')"
  shows "0 < avail k'"
  using assms(3) wake_pipeD(2) [OF assms(1,2), of f bs]
  by (auto simp: sys_write_def split: prod.splits option.splits)

lemma wake_write_wfd:
  assumes "wake_pipe os rfd wfd avail" "bs \<noteq> []"
  shows "0 < avail (snd (sys_write os wfd bs k))"
  using wake_pipeD(1) [OF assms, of k]
  by (auto simp: sys_write_def split: prod.splits option.splits)

lemma wake_others:
  assumes "wake_pipe os rfd wfd avail" "0 < avail k"
  shows "f \<noteq> rfd \<Longrightarrow> f \<noteq> wfd \<Longrightarrow> 0 < avail (snd (os_close os f k))"
    and "os_accept4 os f k = (r, k') \<Longrightarrow> 0 < avail k'"
    and "os_connect os f a k = (r, k') \<Longrightarrow> 0 < avail k'"
    and "os_so_error os f k = (r, e, k') \<Longrightarrow> 0 < avail k'"
    and "os_poll os ps t k = (r, rv, k') \<Longrightarrow> 0 < avail k'"
    and "os_now os k = (now, k') \<Longrightarrow> 0 < avail k'"
  using wake_pipeD(4-) [OF assms] by (metis fst_conv snd_conv)+

subsection \<open>Every call keeps the pipe filled\<close>

text \<open>\<open>tame\<close>: the step keeps the pipe non-empty and out of the hands of completions.\<close>

definition tame ::
  "fd \<Rightarrow> fd \<Rightarrow> ('k \<Rightarrow> nat) \<Rightarrow> 'k poll_warden \<Rightarrow> 'k poll_warden \<Rightarrow> bool" where
  "tame rfd wfd avail w w' \<longleftrightarrow>
     pipe_spared rfd wfd w' \<and> (0 < avail (kern w) \<longrightarrow> 0 < avail (kern w'))"

lemma tame_trans:
  "tame rfd wfd avail v w \<Longrightarrow> tame rfd wfd avail w w' \<Longrightarrow> tame rfd wfd avail v w'"
  by (simp add: tame_def)

lemma tame_refl: "pipe_spared rfd wfd w \<Longrightarrow> tame rfd wfd avail w w"
  by (simp add: tame_def)

lemma update_kern [frame, simp]:
  "kern (store c x w) = kern w" "kern (push_read f c w) = kern w"
  "kern (push_write f c w) = kern w" "kern (erase_read f c w) = kern w"
  "kern (erase_write f c w) = kern w" "kern (insert_timeout c x w) = kern w"
  "kern (cancel_timeout c x w) = kern w" "kern (cancel_iop c k w) = kern w"
  by (simp_all add: store_def push_read_def push_write_def erase_read_def erase_write_def
      insert_timeout_def cancel_timeout_def split: option.splits)
    (cases k; simp add: erase_read_def erase_write_def)

lemma spared_update [simp]:
  "pipe_spared rfd wfd (push_read f c w) = pipe_spared rfd wfd w"
  "pipe_spared rfd wfd (push_write f c w) = pipe_spared rfd wfd w"
  "pipe_spared rfd wfd (erase_read f c w) = pipe_spared rfd wfd w"
  "pipe_spared rfd wfd (erase_write f c w) = pipe_spared rfd wfd w"
  "pipe_spared rfd wfd (insert_timeout c x w) = pipe_spared rfd wfd w"
  "pipe_spared rfd wfd (cancel_timeout c x w) = pipe_spared rfd wfd w"
  "pipe_spared rfd wfd (w\<lparr>kern := k\<rparr>) = pipe_spared rfd wfd w"
  "pipe_spared rfd wfd (w\<lparr>timeouts := t\<rparr>) = pipe_spared rfd wfd w"
  "pipe_spared rfd wfd (w\<lparr>resumer := a\<rparr>) = pipe_spared rfd wfd w"
  "pipe_spared rfd wfd (w\<lparr>iops := ps\<rparr>) = pipe_spared rfd wfd w"
  "pipe_spared rfd wfd (w\<lparr>to_visit := v\<rparr>) = pipe_spared rfd wfd w"
  "pipe_spared rfd wfd (w\<lparr>continuations := v\<rparr>) = pipe_spared rfd wfd w"
  "pipe_spared rfd wfd (w\<lparr>finished := d\<rparr>) = pipe_spared rfd wfd w"
  "pipe_spared rfd wfd (w\<lparr>dangling := b\<rparr>) = pipe_spared rfd wfd w"
  "pipe_spared rfd wfd (req_upd f g w) = pipe_spared rfd wfd w"
  by (simp_all add: pipe_spared_def push_read_def push_write_def erase_read_def erase_write_def
      insert_timeout_def cancel_timeout_def req_upd_def split: option.splits)

lemma spared_store:
  "pipe_spared rfd wfd w \<Longrightarrow> spares rfd wfd (kind x) \<Longrightarrow> pipe_spared rfd wfd (store c x w)"
  by (simp add: pipe_spared_def store_def)

lemma spared_delete:
  "pipe_spared rfd wfd w \<Longrightarrow> pipe_spared rfd wfd (w\<lparr>heap := (heap w)(c := None)\<rparr>)"
  by (simp add: pipe_spared_def)

lemma spared_cancel_iop [simp]:
  "pipe_spared rfd wfd (cancel_iop c k w) = pipe_spared rfd wfd w"
  by (cases k) simp_all

lemma spared_kind: "pipe_spared rfd wfd w \<Longrightarrow> heap w c = Some x \<Longrightarrow> spares rfd wfd (kind x)"
  by (simp add: pipe_spared_def)

lemma try_or_resume_obj_tame:
  assumes wp: "wake_pipe os rfd wfd avail" and sp: "pipe_spared rfd wfd w"
    and k: "spares rfd wfd (kind x)"
  shows "tame rfd wfd avail w (snd (try_or_resume_obj os c x w))"
  using k
  by (cases "kind x")
    (auto simp: try_or_resume_obj_def close_try_or_resume_def read_some_try_or_resume_def
      write_some_try_or_resume_def accept_try_or_resume_def connect_try_or_resume_def
      cancel_timeout_then_resume_def tame_def sp Let_def
      intro!: spared_store intro: wake_read [OF wp] wake_write [OF wp] wake_others [OF wp]
      split: prod.splits)

lemma try_or_resume_tame:
  assumes "wake_pipe os rfd wfd avail" "pipe_spared rfd wfd w"
  shows "tame rfd wfd avail w (snd (try_or_resume os c w))"
  using assms
  by (auto simp: try_or_resume_def tame_def split: option.splits
      dest: try_or_resume_obj_tame [OF assms spared_kind [OF assms(2)], unfolded tame_def])

lemma await_suspend_tame:
  assumes wp: "wake_pipe os rfd wfd avail" and sp: "pipe_spared rfd wfd w"
  shows "tame rfd wfd avail w (snd (await_suspend os c h w))"
proof (cases "heap w c")
  case None
  with sp show ?thesis by (simp add: await_suspend_def tame_def)
next
  case (Some x)
  then have k: "spares rfd wfd (kind x)" using sp by (rule spared_kind [rotated])
  let ?w = "insert_timeout c (x\<lparr>handle := h\<rparr>) (store c (x\<lparr>handle := h\<rparr>) w)"
  have "pipe_spared rfd wfd ?w" using sp k by (simp add: spared_store)
  then have base: "tame rfd wfd avail w (snd (completion_await_suspend os c x h w))"
    using try_or_resume_obj_tame [OF wp, of ?w "x\<lparr>handle := h\<rparr>" c] k
    by (simp add: completion_await_suspend_def Let_def tame_def)
  show ?thesis
    using base Some k sp
    by (cases "kind x")
      (auto simp: await_suspend_def connect_await_suspend_def read_ready_await_suspend_def
        write_ready_await_suspend_def tame_def Let_def
        intro!: spared_store intro: wake_others [OF wp] split: prod.splits)
qed

lemma iop_timedout_tame:
  "pipe_spared rfd wfd w \<Longrightarrow> tame rfd wfd avail w (snd (iop_timedout c w))"
  by (auto simp: iop_timedout_def tame_def intro!: spared_store dest: spared_kind
      split: option.splits iop_kind.splits)

lemma iop_destroy_tame: "pipe_spared rfd wfd w \<Longrightarrow> tame rfd wfd avail w (iop_destroy c w)"
  using spared_delete [of rfd wfd "cancel_iop c k (cancel_timeout c x w)" c for k x]
  by (auto simp: iop_destroy_def tame_def Let_def split: option.splits)

lemma new_iop_tame:
  assumes "wake_pipe os rfd wfd avail" "pipe_spared rfd wfd w" "spares rfd wfd k"
  shows "tame rfd wfd avail w (snd (new_iop os k dl w))"
  using assms wake_others(6) [OF assms(1), of "kern w"]
  by (cases k) (auto simp: do_close_def do_sleep_def do_read_some_def do_write_some_def
      do_accept_def do_connect_def do_read_ready_def do_write_ready_def new_completion_def
      deadline_from_def tame_def pipe_spared_def store_def Let_def split: prod.splits)

lemma async_resume_awake:
  assumes wp: "wake_pipe os rfd wfd avail" and inv: "wake_inv rfd wfd avail w"
  shows "wake_inv rfd wfd avail (do_async_resume os hs w)"
proof -
  have w: "wakeup_write w = wfd" using inv by (simp add: wake_inv_def pipe_spared_def)
  have sp: "pipe_spared rfd wfd (do_async_resume os hs w)"
    using inv by (simp add: do_async_resume_def wake_event_loop_def wake_inv_def Let_def
        split: prod.splits)
  have wr: "0 < avail (snd (sys_write os wfd [0] k))" for k
    using wake_write_wfd [OF wp] by simp
  show ?thesis
    using inv sp w wr
    by (auto simp: wake_inv_def awake_def do_async_resume_def wake_event_loop_def queue_eq
        has_requests_def Let_def filter_empty_conv)
qed

lemma tame_awake:
  "tame rfd wfd avail w w' \<Longrightarrow> resumer w' = resumer w \<Longrightarrow> wake_inv rfd wfd avail w \<Longrightarrow>
   wake_inv rfd wfd avail w'"
  by (auto simp: wake_inv_def awake_def tame_def)

lemma exec_wake_inv:
  assumes wp: "wake_pipe os rfd wfd avail" and inv: "wake_inv rfd wfd avail w"
    and l: "wake_lawful rfd wfd avail a w"
  shows "wake_inv rfd wfd avail (exec os a w)"
proof (cases a)
  case (AsyncResume hs)
  with async_resume_awake [OF wp inv] show ?thesis by simp
next
  case (Finish h)
  with inv show ?thesis by (simp add: wake_inv_def awake_def)
next
  case (Kernel f)
  with inv l show ?thesis by (simp add: wake_inv_def awake_def keeps_def)
next
  case (NewIop k dl)
  have "pipe_spared rfd wfd w" "spares rfd wfd k"
    using inv l NewIop by (simp_all add: wake_inv_def)
  from tame_awake [OF new_iop_tame [OF wp this] new_iop_resumer inv] NewIop show ?thesis by simp
next
  case (Await c h)
  have "pipe_spared rfd wfd w" using inv by (simp add: wake_inv_def)
  from tame_awake [OF await_suspend_tame [OF wp this] await_suspend_resumer inv] Await
  show ?thesis by simp
next
  case (DestroyIop c)
  have "pipe_spared rfd wfd w" using inv by (simp add: wake_inv_def)
  from tame_awake [OF iop_destroy_tame [OF this] other_calls_resumer(3) inv] DestroyIop
  show ?thesis by simp
qed

definition wake_behaved :: "fd \<Rightarrow> fd \<Rightarrow> ('k \<Rightarrow> nat) \<Rightarrow> 'k posix_os \<Rightarrow> 'k user \<Rightarrow> bool" where
  "wake_behaved rfd wfd avail os user \<longleftrightarrow>
     (\<forall>h w. lawful_acts (exec os) (wake_lawful rfd wfd avail) (user h w) w)"

subsection \<open>Through the loop\<close>

lemma exec_spared:
  assumes wp: "wake_pipe os rfd wfd avail" and sp: "pipe_spared rfd wfd w"
    and l: "wake_lawful rfd wfd avail a w"
  shows "pipe_spared rfd wfd (exec os a w)"
proof (cases a)
  case (NewIop k dl)
  with new_iop_tame [OF wp sp, of k dl] l show ?thesis by (simp add: tame_def)
next
  case (Await c h)
  with await_suspend_tame [OF wp sp, of c "Coro h"] show ?thesis by (simp add: tame_def)
next
  case (DestroyIop c)
  with iop_destroy_tame [OF sp, of avail c] show ?thesis by (simp add: tame_def)
next
  case (AsyncResume hs)
  with sp show ?thesis
    by (simp add: do_async_resume_def wake_event_loop_def Let_def split: prod.splits)
qed (use sp in auto)

interpretation poll_wake: warden_contract "exec os"
  "\<lambda>w. wake_pipe os rfd wfd avail \<and> wake_inv rfd wfd avail w" "wake_lawful rfd wfd avail"
  by unfold_locales (simp add: exec_wake_inv)

interpretation poll_spare: warden_contract "exec os"
  "\<lambda>w. wake_pipe os rfd wfd avail \<and> pipe_spared rfd wfd w" "wake_lawful rfd wfd avail"
  by unfold_locales (auto intro: exec_spared)

lemma resume_wake_inv:
  assumes "wake_pipe os rfd wfd avail" "wake_behaved rfd wfd avail os user"
    and "wake_inv rfd wfd avail w"
  shows "wake_inv rfd wfd avail (resume os user h w)"
proof (cases h)
  case (Coro n)
  with assms poll_wake.acts_inv [of os rfd wfd avail w "user n w"] show ?thesis
    by (simp add: wake_behaved_def)
qed (use assms in \<open>auto simp: wake_inv_def awake_def\<close>)

lemma resume_spared:
  assumes "wake_pipe os rfd wfd avail" "wake_behaved rfd wfd avail os user"
    and "pipe_spared rfd wfd w"
  shows "pipe_spared rfd wfd (resume os user h w)"
proof (cases h)
  case (Coro n)
  with assms poll_spare.acts_inv [of os rfd wfd avail w "user n w"] show ?thesis
    by (simp add: wake_behaved_def)
qed (use assms in auto)

lemma dispatch_spared:
  assumes "wake_pipe os rfd wfd avail" "wake_behaved rfd wfd avail os user"
  shows "pipe_spared rfd wfd w \<Longrightarrow> pipe_spared rfd wfd (dispatch os user cs w)"
proof (induction cs arbitrary: w)
  case (Cons c cs)
  obtain h w1 where hw: "try_or_resume os c (w\<lparr>to_visit := cs\<rparr>) = (h, w1)"
    by (cases "try_or_resume os c (w\<lparr>to_visit := cs\<rparr>)")
  have "pipe_spared rfd wfd w1"
    using try_or_resume_tame [OF assms(1), of "w\<lparr>to_visit := cs\<rparr>" c] Cons.prems hw
    by (simp add: tame_def)
  with Cons.IH resume_spared [OF assms] hw show ?case by simp
qed simp

lemma collect_spared:
  "collect os ps w = Some w' \<Longrightarrow> pipe_spared rfd wfd w \<Longrightarrow> pipe_spared rfd wfd w'"
  by (induction ps arbitrary: w)
    (auto simp: collect_one_def drain_wakeup_def collect_reads_def collect_writes_def Let_def
      split: option.splits if_splits)

lemma do_poll_spared:
  assumes "wake_pipe os rfd wfd avail" "wake_behaved rfd wfd avail os user"
    and "pipe_spared rfd wfd w" "do_poll os user t w = Some (r, w')"
  shows "pipe_spared rfd wfd w'"
  using assms(3,4)
  by (auto simp: do_poll_def Let_def split: prod.splits if_splits option.splits
      dest!: collect_spared intro: dispatch_spared [OF assms(1,2)])

lemma do_poll_failed_awake:
  assumes "wake_pipe os rfd wfd avail" "do_poll os user t w = Some (Inl e, w')" "awake avail w"
  shows "awake avail w'"
  using assms(2,3) wake_others(5) [OF assms(1)]
  by (auto simp: do_poll_def awake_def Let_def split: prod.splits if_splits option.splits)

definition loop_awake :: "fd \<Rightarrow> fd \<Rightarrow> ('k \<Rightarrow> nat) \<Rightarrow> 'k poll_warden \<Rightarrow> bool" where
  "loop_awake rfd wfd avail w \<longleftrightarrow> wake_inv rfd wfd avail w \<and> resuming (resumer w) = []"

lemma resume_queued_awake:
  assumes wp: "wake_pipe os rfd wfd avail" and wb: "wake_behaved rfd wfd avail os user"
    and sp: "pipe_spared rfd wfd w" and r: "resuming (resumer w) = []"
  shows "loop_awake rfd wfd avail (resume_queued os user w)"
proof -
  let ?w1 = "w\<lparr>resumer := swap_queues (resumer w)\<rparr>"
  have fold: "wake_inv rfd wfd avail v \<Longrightarrow>
      wake_inv rfd wfd avail (fold (resume os user) hs v)" for hs v
    by (induction hs arbitrary: v) (auto intro: resume_wake_inv [OF wp wb])
  have "wake_inv rfd wfd avail ?w1"
    using sp r by (simp add: wake_inv_def awake_def has_requests_def swap_queues_def)
  from fold [OF this] show ?thesis
    by (simp add: resume_queued_def poll_queue.resume_all_runs_queue Let_def loop_awake_def
        wake_inv_def awake_def has_requests_def)
qed

lemma fire_timeout_awake:
  assumes wp: "wake_pipe os rfd wfd avail" and wb: "wake_behaved rfd wfd avail os user"
    and inv: "wake_inv rfd wfd avail w" and now: "os_now os (kern w) = (now, k)"
  shows "wake_inv rfd wfd avail (fire_timeout os user c (w\<lparr>kern := k, timeouts := rest\<rparr>))"
proof -
  let ?w = "w\<lparr>kern := k, timeouts := rest\<rparr>"
  have w: "wake_inv rfd wfd avail ?w"
    using inv wake_others(6) [OF wp _ now] by (simp add: wake_inv_def awake_def)
  then have sp: "pipe_spared rfd wfd ?w" by (simp add: wake_inv_def)
  obtain h w1 where hw: "iop_timedout c ?w = (h, w1)" by (cases "iop_timedout c ?w")
  with tame_awake [OF iop_timedout_tame [OF sp] other_calls_resumer(2) w, of c]
  have "wake_inv rfd wfd avail w1" by simp
  with hw show ?thesis by (simp add: fire_timeout_def resume_wake_inv [OF wp wb])
qed

lemma fire_timeout_resuming: "resuming (resumer (fire_timeout os user c w)) = resuming (resumer w)"
proof -
  obtain h w1 where hw: "iop_timedout c w = (h, w1)" by (cases "iop_timedout c w")
  then have "resumer w1 = resumer w" using other_calls_resumer(2) [of c w] by simp
  then show ?thesis
    using hw appends_resuming [OF poll_queue.resume_appends [of w1 os user h]]
    by (simp add: fire_timeout_def)
qed

lemma loop_step_awake:
  assumes wp: "wake_pipe os rfd wfd avail" and wb: "wake_behaved rfd wfd avail os user"
  shows "loop_step os user w w' \<Longrightarrow> loop_awake rfd wfd avail w \<Longrightarrow> loop_awake rfd wfd avail w'"
proof (induction rule: loop_step.induct)
  case (clock w now k)
  then show ?case
    using wake_others(6) [OF wp _ clock(1)] by (simp add: loop_awake_def wake_inv_def awake_def)
next
  case (fire w s rest now k)
  then show ?case
    using fire_timeout_awake [OF wp wb _ fire(2)] by (simp add: loop_awake_def fire_timeout_resuming)
next
  case (poll t w u w')
  then have "pipe_spared rfd wfd w'" "resuming (resumer w') = []"
    using do_poll_spared [OF wp wb _ poll(1)] appends_resuming [OF do_poll_appends [OF poll(1)]]
    by (auto simp: loop_awake_def wake_inv_def)
  then show ?case by (rule resume_queued_awake [OF wp wb])
next
  case (poll_failed t w e w')
  then show ?case
    using do_poll_spared [OF wp wb _ poll_failed(1)] do_poll_failed_awake [OF wp poll_failed(1)]
      appends_resuming [OF do_poll_appends [OF poll_failed(1)]]
    by (simp add: loop_awake_def wake_inv_def)
next
  case (start w h)
  then show ?case
    using resume_wake_inv [OF wp wb, of w "Coro h"]
      appends_resuming [OF poll_queue.resume_appends [of w os user "Coro h"]]
    by (simp add: loop_awake_def del: resume.simps)
qed

lemma loop_steps_awake:
  assumes "wake_pipe os rfd wfd avail" "wake_behaved rfd wfd avail os user"
  shows "(loop_step os user)\<^sup>*\<^sup>* w w' \<Longrightarrow> loop_awake rfd wfd avail w \<Longrightarrow> loop_awake rfd wfd avail w'"
  by (induction rule: rtranclp_induct) (auto intro: loop_step_awake [OF assms])

lemma new_poll_warden_awake:
  "new_poll_warden os k = Inr w \<Longrightarrow> loop_awake (wakeup_read w) (wakeup_write w) avail w"
  by (auto simp: new_poll_warden_def loop_awake_def wake_inv_def awake_def pipe_spared_def
      has_requests_def no_requests_def split: prod.splits sum.splits)

end
