(* ===== verification/PollProperties.thy ===== *)
theory PollProperties
  imports PollTimeouts PollWake Kernels
begin

text \<open>
  The properties of the poll warden, each with a witness on a concrete kernel.
\<close>

subsection \<open>Memory safety\<close>



subsection \<open>Runs\<close>

lemma run_loop_finished:
  assumes "run_loop os user coro w = Some (Inr u, w')"
  shows "coro \<in> set (finished w')"
proof -
  have "\<not> isl (fst (Inr u :: exn + unit, w')) \<longrightarrow> coro \<in> set (finished (snd (Inr u :: exn + unit, w')))"
  proof (rule run_loop.raw_induct
      [where P = "\<lambda>os user coro w r. \<not> isl (fst r) \<longrightarrow> coro \<in> set (finished (snd r))", OF _ assms])
    fix f os and user :: "'a user" and coro w r
    assume IH: "\<And>os (user :: 'a user) coro w r. f os user coro w = Some r \<Longrightarrow>
        \<not> isl (fst r) \<longrightarrow> coro \<in> set (finished (snd r))"
      and eq: "(case clear_timeouts os user w of None \<Rightarrow> None
        | Some tw \<Rightarrow>
            if coro \<in> set (finished (snd tw)) then Some (Inr (), snd tw)
            else case do_poll os user (fst tw) (snd tw) of None \<Rightarrow> None
              | Some rw \<Rightarrow>
                  (case fst rw of Inl e \<Rightarrow> Some (Inl e, snd rw)
                   | Inr u \<Rightarrow> f os user coro (resume_queued os user (snd rw)))) = Some r"
    then show "\<not> isl (fst r) \<longrightarrow> coro \<in> set (finished (snd r))"
      by (auto split: option.splits if_splits sum.splits dest: IH)
  qed
  then show ?thesis by simp
qed

lemma do_poll_error:
  "do_poll os user t w = Some (Inl e, w') \<Longrightarrow>
   \<exists>n. e = SystemError n ''poll'' \<and> n \<noteq> EINTR"
  by (auto simp: do_poll_def Let_def split: prod.splits if_splits option.splits)

lemma run_loop_error:
  assumes "run_loop os user coro w = Some (Inl e, w')"
  shows "\<exists>n. e = SystemError n ''poll'' \<and> n \<noteq> EINTR"
proof -
  let ?P = "\<lambda>r :: (exn + unit) \<times> 'a poll_warden.
    \<forall>e. fst r = Inl e \<longrightarrow> (\<exists>n. e = SystemError n ''poll'' \<and> n \<noteq> EINTR)"
  have "?P (Inl e, w')"
  proof (rule run_loop.raw_induct [where P = "\<lambda>os user coro w r. ?P r", OF _ assms])
    fix f os and user :: "'a user" and coro w r
    assume IH: "\<And>os (user :: 'a user) coro w r. f os user coro w = Some r \<Longrightarrow> ?P r"
      and eq: "(case clear_timeouts os user w of None \<Rightarrow> None
        | Some tw \<Rightarrow>
            if coro \<in> set (finished (snd tw)) then Some (Inr (), snd tw)
            else case do_poll os user (fst tw) (snd tw) of None \<Rightarrow> None
              | Some rw \<Rightarrow>
                  (case fst rw of Inl e \<Rightarrow> Some (Inl e, snd rw)
                   | Inr u \<Rightarrow> f os user coro (resume_queued os user (snd rw)))) = Some r"
    then consider w2 where "r = (Inr (), w2)"
      | t w1 e w2 where "do_poll os user t w1 = Some (Inl e, w2)" "r = (Inl e, w2)"
      | v where "f os user coro v = Some r"
      by (auto split: option.splits if_splits sum.splits)
    then show "?P r"
      by cases (auto dest: do_poll_error IH)
  qed
  then show ?thesis by simp
qed

text \<open>C11: \<open>run_until\<close> only takes steps of the transition system; when it returns normally the
  main coroutine is done, and the only exception that leaves it is the failure of \<open>poll\<close>
  itself, never an interrupted one.\<close>

theorem run_until_outcome:
  assumes "run_until os user coro w = Some (r, w')"
  shows "(loop_step os user)\<^sup>*\<^sup>* w w' \<and>
    (case r of Inr u \<Rightarrow> coro \<in> set (finished w')
     | Inl e \<Rightarrow> \<exists>n. e = SystemError n ''poll'' \<and> n \<noteq> EINTR)"
  using assms run_until_steps [OF assms] run_loop_finished run_loop_error
  by (auto simp: run_until_def split: sum.splits)

theorem run_until_outcome_witness:
  "\<exists>w. run_until quiet_os (one_iop (Sleep 5) None) 1 (start_warden (0::nat)) = Some (Inr (), w) \<and>
     1 \<in> set (finished w)"
proof -
  let ?u = "one_iop (Sleep 5) None :: nat user"
  obtain w where r: "run_until quiet_os ?u 1 (start_warden 0) = Some (Inr (), w)"
    by (simp add: run_until_def one_iop_def start_warden_def do_sleep_def deadline_from_def
        new_completion_def store_def await_suspend_def completion_await_suspend_def
        insert_timeout_def try_or_resume_obj_def quiet_os_def run_loop.simps
        clear_timeouts_unfold fire_timeout_def iop_timedout_def Let_def)
  with run_until_outcome [OF r] show ?thesis by auto
qed

subsection \<open>Wake-ups\<close>

text \<open>C3: No wake-up is lost: in every state a run can reach, if handles are queued for
  resumption then there is a byte in the self-pipe, so the next \<open>poll\<close> returns at once.\<close>

theorem poll_no_lost_wakeup:
  assumes "new_poll_warden os k = Inr w0"
    and "wake_pipe os (wakeup_read w0) (wakeup_write w0) avail"
    and "wake_behaved (wakeup_read w0) (wakeup_write w0) avail os user"
    and "(loop_step os user)\<^sup>*\<^sup>* w0 w"
  shows "has_requests (resumer w) \<longrightarrow> 0 < avail (kern w)"
  using loop_steps_awake [OF assms(2-4) new_poll_warden_awake [OF assms(1)]]
  by (simp add: loop_awake_def wake_inv_def awake_def)

text \<open>A kernel whose state is the number of bytes in the self-pipe.\<close>

definition pipe_os :: "nat posix_os" where
  "pipe_os = quiet_os\<lparr>
     os_write := (\<lambda>f bs k. (Some (length bs), if f = 4 then k + length bs else k)),
     os_read := (\<lambda>f n k. if f = 3 then (if k = 0 then (None, 0)
                                         else (Some (replicate (min n k) 0), k - n))
                          else (None, k))\<rparr>"

definition self_queue :: "'k user" where
  "self_queue h w = [AsyncResume [Coro h, NullCoro]]"

theorem poll_no_lost_wakeup_witness:
  "\<exists>w. (loop_step pipe_os self_queue)\<^sup>*\<^sup>* (start_warden 0) w \<and>
     has_requests (resumer w) \<and> 0 < kern w"
proof -
  have new: "new_poll_warden pipe_os 0 = Inr (start_warden 0)"
    by (simp add: new_poll_warden_def create_pipe_def pipe_os_def quiet_os_def start_warden_def)
  have pipe: "wake_pipe pipe_os (wakeup_read (start_warden 0)) (wakeup_write (start_warden 0)) (\<lambda>k. k)"
    by (auto simp: wake_pipe_def keeps_def pipe_os_def quiet_os_def start_warden_def)
  have beh: "wake_behaved (wakeup_read (start_warden 0)) (wakeup_write (start_warden 0)) (\<lambda>k. k)
      pipe_os self_queue"
    by (simp add: wake_behaved_def self_queue_def)
  let ?w = "resume pipe_os self_queue (Coro 1) (start_warden 0)"
  have steps: "(loop_step pipe_os self_queue)\<^sup>*\<^sup>* (start_warden 0) ?w"
    by (rule r_into_rtranclp, rule loop_step.start)
  have "has_requests (resumer ?w)"
    by (simp add: self_queue_def do_async_resume_resumer queue_eq has_requests_def)
  with poll_no_lost_wakeup [OF new pipe beh steps] steps show ?thesis by blast
qed



end
