(* ===== verification/UringIops.thy ===== *)
theory UringIops
  imports Warden
begin

text \<open>
  The io_uring warden's state and its IOPs (\<open>warden.uring.hpp\<close>, \<open>src/uring.hpp\<close>,
  \<open>src/uring.iops.cpp\<close>).
  liburing is not code of the repository: \<open>liburing\<close> is a record of functions over the kernel
  state. An SQE is a slot of the submission ring: \<open>ur_get_sqe\<close> hands one out, \<open>ur_fill\<close> is
  what the \<open>io_uring_prep_\<close> functions, \<open>io_uring_sqe_set_data\<close> and the flags leave in it.
  \<open>ur_wait\<close> and \<open>ur_peek\<close> show the next CQE, \<open>ur_seen\<close> consumes it.
  Completions are objects named by their address, as for the poll warden; following a pointer
  to a deleted one sets \<open>u_dangling\<close>.
\<close>

subsection \<open>liburing\<close>

datatype uring_op =
    PrepClose fd
  | PrepTimeout "int \<times> int"
  | PrepRead fd nat
  | PrepWrite fd "byte list"
  | PrepAccept fd
  | PrepConnect fd sockaddr
  | PrepPollAdd fd "16 word"
  | PrepLinkTimeout "int \<times> int"
  | PrepNop

record sqe =
  op :: uring_op
  user_data :: "cid option"      \<comment> \<open>\<open>None\<close> is the null pointer\<close>
  io_link :: bool                \<comment> \<open>\<open>IOSQE_IO_LINK\<close>\<close>

record cqe =
  cqe_data :: "cid option"
  res :: int

record 'k liburing =
  ur_os :: "'k posix_os"
  ur_queue_init :: "nat \<Rightarrow> nat \<Rightarrow> 'k \<Rightarrow> int \<times> 'k"
  ur_get_sqe :: "'k \<Rightarrow> nat option \<times> 'k"
  ur_fill :: "nat \<Rightarrow> sqe \<Rightarrow> 'k \<Rightarrow> 'k"
  ur_submit :: "'k \<Rightarrow> 'k"
  ur_wait :: "'k \<Rightarrow> int \<times> cqe \<times> 'k"
  ur_peek :: "'k \<Rightarrow> cqe option \<times> 'k"
  ur_seen :: "cqe \<Rightarrow> 'k \<Rightarrow> 'k"

subsection \<open>State\<close>

record delivery =
  u_kind :: iop_kind
  u_deadline :: "ns option"
  iop_exists :: bool
  is_outstanding :: bool
  iop_count :: "64 word"
  u_handle :: coro
  u_result :: "ret outcome"
  kts :: "int \<times> int"            \<comment> \<open>\<open>tv_sec\<close> and \<open>tv_nsec\<close>\<close>

record 'k uring_warden =
  outstanding :: "cid list"
  u_heap :: "cid \<Rightarrow> delivery option"
  u_next :: cid
  u_resumer :: async_resumption
  u_finished :: "nat list"
  u_dangling :: bool
  u_kern :: 'k

definition u_store :: "cid \<Rightarrow> delivery \<Rightarrow> 'k uring_warden \<Rightarrow> 'k uring_warden" where
  "u_store c d w = w\<lparr>u_heap := (u_heap w)(c \<mapsto> d)\<rparr>"

definition u_delete :: "cid \<Rightarrow> 'k uring_warden \<Rightarrow> 'k uring_warden" where
  "u_delete c w = w\<lparr>u_heap := (u_heap w)(c := None)\<rparr>"

subsection \<open>Submitting\<close>

definition next_sqe :: "'k liburing \<Rightarrow> 'k uring_warden \<Rightarrow> (exn + nat) \<times> 'k uring_warden" where
  "next_sqe ur w =
     (case ur_get_sqe ur (u_kern w) of
        (Some s, k) \<Rightarrow> (Inr s, w\<lparr>u_kern := k\<rparr>)
      | (None, k) \<Rightarrow>
          (Inl (RuntimeError ''No more SQEs are available in the ring''), w\<lparr>u_kern := k\<rparr>))"

definition fill_sqe :: "'k liburing \<Rightarrow> nat \<Rightarrow> sqe \<Rightarrow> 'k uring_warden \<Rightarrow> 'k uring_warden" where
  "fill_sqe ur s q w = w\<lparr>u_kern := ur_fill ur s q (u_kern w)\<rparr>"

definition setup_submission ::
  "'k liburing \<Rightarrow> cid \<Rightarrow> delivery \<Rightarrow> coro \<Rightarrow> 'k uring_warden \<Rightarrow> (exn + nat) \<times> 'k uring_warden" where
  "setup_submission ur c d h w = next_sqe ur (u_store c (d\<lparr>u_handle := h\<rparr>) w)"

text \<open>
  \<open>setup_timeout\<close>, with the operation already prepared in slot \<open>s\<close>. A deadline links the
  SQE to a time out of its own, in a second slot.
\<close>

definition setup_timeout ::
  "'k liburing \<Rightarrow> cid \<Rightarrow> delivery \<Rightarrow> nat \<Rightarrow> uring_op \<Rightarrow> 'k uring_warden
    \<Rightarrow> (exn + coro) \<times> 'k uring_warden" where
  "setup_timeout ur c d s p w =
     (case u_deadline d of
        None \<Rightarrow>
          (Inr NoopCoro, fill_sqe ur s \<lparr>op = p, user_data = Some c, io_link = False\<rparr> w)
      | Some dl \<Rightarrow>
          (case next_sqe ur (fill_sqe ur s \<lparr>op = p, user_data = Some c, io_link = True\<rparr> w) of
             (Inl e, w1) \<Rightarrow> (Inl e, w1)
           | (Inr ts, w1) \<Rightarrow>
               (let (now, k) = os_now (ur_os ur) (u_kern w1);
                    remaining = dl - now;
                    t = (0, if remaining > 0 then remaining else 0);
                    w2 = fill_sqe ur ts
                           \<lparr>op = PrepLinkTimeout t, user_data = Some c, io_link = False\<rparr>
                           (w1\<lparr>u_kern := k\<rparr>)
                in (Inr NoopCoro, u_store c (d\<lparr>kts := t, iop_count := 2\<rparr>) w2))))"

definition submit_iop ::
  "'k liburing \<Rightarrow> cid \<Rightarrow> delivery \<Rightarrow> uring_op \<Rightarrow> coro \<Rightarrow> 'k uring_warden
    \<Rightarrow> (exn + coro) \<times> 'k uring_warden" where
  "submit_iop ur c d p h w =
     (case setup_submission ur c d h w of
        (Inl e, w1) \<Rightarrow> (Inl e, w1)
      | (Inr s, w1) \<Rightarrow> setup_timeout ur c (d\<lparr>u_handle := h\<rparr>) s p w1)"

text \<open>\<open>sleep_completion::await_suspend\<close>, which submits its own time out without a link.\<close>

definition submit_sleep ::
  "'k liburing \<Rightarrow> cid \<Rightarrow> delivery \<Rightarrow> coro \<Rightarrow> 'k uring_warden \<Rightarrow> (exn + coro) \<times> 'k uring_warden"
where
  "submit_sleep ur c d h w =
     (case setup_submission ur c d h w of
        (Inl e, w1) \<Rightarrow> (Inl e, w1)
      | (Inr s, w1) \<Rightarrow>
          (Inr NoopCoro,
           fill_sqe ur s \<lparr>op = PrepTimeout (kts d), user_data = Some c, io_link = False\<rparr> w1))"

definition uring_await_suspend ::
  "'k liburing \<Rightarrow> cid \<Rightarrow> coro \<Rightarrow> 'k uring_warden \<Rightarrow> (exn + coro) \<times> 'k uring_warden" where
  "uring_await_suspend ur c h w =
     (case u_heap w c of
        None \<Rightarrow> (Inr NoopCoro, w\<lparr>u_dangling := True\<rparr>)
      | Some d \<Rightarrow>
          (case u_kind d of
             Close f \<Rightarrow> submit_iop ur c d (PrepClose f) h w
           | Sleep t \<Rightarrow> submit_sleep ur c d h w
           | ReadSome f n \<Rightarrow> submit_iop ur c d (PrepRead f n) h w
           | WriteSome f bs \<Rightarrow> submit_iop ur c d (PrepWrite f bs) h w
           | Accept f \<Rightarrow> submit_iop ur c d (PrepAccept f) h w
           | Connect f a \<Rightarrow> submit_iop ur c d (PrepConnect f a) h w
           | ReadReady f \<Rightarrow> submit_iop ur c d (PrepPollAdd f 1) h w
           | WriteReady f \<Rightarrow> submit_iop ur c d (PrepPollAdd f 4) h w))"

subsection \<open>The result of an operation\<close>

definition u_fail :: "int \<Rightarrow> string \<Rightarrow> delivery \<Rightarrow> delivery" where
  "u_fail e m d = d\<lparr>u_result := assign_void \<lparr>error = e, message = m\<rparr> (u_result d)\<rparr>"

definition u_succeed :: "ret \<Rightarrow> delivery \<Rightarrow> delivery" where
  "u_succeed r d = d\<lparr>u_result := assign_value r (u_result d)\<rparr>"

text \<open>
  \<open>deliver\<close> up to the resumption: the updated completion, or \<open>None\<close> where it returns early.
  First \<open>completion<R>\<close>, then \<open>completion<void>\<close>, then the override of sleep.
\<close>

definition deliver_value :: "int \<Rightarrow> delivery \<Rightarrow> delivery option" where
  "deliver_value rc d =
     (if rc < 0 then
        (if u_deadline d \<noteq> None \<and> rc = - ECANCELED then None
         else Some (u_fail (- rc) ''uring IOP'' d))
      else Some (u_succeed (case u_kind d of Accept f \<Rightarrow> RFd rc | _ \<Rightarrow> RSize (nat rc)) d))"

definition deliver_void :: "int \<Rightarrow> delivery \<Rightarrow> delivery option" where
  "deliver_void rc d =
     (if rc = - ETIME then Some (u_fail ETIME ''uring IOP timeout'' d)
      else if u_deadline d \<noteq> None \<and> rc = - ECANCELED then None
      else if rc < 0 then Some (u_fail (- rc) ''uring IOP'' d)
      else Some d)"

definition deliver_result :: "int \<Rightarrow> delivery \<Rightarrow> delivery option" where
  "deliver_result rc d =
     (case u_kind d of
        Sleep t \<Rightarrow> deliver_void (if rc = - ETIME then 0 else rc) d
      | _ \<Rightarrow> if is_void (u_kind d) then deliver_void rc d else deliver_value rc d)"

definition u_value :: "delivery \<Rightarrow> exn + ret option" where
  "u_value d =
     (if is_void (u_kind d)
      then (case value_void (u_result d) of Inl e \<Rightarrow> Inl e | Inr _ \<Rightarrow> Inr None)
      else (case value_rvalue (u_result d) of Inl e \<Rightarrow> Inl e | Inr r \<Rightarrow> Inr (Some r)))"

subsection \<open>Creating and destroying IOPs\<close>

definition new_delivery ::
  "iop_kind \<Rightarrow> ns option \<Rightarrow> int \<times> int \<Rightarrow> 'k uring_warden \<Rightarrow> cid \<times> 'k uring_warden" where
  "new_delivery k dl t w =
     (let c = u_next w;
          d = \<lparr>u_kind = k, u_deadline = dl, iop_exists = True, is_outstanding = False,
               iop_count = 1, u_handle = NullCoro, u_result = no_outcome, kts = t\<rparr>
      in (c, u_store c d (w\<lparr>u_next := Suc c\<rparr>)))"

fun uring_new_iop :: "iop_kind \<Rightarrow> ns option \<Rightarrow> 'k uring_warden \<Rightarrow> cid \<times> 'k uring_warden" where
  "uring_new_iop (Close f) dl w = new_delivery (Close f) None (0, 0) w"
| "uring_new_iop (Sleep t) dl w = new_delivery (Sleep t) None (0, t) w"
| "uring_new_iop k dl w = new_delivery k dl (0, 0) w"

text \<open>\<open>delete_due_to_iop_destructed\<close> and the \<open>delete\<close> in \<open>~iop\<close>.\<close>

definition delete_due_to_iop_destructed ::
  "cid \<Rightarrow> delivery \<Rightarrow> 'k uring_warden \<Rightarrow> bool \<times> 'k uring_warden" where
  "delete_due_to_iop_destructed c d w =
     (if iop_count d = 0 then (True, u_store c (d\<lparr>iop_exists := False\<rparr>) w)
      else (False,
            u_store c (d\<lparr>iop_exists := False, is_outstanding := True\<rparr>)
              (w\<lparr>outstanding := outstanding w @ [c]\<rparr>)))"

definition uring_iop_destroy :: "cid \<Rightarrow> 'k uring_warden \<Rightarrow> 'k uring_warden" where
  "uring_iop_destroy c w =
     (case u_heap w c of
        None \<Rightarrow> w\<lparr>u_dangling := True\<rparr>
      | Some d \<Rightarrow>
          (let (delete, w1) = delete_due_to_iop_destructed c d w
           in if delete then u_delete c w1 else w1))"

end
