(* ===== verification/UringWarden.thy ===== *)
theory UringWarden
  imports UringIops
begin

text \<open>
  The io_uring loop (\<open>src/uring.warden.cpp\<close>): consuming completion queue entries, deferred
  resumption and its wake-up by a no-op, \<open>run_batch\<close> and \<open>run_until\<close>. As for the poll warden
  the coroutines are a parameter, and the loops are partial functions.
\<close>

subsection \<open>Waking the loop\<close>

definition uring_wake_event_loop ::
  "'k liburing \<Rightarrow> 'k uring_warden \<Rightarrow> (exn + unit) \<times> 'k uring_warden" where
  "uring_wake_event_loop ur w =
     (case next_sqe ur w of
        (Inl e, w1) \<Rightarrow> (Inl e, w1)
      | (Inr s, w1) \<Rightarrow>
          (let w2 = fill_sqe ur s \<lparr>op = PrepNop, user_data = None, io_link = False\<rparr> w1
           in (Inr (), w2\<lparr>u_kern := ur_submit ur (u_kern w2)\<rparr>)))"

definition uring_do_async_resume ::
  "'k liburing \<Rightarrow> coro list \<Rightarrow> 'k uring_warden \<Rightarrow> (exn + unit) \<times> 'k uring_warden" where
  "uring_do_async_resume ur handles w =
     (let was_empty = (\<not> has_requests (u_resumer w));
          (queued_any, a) = queue handles (u_resumer w);
          w1 = w\<lparr>u_resumer := a\<rparr>
      in if queued_any \<and> was_empty then uring_wake_event_loop ur w1 else (Inr (), w1))"

subsection \<open>The application\<close>

text \<open>
  An exception thrown by a call goes to the coroutine that made it; what the coroutine does
  next is part of its sequence of calls.
\<close>

fun uring_exec :: "'k liburing \<Rightarrow> 'k act \<Rightarrow> 'k uring_warden \<Rightarrow> 'k uring_warden" where
  "uring_exec ur (NewIop k dl) w = snd (uring_new_iop k dl w)"
| "uring_exec ur (Await c h) w = snd (uring_await_suspend ur c (Coro h) w)"
| "uring_exec ur (DestroyIop c) w = uring_iop_destroy c w"
| "uring_exec ur (AsyncResume hs) w = snd (uring_do_async_resume ur hs w)"
| "uring_exec ur (Finish h) w = w\<lparr>u_finished := h # u_finished w\<rparr>"
| "uring_exec ur (Kernel f) w = w\<lparr>u_kern := f (u_kern w)\<rparr>"

type_synonym 'k uring_user = "nat \<Rightarrow> 'k uring_warden \<Rightarrow> 'k act list"

fun uring_resume ::
  "'k liburing \<Rightarrow> 'k uring_user \<Rightarrow> coro \<Rightarrow> 'k uring_warden \<Rightarrow> 'k uring_warden" where
  "uring_resume ur user NullCoro w = w\<lparr>u_dangling := True\<rparr>"
| "uring_resume ur user NoopCoro w = w"
| "uring_resume ur user (Coro h) w = fold (uring_exec ur) (user h w) w"

definition uring_resume_queued ::
  "'k liburing \<Rightarrow> 'k uring_user \<Rightarrow> 'k uring_warden \<Rightarrow> 'k uring_warden" where
  "uring_resume_queued ur user w =
     resume_all u_resumer (\<lambda>a w. w\<lparr>u_resumer := a\<rparr>) (uring_resume ur user) w"

subsection \<open>\<open>execute\<close>\<close>

definition deliver ::
  "'k liburing \<Rightarrow> 'k uring_user \<Rightarrow> cid \<Rightarrow> delivery \<Rightarrow> int \<Rightarrow> 'k uring_warden \<Rightarrow> 'k uring_warden"
where
  "deliver ur user c d rc w =
     (case deliver_result rc d of
        None \<Rightarrow> w
      | Some d1 \<Rightarrow> uring_resume ur user (u_handle d1) (u_store c d1 w))"

text \<open>
  The count-down after the delivery. The completion is read again, since the coroutine may
  have ended its IOP; it is read through the pointer, which may dangle.
\<close>

definition count_down :: "cid \<Rightarrow> 'k uring_warden \<Rightarrow> 'k uring_warden" where
  "count_down c w =
     (case u_heap w c of
        None \<Rightarrow> w\<lparr>u_dangling := True\<rparr>
      | Some d \<Rightarrow>
          (let w1 = (if is_outstanding d then w\<lparr>outstanding := removeAll c (outstanding w)\<rparr>
                     else w);
               d1 = d\<lparr>iop_count := iop_count d - 1\<rparr>;
               w2 = u_store c d1 w1
           in if iop_count d1 = 0 \<and> \<not> iop_exists d1 then u_delete c w2 else w2))"

definition execute ::
  "'k liburing \<Rightarrow> 'k uring_user \<Rightarrow> cqe \<Rightarrow> 'k uring_warden \<Rightarrow> 'k uring_warden" where
  "execute ur user cq w =
     (let w1 = w\<lparr>u_kern := ur_seen ur cq (u_kern w)\<rparr>
      in case cqe_data cq of
           None \<Rightarrow> w1
         | Some c \<Rightarrow>
             (case u_heap w1 c of
                None \<Rightarrow> w1\<lparr>u_dangling := True\<rparr>
              | Some d \<Rightarrow>
                  count_down c (if iop_exists d then deliver ur user c d (res cq) w1 else w1)))"

subsection \<open>\<open>run_batch\<close> and \<open>run_until\<close>\<close>

partial_function (option) peek_loop ::
  "'k liburing \<Rightarrow> 'k uring_user \<Rightarrow> 'k uring_warden \<Rightarrow> 'k uring_warden option" where
  "peek_loop ur user w =
     (case ur_peek ur (u_kern w) of
        (None, k) \<Rightarrow> Some (w\<lparr>u_kern := k\<rparr>)
      | (Some cq, k) \<Rightarrow> peek_loop ur user (execute ur user cq (w\<lparr>u_kern := k\<rparr>)))"

definition uring_run_batch ::
  "'k liburing \<Rightarrow> 'k uring_user \<Rightarrow> 'k uring_warden \<Rightarrow> 'k uring_warden option" where
  "uring_run_batch ur user w =
     (case peek_loop ur user (w\<lparr>u_kern := ur_submit ur (u_kern w)\<rparr>) of
        None \<Rightarrow> None
      | Some w1 \<Rightarrow> Some (uring_resume_queued ur user w1))"

partial_function (option) uring_run_loop ::
  "'k liburing \<Rightarrow> 'k uring_user \<Rightarrow> nat \<Rightarrow> 'k uring_warden
    \<Rightarrow> ((exn + unit) \<times> 'k uring_warden) option" where
  "uring_run_loop ur user coro w =
     (if coro \<in> set (u_finished w) then Some (Inr (), w)
      else
        (let (ret, cq, k) = ur_wait ur (ur_submit ur (u_kern w));
             w1 = w\<lparr>u_kern := k\<rparr>
         in if ret = - EINTR then uring_run_loop ur user coro w1
            else if ret < 0 then Some (Inl (SystemError (- ret) ''uring_wait_cqe''), w1)
            else (case peek_loop ur user (execute ur user cq w1) of
                    None \<Rightarrow> None
                  | Some w2 \<Rightarrow> uring_run_loop ur user coro (uring_resume_queued ur user w2))))"

definition uring_run_until ::
  "'k liburing \<Rightarrow> 'k uring_user \<Rightarrow> nat \<Rightarrow> 'k uring_warden
    \<Rightarrow> ((exn + unit) \<times> 'k uring_warden) option" where
  "uring_run_until ur user coro w =
     uring_run_loop ur user coro (uring_resume ur user (Coro coro) w)"

subsection \<open>Construction and teardown\<close>

definition new_uring_warden ::
  "'k liburing \<Rightarrow> nat \<Rightarrow> nat \<Rightarrow> 'k \<Rightarrow> exn + 'k uring_warden" where
  "new_uring_warden ur entries flags k =
     (let (ret, k1) = ur_queue_init ur entries flags k in
      if ret < 0 then Inl (SystemError (- ret) ''uring_queue_init'')
      else Inr \<lparr>outstanding = [], u_heap = (\<lambda>_. None), u_next = 0, u_resumer = no_requests,
                u_finished = [], u_dangling = False, u_kern = k1\<rparr>)"

text \<open>\<open>~impl\<close>: delete what is still outstanding.\<close>

definition uring_teardown :: "'k uring_warden \<Rightarrow> 'k uring_warden" where
  "uring_teardown w = fold u_delete (outstanding w) w"

text \<open>\<open>~uring_warden\<close>: the ring is closed first (\<open>io_uring_queue_exit\<close>, a parameter), then \<open>~impl\<close>.\<close>

definition uring_destroy :: "('k \<Rightarrow> 'k) \<Rightarrow> 'k uring_warden \<Rightarrow> 'k uring_warden" where
  "uring_destroy queue_exit w = uring_teardown (w\<lparr>u_kern := queue_exit (u_kern w)\<rparr>)"

end
