(* ===== verification/UringSafety.thy ===== *)
theory UringSafety
  imports UringWarden
begin

text \<open>
  Memory safety of the io_uring warden. The ring keeps pointers to completions, so a
  completion must live until its last CQE is consumed. \<open>ring_laws\<close> states what the code
  relies on of liburing: an observer \<open>fl k u\<close> counts the entries with user data \<open>u\<close> that were
  put into the ring and not yet marked seen; filling a slot adds one, \<open>seen\<close> removes one,
  nothing else changes the counts, and only entries that are in flight are ever shown.
\<close>

type_synonym 'k in_flight = "'k \<Rightarrow> cid option \<Rightarrow> nat"

definition ring_laws :: "'k liburing \<Rightarrow> 'k in_flight \<Rightarrow> bool" where
  "ring_laws ur fl \<longleftrightarrow>
     (\<forall>k. fl (snd (ur_get_sqe ur k)) = fl k) \<and>
     (\<forall>s q k. fl (ur_fill ur s q k) = (fl k)(user_data q := Suc (fl k (user_data q)))) \<and>
     (\<forall>k. fl (ur_submit ur k) = fl k) \<and>
     (\<forall>k. fl (snd (snd (ur_wait ur k))) = fl k) \<and>
     (\<forall>k ret cq k'. ur_wait ur k = (ret, cq, k') \<longrightarrow> ret \<ge> 0 \<longrightarrow> 0 < fl k (cqe_data cq)) \<and>
     (\<forall>k. fl (snd (ur_peek ur k)) = fl k) \<and>
     (\<forall>k cq k'. ur_peek ur k = (Some cq, k') \<longrightarrow> 0 < fl k (cqe_data cq)) \<and>
     (\<forall>cq k. fl (ur_seen ur cq k) = (fl k)(cqe_data cq := fl k (cqe_data cq) - 1)) \<and>
     (\<forall>k. fl (snd (os_now (ur_os ur) k)) = fl k)"

lemma ring_lawsD:
  assumes "ring_laws ur fl"
  shows "ur_get_sqe ur k = (r, k1) \<Longrightarrow> fl k1 = fl k"
    and "fl (ur_fill ur s q k) = (fl k)(user_data q := Suc (fl k (user_data q)))"
    and "fl (ur_submit ur k) = fl k"
    and "ur_wait ur k = (ret, cq, k2) \<Longrightarrow> fl k2 = fl k"
    and "ur_wait ur k = (ret, cq, k2) \<Longrightarrow> ret \<ge> 0 \<Longrightarrow> 0 < fl k (cqe_data cq)"
    and "ur_peek ur k = (p, k3) \<Longrightarrow> fl k3 = fl k"
    and "ur_peek ur k = (Some cq, k3) \<Longrightarrow> 0 < fl k (cqe_data cq)"
    and "fl (ur_seen ur cq k) = (fl k)(cqe_data cq := fl k (cqe_data cq) - 1)"
    and "os_now (ur_os ur) k = (now, k4) \<Longrightarrow> fl k4 = fl k"
  using assms unfolding ring_laws_def by (metis fst_conv snd_conv)+

subsection \<open>The invariant\<close>

text \<open>
  \<open>counted d n\<close>: completion \<open>d\<close> with \<open>n\<close> entries to come has counted them, or was never
  submitted and still has its initial count of one.
\<close>

definition counted :: "delivery \<Rightarrow> nat \<Rightarrow> bool" where
  "counted d n \<longleftrightarrow>
     (unat (iop_count d) = n \<or> n = 0 \<and> iop_count d = 1) \<and>
     (0 < n \<longrightarrow> (\<exists>h. u_handle d = Coro h)) \<and>
     (u_handle d = NullCoro \<longrightarrow> iop_count d = 1) \<and>
     (\<not> iop_exists d \<longrightarrow> iop_count d \<noteq> 0) \<and>
     (is_outstanding d \<longrightarrow> \<not> iop_exists d)"

text \<open>\<open>busy\<close> is the completion whose entry was consumed but not yet counted down.\<close>

definition to_come :: "'k in_flight \<Rightarrow> cid option \<Rightarrow> 'k uring_warden \<Rightarrow> cid \<Rightarrow> nat" where
  "to_come fl busy w c = fl (u_kern w) (Some c) + (if busy = Some c then 1 else 0)"

definition heap_counted :: "'k in_flight \<Rightarrow> cid option \<Rightarrow> 'k uring_warden \<Rightarrow> bool" where
  "heap_counted fl busy w \<longleftrightarrow>
     (\<forall>c. u_heap w c = None \<longrightarrow> to_come fl busy w c = 0) \<and>
     (\<forall>c d. u_heap w c = Some d \<longrightarrow> c < u_next w \<and> counted d (to_come fl busy w c))"

definition outstanding_ok :: "'k uring_warden \<Rightarrow> bool" where
  "outstanding_ok w \<longleftrightarrow>
     distinct (outstanding w) \<and>
     (\<forall>c\<in>set (outstanding w).
        \<exists>d. u_heap w c = Some d \<and> \<not> iop_exists d \<and> is_outstanding d)"

definition uinv :: "'k in_flight \<Rightarrow> cid option \<Rightarrow> 'k uring_warden \<Rightarrow> bool" where
  "uinv fl busy w \<longleftrightarrow> \<not> u_dangling w \<and> heap_counted fl busy w \<and> outstanding_ok w"

lemma uinv_frame [simp]:
  "uinv fl busy (w\<lparr>u_resumer := a\<rparr>) = uinv fl busy w"
  "uinv fl busy (w\<lparr>u_finished := f\<rparr>) = uinv fl busy w"
  by (simp_all add: uinv_def heap_counted_def outstanding_ok_def to_come_def)

lemma uinv_kern:
  "fl k = fl (u_kern w) \<Longrightarrow> uinv fl busy (w\<lparr>u_kern := k\<rparr>) = uinv fl busy w"
  by (simp add: uinv_def heap_counted_def outstanding_ok_def to_come_def)

lemma uinv_live:
  assumes "uinv fl busy w" "u_heap w c = Some d"
  shows "c < u_next w" "counted d (to_come fl busy w c)"
  using assms by (auto simp: uinv_def heap_counted_def)

lemma uinv_in_flight_live:
  assumes "uinv fl busy w" "0 < to_come fl busy w c"
  shows "\<exists>d. u_heap w c = Some d"
  using assms by (cases "u_heap w c") (auto simp: uinv_def heap_counted_def)

text \<open>Replacing one completion, with any change of the ring that concerns only it.\<close>

lemma uinv_update:
  assumes "uinv fl busy w" "u_heap w c = Some d"
    and "counted d' (to_come fl busy' (w\<lparr>u_kern := k\<rparr>) c)"
    and "\<And>b. b \<noteq> c \<Longrightarrow> to_come fl busy' (w\<lparr>u_kern := k\<rparr>) b = to_come fl busy w b"
    and "c \<in> set (outstanding w) \<longrightarrow> \<not> iop_exists d' \<and> is_outstanding d'"
  shows "uinv fl busy' (u_store c d' (w\<lparr>u_kern := k\<rparr>))"
proof -
  have "to_come fl busy' (u_store c d' (w\<lparr>u_kern := k\<rparr>)) b =
      (if b = c then to_come fl busy' (w\<lparr>u_kern := k\<rparr>) c else to_come fl busy w b)" for b
    using assms(4) by (simp add: u_store_def to_come_def)
  with assms(1-3,5) show ?thesis
    by (auto simp: uinv_def heap_counted_def outstanding_ok_def u_store_def)
qed

lemma uinv_new:
  assumes "uinv fl busy w"
  shows "uinv fl busy (snd (uring_new_iop k dl w))"
proof -
  have "u_heap w (u_next w) = None"
    using uinv_live(1) [OF assms, of "u_next w"] by (cases "u_heap w (u_next w)") auto
  moreover from this have "to_come fl busy w (u_next w) = 0"
    using assms by (auto simp: uinv_def heap_counted_def)
  ultimately have "uinv fl busy (snd (new_delivery k' dl' t w))" for k' dl' t
    using assms
    by (fastforce simp: uinv_def heap_counted_def outstanding_ok_def to_come_def new_delivery_def
        u_store_def counted_def Let_def intro: less_SucI)
  then show ?thesis by (cases k) simp_all
qed

subsection \<open>Submitting\<close>

lemma next_sqe_fl:
  "ring_laws ur fl \<Longrightarrow> next_sqe ur w = (r, w1) \<Longrightarrow> \<exists>k. w1 = w\<lparr>u_kern := k\<rparr> \<and> fl k = fl (u_kern w)"
  by (auto simp: next_sqe_def ring_lawsD(1) split: prod.splits option.splits)

lemma counted_fresh:
  "counted d n \<Longrightarrow> u_handle d = NullCoro \<Longrightarrow> n = 0 \<and> iop_count d = 1"
  by (auto simp: counted_def)

lemma not_outstanding: "uinv fl busy w \<Longrightarrow> u_heap w c = Some d \<Longrightarrow> iop_exists d \<Longrightarrow> c \<notin> set (outstanding w)"
  by (auto simp: uinv_def outstanding_ok_def)

text \<open>The state between a submission's first and its last step.\<close>

lemma submitted_ok:
  assumes inv: "uinv fl busy w" and d: "u_heap w c = Some d" "iop_exists d" "u_handle d = NullCoro"
    and k: "fl k = (fl (u_kern w))(Some c := n)"
    and d': "d' = d\<lparr>u_handle := Coro h, iop_count := m, kts := t\<rparr>"
    and m: "unat m = n \<or> n = 0 \<and> m = 1"
  shows "uinv fl busy (u_store c d' (w\<lparr>u_kern := k\<rparr>))"
proof (rule uinv_update [OF inv d(1)])
  have c: "counted d (to_come fl busy w c)" by (rule uinv_live [OF inv d(1)])
  then have "to_come fl busy w c = 0" using counted_fresh d(3) by blast
  then show "counted d' (to_come fl busy (w\<lparr>u_kern := k\<rparr>) c)"
    using m d(2) c by (auto simp: d' counted_def to_come_def k)
  show "b \<noteq> c \<Longrightarrow> to_come fl busy (w\<lparr>u_kern := k\<rparr>) b = to_come fl busy w b" for b
    by (simp add: to_come_def k)
  show "c \<in> set (outstanding w) \<longrightarrow> \<not> iop_exists d' \<and> is_outstanding d'"
    using not_outstanding [OF inv d(1,2)] by simp
qed

lemma fresh_in_flight:
  assumes "uinv fl busy w" "u_heap w c = Some d" "u_handle d = NullCoro"
  shows "fl (u_kern w) (Some c) = 0" "iop_count d = 1"
  using counted_fresh [OF uinv_live(2) [OF assms(1,2)] assms(3)] by (auto simp: to_come_def)

lemma store_twice [simp]: "u_store c d2 (u_store c d1 w) = u_store c d2 w"
  by (simp add: u_store_def)

lemma store_kern [simp]:
  "(u_store c d w)\<lparr>u_kern := k\<rparr> = u_store c d (w\<lparr>u_kern := k\<rparr>)"
  "u_kern (u_store c d w) = u_kern w"
  by (simp_all add: u_store_def)

lemma setup_submission_ok:
  assumes laws: "ring_laws ur fl" and inv: "uinv fl busy w"
    and d: "u_heap w c = Some d" "iop_exists d" "u_handle d = NullCoro"
    and run: "setup_submission ur c d (Coro h) w = (r, w1)"
  shows "\<exists>k. w1 = u_store c (d\<lparr>u_handle := Coro h\<rparr>) (w\<lparr>u_kern := k\<rparr>) \<and>
    fl k = fl (u_kern w) \<and> uinv fl busy w1"
proof -
  from run next_sqe_fl [OF laws] obtain k where
    k: "w1 = (u_store c (d\<lparr>u_handle := Coro h\<rparr>) w)\<lparr>u_kern := k\<rparr>" "fl k = fl (u_kern w)"
    unfolding setup_submission_def by (metis store_kern(2))
  have "fl k = (fl (u_kern w))(Some c := 0)"
    using k(2) fresh_in_flight [OF inv d(1,3)] by auto
  then have "uinv fl busy (u_store c (d\<lparr>u_handle := Coro h\<rparr>) (w\<lparr>u_kern := k\<rparr>))"
    by (rule submitted_ok [OF inv d, where m = 1 and t = "kts d" and h = h])
      (use fresh_in_flight [OF inv d(1,3)] in simp_all)
  with k show ?thesis by auto
qed

lemma submit_iop_ok:
  assumes laws: "ring_laws ur fl" and inv: "uinv fl busy w"
    and d: "u_heap w c = Some d" "iop_exists d" "u_handle d = NullCoro"
  shows "uinv fl busy (snd (submit_iop ur c d p (Coro h) w))"
proof -
  let ?d = "d\<lparr>u_handle := Coro h\<rparr>"
  note fresh = fresh_in_flight [OF inv d(1,3)]
  obtain r w1 where s: "setup_submission ur c d (Coro h) w = (r, w1)"
    by (cases "setup_submission ur c d (Coro h) w")
  from setup_submission_ok [OF laws inv d s] obtain k where
    w1: "w1 = u_store c ?d (w\<lparr>u_kern := k\<rparr>)" and k: "fl k = fl (u_kern w)"
    and inv1: "uinv fl busy w1" by auto
  have one: "uinv fl busy (u_store c ?d (w\<lparr>u_kern := k'\<rparr>))"
    if "fl k' = (fl (u_kern w))(Some c := 1)" for k'
    by (rule submitted_ok [OF inv d that, where m = 1 and t = "kts d" and h = h])
      (use fresh in simp_all)
  have two: "uinv fl busy (u_store c (?d\<lparr>kts := t, iop_count := 2\<rparr>) (w\<lparr>u_kern := k'\<rparr>))"
    if "fl k' = (fl (u_kern w))(Some c := 2)" for k' t
    by (rule submitted_ok [OF inv d that, where m = 2 and t = t and h = h]) simp_all
  show ?thesis
  proof (cases r)
    case (Inl e)
    with s inv1 show ?thesis by (simp add: submit_iop_def)
  next
    case (Inr slot)
    have f1: "fl (ur_fill ur slot \<lparr>op = p, user_data = Some c, io_link = b\<rparr> k) =
        (fl (u_kern w))(Some c := 1)" for b
      using fresh by (simp add: ring_lawsD(2) [OF laws] k)
    show ?thesis
    proof (cases "u_deadline d")
      case None
      with Inr s w1 one [OF f1] show ?thesis
        by (simp add: submit_iop_def setup_timeout_def fill_sqe_def)
    next
      case (Some dl)
      let ?k1 = "ur_fill ur slot \<lparr>op = p, user_data = Some c, io_link = True\<rparr> k"
      obtain r2 w2 where s2: "next_sqe ur (u_store c ?d (w\<lparr>u_kern := ?k1\<rparr>)) = (r2, w2)"
        by (cases "next_sqe ur (u_store c ?d (w\<lparr>u_kern := ?k1\<rparr>))")
      from next_sqe_fl [OF laws this] obtain k2 where
        w2: "w2 = u_store c ?d (w\<lparr>u_kern := k2\<rparr>)" and k2: "fl k2 = (fl (u_kern w))(Some c := 1)"
        by (auto simp: f1)
      show ?thesis
      proof (cases r2)
        case (Inl e)
        with Some Inr s w1 s2 w2 one [OF k2] show ?thesis
          by (simp add: submit_iop_def setup_timeout_def fill_sqe_def)
      next
        case (Inr ts)
        obtain now k3 where now: "os_now (ur_os ur) k2 = (now, k3)"
          by (cases "os_now (ur_os ur) k2")
        have "fl (ur_fill ur ts \<lparr>op = q, user_data = Some c, io_link = False\<rparr> k3) =
            (fl (u_kern w))(Some c := 2)" for q
          using ring_lawsD(9) [OF laws now] k2 by (simp add: ring_lawsD(2) [OF laws] numeral_2_eq_2)
        from two [OF this] Some \<open>r = Inr slot\<close> Inr s w1 s2 w2 now show ?thesis
          by (simp add: submit_iop_def setup_timeout_def fill_sqe_def Let_def)
      qed
    qed
  qed
qed

lemma submit_sleep_ok:
  assumes laws: "ring_laws ur fl" and inv: "uinv fl busy w"
    and d: "u_heap w c = Some d" "iop_exists d" "u_handle d = NullCoro"
  shows "uinv fl busy (snd (submit_sleep ur c d (Coro h) w))"
proof -
  note fresh = fresh_in_flight [OF inv d(1,3)]
  obtain r w1 where s: "setup_submission ur c d (Coro h) w = (r, w1)"
    by (cases "setup_submission ur c d (Coro h) w")
  from setup_submission_ok [OF laws inv d s] obtain k where
    w1: "w1 = u_store c (d\<lparr>u_handle := Coro h\<rparr>) (w\<lparr>u_kern := k\<rparr>)" and k: "fl k = fl (u_kern w)"
    and inv1: "uinv fl busy w1" by auto
  show ?thesis
  proof (cases r)
    case (Inl e)
    with s inv1 show ?thesis by (simp add: submit_sleep_def)
  next
    case (Inr slot)
    have "fl (ur_fill ur slot \<lparr>op = q, user_data = Some c, io_link = b\<rparr> k) =
        (fl (u_kern w))(Some c := 1)" for q b
      using fresh by (simp add: ring_lawsD(2) [OF laws] k)
    then have "uinv fl busy (u_store c (d\<lparr>u_handle := Coro h\<rparr>)
        (w\<lparr>u_kern := ur_fill ur slot \<lparr>op = q, user_data = Some c, io_link = b\<rparr> k\<rparr>))" for q b
      by (rule submitted_ok [OF inv d, where m = 1 and t = "kts d" and h = h])
        (use fresh in simp_all)
    then show ?thesis using Inr s w1 by (simp add: submit_sleep_def fill_sqe_def)
  qed
qed

lemma uring_await_ok:
  assumes "ring_laws ur fl" "uinv fl busy w"
    and "u_heap w c = Some d" "iop_exists d" "u_handle d = NullCoro"
  shows "uinv fl busy (snd (uring_await_suspend ur c (Coro h) w))"
  using submit_iop_ok [OF assms] submit_sleep_ok [OF assms] assms(3)
  by (simp add: uring_await_suspend_def split: iop_kind.splits)

subsection \<open>Ending an IOP, and the application\<close>

lemma uinv_delete:
  assumes "uinv fl busy w" "to_come fl busy w c = 0" "c \<notin> set (outstanding w)"
  shows "uinv fl busy (u_delete c w)"
  using assms by (auto simp: uinv_def heap_counted_def outstanding_ok_def to_come_def u_delete_def)

lemma uring_destroy_ok:
  assumes inv: "uinv fl busy w" and d: "u_heap w c = Some d" "iop_exists d"
  shows "uinv fl busy (uring_iop_destroy c w)"
proof (cases "iop_count d = 0")
  case True
  have "counted d (to_come fl busy w c)" by (rule uinv_live [OF inv d(1)])
  with True have "to_come fl busy w c = 0" by (auto simp: counted_def)
  moreover have "u_delete c (u_store c x w) = u_delete c w" for x
    by (simp add: u_delete_def u_store_def)
  ultimately show ?thesis
    using uinv_delete [OF inv] not_outstanding [OF inv d] d True
    by (simp add: uring_iop_destroy_def delete_due_to_iop_destructed_def Let_def)
next
  case False
  let ?d = "d\<lparr>iop_exists := False, is_outstanding := True\<rparr>"
  have c: "counted d (to_come fl busy w c)" by (rule uinv_live [OF inv d(1)])
  then have "counted ?d (to_come fl busy w c)" using False by (auto simp: counted_def)
  then have "uinv fl busy (u_store c ?d (w\<lparr>outstanding := outstanding w @ [c]\<rparr>))"
    using inv d not_outstanding [OF inv d]
    by (auto simp: uinv_def heap_counted_def outstanding_ok_def to_come_def u_store_def)
  with False d show ?thesis
    by (simp add: uring_iop_destroy_def delete_due_to_iop_destructed_def Let_def)
qed

text \<open>What an application may do: await a fresh IOP, end one it owns, leave the ring alone.\<close>

fun uring_lawful :: "'k in_flight \<Rightarrow> 'k act \<Rightarrow> 'k uring_warden \<Rightarrow> bool" where
  "uring_lawful fl (Await c h) w \<longleftrightarrow>
     (\<exists>d. u_heap w c = Some d \<and> iop_exists d \<and> u_handle d = NullCoro)"
| "uring_lawful fl (DestroyIop c) w \<longleftrightarrow> (\<exists>d. u_heap w c = Some d \<and> iop_exists d)"
| "uring_lawful fl (Kernel f) w \<longleftrightarrow> fl (f (u_kern w)) = fl (u_kern w)"
| "uring_lawful fl _ w \<longleftrightarrow> True"

lemma fl_wake:
  assumes laws: "ring_laws ur fl" and run: "uring_do_async_resume ur hs w = (r, w')"
  shows "\<exists>a k. w' = w\<lparr>u_resumer := a, u_kern := k\<rparr> \<and> (\<forall>c. fl k (Some c) = fl (u_kern w) (Some c))"
proof -
  obtain a where a: "queue hs (u_resumer w) = (fst (queue hs (u_resumer w)), a)"
    by (metis prod.collapse)
  obtain r1 w1 where n: "next_sqe ur (w\<lparr>u_resumer := a\<rparr>) = (r1, w1)"
    by (cases "next_sqe ur (w\<lparr>u_resumer := a\<rparr>)")
  from next_sqe_fl [OF laws this] obtain k where
    k: "w1 = w\<lparr>u_resumer := a, u_kern := k\<rparr>" "fl k = fl (u_kern w)" by auto
  let ?k = "ur_submit ur (ur_fill ur (projr r1) \<lparr>op = PrepNop, user_data = None, io_link = False\<rparr> k)"
  have "w' = w\<lparr>u_resumer := a, u_kern := u_kern w\<rparr> \<or> w' = w\<lparr>u_resumer := a, u_kern := k\<rparr> \<or>
      w' = w\<lparr>u_resumer := a, u_kern := ?k\<rparr>"
    using run a n k(1)
    by (cases r1) (auto simp: uring_do_async_resume_def uring_wake_event_loop_def fill_sqe_def
        Let_def split: if_splits prod.splits)
  moreover have "fl ?k (Some c) = fl (u_kern w) (Some c)" for c
    by (simp add: ring_lawsD(2,3) [OF laws] k)
  ultimately show ?thesis using k(2) by metis
qed

lemma uinv_wake:
  assumes "uinv fl busy w" "\<And>c. fl k (Some c) = fl (u_kern w) (Some c)"
  shows "uinv fl busy (w\<lparr>u_resumer := a, u_kern := k\<rparr>)"
  using assms by (simp add: uinv_def heap_counted_def outstanding_ok_def to_come_def)

lemma uring_exec_ok:
  assumes laws: "ring_laws ur fl" and inv: "uinv fl busy w" and l: "uring_lawful fl a w"
  shows "uinv fl busy (uring_exec ur a w)"
proof (cases a)
  case (Await c h)
  with l uring_await_ok [OF laws inv] show ?thesis by auto
next
  case (DestroyIop c)
  with l uring_destroy_ok [OF inv] show ?thesis by auto
next
  case (AsyncResume hs)
  obtain r w' where r: "uring_do_async_resume ur hs w = (r, w')"
    by (cases "uring_do_async_resume ur hs w")
  with fl_wake [OF laws r] uinv_wake [OF inv] AsyncResume show ?thesis by auto
next
  case (Kernel f)
  with l inv show ?thesis by (simp add: uinv_kern)
qed (use inv in \<open>simp_all add: uinv_new\<close>)

interpretation uring_app: warden_contract "uring_exec ur"
  "\<lambda>w. ring_laws ur fl \<and> uinv fl busy w" "uring_lawful fl"
  by unfold_locales (simp add: uring_exec_ok)

definition uring_behaved :: "'k liburing \<Rightarrow> 'k in_flight \<Rightarrow> 'k uring_user \<Rightarrow> bool" where
  "uring_behaved ur fl user \<longleftrightarrow>
     (\<forall>h w busy. uinv fl busy w \<longrightarrow>
        lawful_acts (uring_exec ur) (uring_lawful fl) (user h w) w)"

lemma uring_resume_ok:
  assumes "ring_laws ur fl" "uring_behaved ur fl user" "uinv fl busy w" "h \<noteq> NullCoro"
  shows "uinv fl busy (uring_resume ur user h w)"
  using assms uring_app.acts_inv [of ur fl busy w]
  by (cases h) (auto simp: uring_behaved_def)

end
