(* ===== verification/UringLoop.thy ===== *)
theory UringLoop
  imports UringSafety
begin

text \<open>
  The io_uring loop as a transition system, with the invariant carried through the delivery
  of completion queue entries and through every pass of \<open>run_until\<close> and \<open>run_batch\<close>.
\<close>

subsection \<open>Delivering an entry\<close>

lemma deliver_result_keeps:
  "deliver_result rc d = Some d1 \<Longrightarrow>
   u_handle d1 = u_handle d \<and> iop_count d1 = iop_count d \<and> iop_exists d1 = iop_exists d \<and>
   is_outstanding d1 = is_outstanding d \<and> u_kind d1 = u_kind d \<and> u_deadline d1 = u_deadline d"
  by (auto simp: deliver_result_def deliver_void_def deliver_value_def u_fail_def u_succeed_def
      split: iop_kind.splits if_splits)

lemma deliver_ok:
  assumes laws: "ring_laws ur fl" and wb: "uring_behaved ur fl user"
    and inv: "uinv fl (Some c) w" and d: "u_heap w c = Some d"
  shows "uinv fl (Some c) (deliver ur user c d rc w)"
proof (cases "deliver_result rc d")
  case None
  with inv show ?thesis by (simp add: deliver_def)
next
  case (Some d1)
  note same = deliver_result_keeps [OF Some]
  have c: "counted d (to_come fl (Some c) w c)" by (rule uinv_live [OF inv d])
  then have "u_handle d1 \<noteq> NullCoro" using same by (auto simp: counted_def to_come_def)
  moreover have "uinv fl (Some c) (u_store c d1 (w\<lparr>u_kern := u_kern w\<rparr>))"
    using inv d c same
    by (intro uinv_update [OF inv d]) (auto simp: counted_def to_come_def uinv_def outstanding_ok_def)
  ultimately show ?thesis
    using Some uring_resume_ok [OF laws wb] by (simp add: deliver_def)
qed

lemma unat_minus_one_word: "unat (n :: 64 word) = Suc m \<Longrightarrow> unat (n - 1) = m"
  by (metis diff_Suc_1 unat_0 nat.distinct(1) unat_minus_one)

lemma count_down_ok:
  assumes inv: "uinv fl (Some c) w"
  shows "uinv fl None (count_down c w)"
proof -
  obtain d where d: "u_heap w c = Some d"
    using uinv_in_flight_live [OF inv, of c] by (auto simp: to_come_def)
  let ?d1 = "d\<lparr>iop_count := iop_count d - 1\<rparr>"
  let ?out = "if is_outstanding d then removeAll c (outstanding w) else outstanding w"
  let ?w2 = "u_store c ?d1 (w\<lparr>outstanding := ?out\<rparr>)"
  let ?n = "fl (u_kern w) (Some c)"
  have c: "counted d (Suc ?n)" using uinv_live(2) [OF inv d] by (simp add: to_come_def)
  then have n: "unat (iop_count d) = Suc ?n" by (auto simp: counted_def)
  then have n1: "unat (iop_count ?d1) = ?n" by (simp add: unat_minus_one_word)
  have out: "c \<notin> set ?out" "distinct ?out" "set ?out \<subseteq> set (outstanding w)"
    using inv d by (auto simp: uinv_def outstanding_ok_def distinct_removeAll)
  have zero: "iop_count ?d1 = 0 \<longleftrightarrow> ?n = 0" using n1 by (metis unat_eq_0)
  have others: "to_come fl None w b = to_come fl (Some c) w b" if "b \<noteq> c" for b
    using that by (simp add: to_come_def)
  have tn: "to_come fl None w c = ?n" by (simp add: to_come_def)
  have tc: "to_come fl None (v\<lparr>u_heap := hp, outstanding := out'\<rparr>) b = to_come fl None v b"
    for v b hp out' by (simp add: to_come_def)
  show ?thesis
  proof (cases "?n = 0 \<and> \<not> iop_exists d")
    case True
    have "uinv fl None (w\<lparr>u_heap := (u_heap w)(c := None), outstanding := ?out\<rparr>)"
      using inv out True others
      unfolding uinv_def heap_counted_def outstanding_ok_def tc
      by (auto simp: others tn)
    moreover have "count_down c w = w\<lparr>u_heap := (u_heap w)(c := None), outstanding := ?out\<rparr>"
      using True d zero by (simp add: count_down_def u_store_def u_delete_def Let_def)
    ultimately show ?thesis by simp
  next
    case False
    have "counted ?d1 ?n" using c n1 False zero by (auto simp: counted_def)
    then have "uinv fl None (w\<lparr>u_heap := (u_heap w)(c \<mapsto> ?d1), outstanding := ?out\<rparr>)"
      using inv out d others
      unfolding uinv_def heap_counted_def outstanding_ok_def tc
      by (auto simp: others tn)
    moreover have "count_down c w = w\<lparr>u_heap := (u_heap w)(c \<mapsto> ?d1), outstanding := ?out\<rparr>"
      using False d zero by (auto simp: count_down_def u_store_def Let_def)
    ultimately show ?thesis by simp
  qed
qed

lemma execute_ok:
  assumes laws: "ring_laws ur fl" and wb: "uring_behaved ur fl user"
    and inv: "uinv fl None w" and fl: "0 < fl (u_kern w) (cqe_data cq)"
  shows "uinv fl None (execute ur user cq w)"
proof (cases "cqe_data cq")
  case None
  with inv show ?thesis
    by (simp add: execute_def Let_def uinv_def heap_counted_def outstanding_ok_def to_come_def
        ring_lawsD(8) [OF laws])
next
  case (Some c)
  let ?w1 = "w\<lparr>u_kern := ur_seen ur cq (u_kern w)\<rparr>"
  have "to_come fl (Some c) ?w1 b = to_come fl None w b" for b
    using fl Some by (cases "b = c") (simp_all add: to_come_def ring_lawsD(8) [OF laws])
  then have inv1: "uinv fl (Some c) ?w1"
    using inv by (simp add: uinv_def heap_counted_def outstanding_ok_def)
  obtain d where d: "u_heap w c = Some d"
    using uinv_in_flight_live [OF inv, of c] fl Some by (auto simp: to_come_def)
  then have "uinv fl (Some c) (if iop_exists d then deliver ur user c d (res cq) ?w1 else ?w1)"
    using deliver_ok [OF laws wb inv1] inv1 by simp
  from count_down_ok [OF this] show ?thesis
    using Some d by (simp add: execute_def Let_def)
qed

subsection \<open>The queues of deferred resumptions\<close>

lemma next_sqe_resumer [frame, simp]: "next_sqe ur w = (r, w1) \<Longrightarrow> u_resumer w1 = u_resumer w"
  by (auto simp: next_sqe_def split: prod.splits option.splits)

lemma uring_update_resumer [frame, simp]:
  "u_resumer (u_store c d w) = u_resumer w" "u_resumer (u_delete c w) = u_resumer w"
  "u_resumer (fill_sqe ur s q w) = u_resumer w"
  by (simp_all add: u_store_def u_delete_def fill_sqe_def)

lemma setup_timeout_resumer [frame, simp]:
  "u_resumer (snd (setup_timeout ur c d s p w)) = u_resumer w"
  by (auto simp: setup_timeout_def Let_def dest!: next_sqe_resumer
      split: option.splits prod.splits sum.splits)

lemma uring_await_resumer [frame, simp]:
  "u_resumer (snd (uring_await_suspend ur c h w)) = u_resumer w"
proof -
  have "u_resumer (snd (submit_iop ur c d p h w)) = u_resumer w" for d p
    by (auto simp: submit_iop_def setup_submission_def dest!: next_sqe_resumer
        split: prod.splits sum.splits)
  moreover have "u_resumer (snd (submit_sleep ur c d h w)) = u_resumer w" for d
    by (auto simp: submit_sleep_def setup_submission_def dest!: next_sqe_resumer
        split: prod.splits sum.splits)
  ultimately show ?thesis
    by (simp add: uring_await_suspend_def split: option.splits iop_kind.splits)
qed

lemma uring_calls_resumer [frame, simp]:
  "u_resumer (uring_iop_destroy c w) = u_resumer w"
  "u_resumer (snd (uring_new_iop k dl w)) = u_resumer w"
  "u_resumer (count_down c w) = u_resumer w"
  by (auto simp: uring_iop_destroy_def delete_due_to_iop_destructed_def count_down_def Let_def
      split: option.splits)
    (cases k; simp add: new_delivery_def Let_def)

lemma uring_async_resume_resumer:
  "u_resumer (snd (uring_do_async_resume ur hs w)) = snd (queue hs (u_resumer w))"
  by (auto simp: uring_do_async_resume_def uring_wake_event_loop_def Let_def
      dest!: next_sqe_resumer split: prod.splits sum.splits)

lemma uring_exec_appends: "appends (u_resumer w) (u_resumer (uring_exec ur a w))"
  by (cases a) (simp_all add: uring_async_resume_resumer appends_queue)

lemma uring_acts_append: "appends (u_resumer w) (u_resumer (fold (uring_exec ur) as w))"
  by (induction as arbitrary: w) (auto intro: appends_trans uring_exec_appends)

interpretation uring_queue: resumption_host u_resumer "\<lambda>a w. w\<lparr>u_resumer := a\<rparr>"
  "uring_resume ur user"
proof unfold_locales
  fix w :: "'a uring_warden" and h
  show "appends (u_resumer w) (u_resumer (uring_resume ur user h w))"
    by (cases h) (simp_all add: uring_acts_append)
qed simp

lemma execute_appends: "appends (u_resumer w) (u_resumer (execute ur user cq w))"
proof -
  have "appends (u_resumer v) (u_resumer (deliver ur user c d rc v))" for c d rc v
    using uring_queue.resume_appends [of "u_store c d1 v" ur user for d1]
    by (auto simp: deliver_def split: option.splits)
  from this [of "w\<lparr>u_kern := ur_seen ur cq (u_kern w)\<rparr>"] show ?thesis
    by (auto simp: execute_def Let_def split: option.splits)
qed

subsection \<open>Steps of a run\<close>

definition uloop_inv :: "'k in_flight \<Rightarrow> 'k uring_warden \<Rightarrow> bool" where
  "uloop_inv fl w \<longleftrightarrow>
     uinv fl None w \<and> NullCoro \<notin> set (queued (u_resumer w)) \<and> resuming (u_resumer w) = []"

inductive uring_step ::
  "'k liburing \<Rightarrow> 'k uring_user \<Rightarrow> 'k uring_warden \<Rightarrow> 'k uring_warden \<Rightarrow> bool"
  for ur :: "'k liburing" and user :: "'k uring_user" where
  submit: "uring_step ur user w (w\<lparr>u_kern := ur_submit ur (u_kern w)\<rparr>)"
| no_entry: "ur_wait ur (u_kern w) = (ret, cq, k) \<Longrightarrow> ret < 0 \<Longrightarrow>
    uring_step ur user w (w\<lparr>u_kern := k\<rparr>)"
| waited: "ur_wait ur (u_kern w) = (ret, cq, k) \<Longrightarrow> ret \<ge> 0 \<Longrightarrow>
    uring_step ur user w (execute ur user cq (w\<lparr>u_kern := k\<rparr>))"
| drained: "ur_peek ur (u_kern w) = (None, k) \<Longrightarrow> uring_step ur user w (w\<lparr>u_kern := k\<rparr>)"
| peeked: "ur_peek ur (u_kern w) = (Some cq, k) \<Longrightarrow>
    uring_step ur user w (execute ur user cq (w\<lparr>u_kern := k\<rparr>))"
| resumed: "uring_step ur user w (uring_resume_queued ur user w)"
| started: "uring_step ur user w (uring_resume ur user (Coro h) w)"

lemma uloop_appends:
  assumes "appends (u_resumer w) (u_resumer w')" "uinv fl None w'" "uloop_inv fl w"
  shows "uloop_inv fl w'"
  using assms appends_no_null [OF assms(1)] appends_resuming [OF assms(1)]
  by (simp add: uloop_inv_def)

lemma uring_resume_queued_ok:
  assumes laws: "ring_laws ur fl" and wb: "uring_behaved ur fl user" and inv: "uloop_inv fl w"
  shows "uloop_inv fl (uring_resume_queued ur user w)"
proof -
  let ?w1 = "w\<lparr>u_resumer := swap_queues (u_resumer w)\<rparr>"
  let ?w2 = "fold (uring_resume ur user) (queued (u_resumer w)) ?w1"
  have fold: "NullCoro \<notin> set hs \<Longrightarrow> uinv fl None v \<Longrightarrow>
      uinv fl None (fold (uring_resume ur user) hs v)" for hs v
  proof (induction hs arbitrary: v)
    case (Cons h hs)
    then have "h \<noteq> NullCoro" by auto
    with Cons uring_resume_ok [OF laws wb] show ?case by simp
  qed simp
  have "uinv fl None ?w2" using fold inv by (simp add: uloop_inv_def)
  moreover have "NullCoro \<notin> set (queued (u_resumer ?w2))"
    using appends_no_null [OF uring_queue.fold_resume_appends [of ?w1 ur user]] inv
    by (simp add: swap_queues_def uloop_inv_def)
  ultimately show ?thesis
    by (simp add: uring_resume_queued_def uring_queue.resume_all_runs_queue Let_def uloop_inv_def)
qed

lemma uring_step_ok:
  assumes laws: "ring_laws ur fl" and wb: "uring_behaved ur fl user"
  shows "uring_step ur user w w' \<Longrightarrow> uloop_inv fl w \<Longrightarrow> uloop_inv fl w'"
proof (induction rule: uring_step.induct)
  case (submit w)
  then show ?case by (simp add: uloop_inv_def uinv_kern ring_lawsD(3) [OF laws])
next
  case (no_entry w ret cq k)
  then show ?case by (simp add: uloop_inv_def uinv_kern ring_lawsD(4) [OF laws])
next
  case (waited w ret cq k)
  have "uinv fl None (w\<lparr>u_kern := k\<rparr>)" "0 < fl k (cqe_data cq)"
    using waited ring_lawsD(4,5) [OF laws waited(1)] by (simp_all add: uloop_inv_def uinv_kern)
  then have "uinv fl None (execute ur user cq (w\<lparr>u_kern := k\<rparr>))"
    by (simp add: execute_ok [OF laws wb])
  with uloop_appends [OF _ _ waited(3)] execute_appends [of "w\<lparr>u_kern := k\<rparr>" ur user cq]
  show ?case by simp
next
  case (drained w k)
  then show ?case by (simp add: uloop_inv_def uinv_kern ring_lawsD(6) [OF laws])
next
  case (peeked w cq k)
  have "uinv fl None (w\<lparr>u_kern := k\<rparr>)" "0 < fl k (cqe_data cq)"
    using peeked ring_lawsD(6,7) [OF laws peeked(1)] by (simp_all add: uloop_inv_def uinv_kern)
  then have "uinv fl None (execute ur user cq (w\<lparr>u_kern := k\<rparr>))"
    by (simp add: execute_ok [OF laws wb])
  with uloop_appends [OF _ _ peeked(2)] execute_appends [of "w\<lparr>u_kern := k\<rparr>" ur user cq]
  show ?case by simp
next
  case (resumed w)
  then show ?case by (rule uring_resume_queued_ok [OF laws wb])
next
  case (started w h)
  then have "uinv fl None (uring_resume ur user (Coro h) w)"
    using uring_resume_ok [OF laws wb] by (auto simp: uloop_inv_def simp del: uring_resume.simps)
  with uloop_appends [OF uring_queue.resume_appends _ started] show ?case by blast
qed

lemma uring_steps_ok:
  assumes "ring_laws ur fl" "uring_behaved ur fl user"
  shows "(uring_step ur user)\<^sup>*\<^sup>* w w' \<Longrightarrow> uloop_inv fl w \<Longrightarrow> uloop_inv fl w'"
  by (induction rule: rtranclp_induct) (auto intro: uring_step_ok [OF assms])

subsection \<open>The code takes only such steps\<close>

lemma peek_loop_steps:
  assumes "peek_loop ur user w = Some w'"
  shows "(uring_step ur user)\<^sup>*\<^sup>* w w'"
proof (rule peek_loop.raw_induct
    [where P = "\<lambda>ur user w w'. (uring_step ur user)\<^sup>*\<^sup>* w w'", OF _ assms])
  fix f and ur :: "'a liburing" and user w w'
  assume IH: "\<And>(ur :: 'a liburing) user w w'. f ur user w = Some w' \<Longrightarrow>
      (uring_step ur user)\<^sup>*\<^sup>* w w'"
    and eq: "(case ur_peek ur (u_kern w) of
        (None, k) \<Rightarrow> Some (w\<lparr>u_kern := k\<rparr>)
      | (Some cq, k) \<Rightarrow> f ur user (execute ur user cq (w\<lparr>u_kern := k\<rparr>))) = Some w'"
  obtain p k where p: "ur_peek ur (u_kern w) = (p, k)" by (cases "ur_peek ur (u_kern w)")
  show "(uring_step ur user)\<^sup>*\<^sup>* w w'"
  proof (cases p)
    case None
    with eq p have "w' = w\<lparr>u_kern := k\<rparr>" by simp
    with uring_step.drained [OF p [unfolded None]] show ?thesis by auto
  next
    case (Some cq)
    with eq p have "(uring_step ur user)\<^sup>*\<^sup>* (execute ur user cq (w\<lparr>u_kern := k\<rparr>)) w'"
      by (intro IH) simp
    with uring_step.peeked [OF p [unfolded Some]] show ?thesis
      by (rule converse_rtranclp_into_rtranclp)
  qed
qed

lemma uring_run_loop_steps:
  assumes "uring_run_loop ur user coro w = Some (r, w')"
  shows "(uring_step ur user)\<^sup>*\<^sup>* w w'"
proof -
  have "(uring_step ur user)\<^sup>*\<^sup>* w (snd (r, w'))"
  proof (rule uring_run_loop.raw_induct
      [where P = "\<lambda>ur user coro w r. (uring_step ur user)\<^sup>*\<^sup>* w (snd r)", OF _ assms])
    fix f and ur :: "'a liburing" and user coro w r
    assume IH: "\<And>(ur :: 'a liburing) user coro w r. f ur user coro w = Some r \<Longrightarrow>
        (uring_step ur user)\<^sup>*\<^sup>* w (snd r)"
      and eq: "(if coro \<in> set (u_finished w) then Some (Inr (), w)
        else let (ret, cq, k) = ur_wait ur (ur_submit ur (u_kern w)); w1 = w\<lparr>u_kern := k\<rparr>
          in if ret = - EINTR then f ur user coro w1
             else if ret < 0 then Some (Inl (SystemError (- ret) ''uring_wait_cqe''), w1)
             else case peek_loop ur user (execute ur user cq w1) of None \<Rightarrow> None
               | Some w2 \<Rightarrow> f ur user coro (uring_resume_queued ur user w2)) = Some r"
    let ?w0 = "w\<lparr>u_kern := ur_submit ur (u_kern w)\<rparr>"
    obtain ret cq k where wt: "ur_wait ur (u_kern ?w0) = (ret, cq, k)"
      by (metis prod_cases3)
    let ?w1 = "w\<lparr>u_kern := k\<rparr>"
    have s0: "uring_step ur user w ?w0" by (rule uring_step.submit)
    have neg: "uring_step ur user ?w0 ?w1" if "ret < 0"
      using uring_step.no_entry [OF wt that] by simp
    show "(uring_step ur user)\<^sup>*\<^sup>* w (snd r)"
    proof (cases "coro \<in> set (u_finished w)")
      case True
      with eq show ?thesis by auto
    next
      case False
      consider (intr) "ret = - EINTR" | (err) "ret \<noteq> - EINTR" "ret < 0" | (ok) "ret \<ge> 0"
        by linarith
      then show ?thesis
      proof cases
        case intr
        with eq wt False have "(uring_step ur user)\<^sup>*\<^sup>* ?w1 (snd r)"
          by (intro IH) (simp add: Let_def)
        moreover have "uring_step ur user ?w0 ?w1" using neg intr by simp
        ultimately show ?thesis using s0 by (meson converse_rtranclp_into_rtranclp)
      next
        case err
        with eq wt False have "snd r = ?w1" by (auto simp: Let_def)
        with s0 neg err show ?thesis by (simp add: converse_rtranclp_into_rtranclp)
      next
        case ok
        with eq wt False obtain w2 where
          pl: "peek_loop ur user (execute ur user cq ?w1) = Some w2"
          and rec: "f ur user coro (uring_resume_queued ur user w2) = Some r"
          by (auto simp: Let_def split: option.splits)
        have "uring_step ur user ?w0 (execute ur user cq ?w1)"
          using uring_step.waited [OF wt ok] by simp
        with s0 peek_loop_steps [OF pl] uring_step.resumed [of ur user w2] IH [OF rec]
        show ?thesis by (meson converse_rtranclp_into_rtranclp rtranclp_trans)
      qed
    qed
  qed
  then show ?thesis by simp
qed

lemma uring_run_until_steps:
  "uring_run_until ur user coro w = Some (r, w') \<Longrightarrow> (uring_step ur user)\<^sup>*\<^sup>* w w'"
  unfolding uring_run_until_def
  by (rule converse_rtranclp_into_rtranclp [OF uring_step.started uring_run_loop_steps])

lemma uring_run_batch_steps:
  assumes "uring_run_batch ur user w = Some w'"
  shows "(uring_step ur user)\<^sup>*\<^sup>* w w'"
proof -
  from assms obtain w1 where
    pl: "peek_loop ur user (w\<lparr>u_kern := ur_submit ur (u_kern w)\<rparr>) = Some w1"
    and w': "w' = uring_resume_queued ur user w1"
    by (auto simp: uring_run_batch_def split: option.splits)
  from w' uring_step.submit [of ur user w] peek_loop_steps [OF pl] uring_step.resumed [of ur user w1]
  show ?thesis by (meson converse_rtranclp_into_rtranclp rtranclp.rtrancl_into_rtrancl)
qed

lemma new_uring_warden_ok:
  assumes "new_uring_warden ur entries flags k = Inr w" "\<And>c. fl (u_kern w) (Some c) = 0"
  shows "uloop_inv fl w"
  using assms
  by (auto simp: new_uring_warden_def Let_def uloop_inv_def uinv_def heap_counted_def
      outstanding_ok_def to_come_def no_requests_def split: prod.splits if_splits)

end
