(* ===== verification/UringProperties.thy ===== *)
theory UringProperties
  imports UringLoop Kernels
begin

text \<open>
  The properties of the io_uring warden, with witnesses on a concrete ring: a list of the
  entries in flight, answered in order of submission with the results \<open>answer\<close> gives.
\<close>

subsection \<open>A ring\<close>

definition simple_ring :: "nat \<Rightarrow> (sqe \<Rightarrow> int) \<Rightarrow> sqe list liburing" where
  "simple_ring cap answer = \<lparr>
     ur_os = quiet_os,
     ur_queue_init = (\<lambda>entries flags k. (0, [])),
     ur_get_sqe = (\<lambda>k. (if length k < cap then Some (length k) else None, k)),
     ur_fill = (\<lambda>s q k. k @ [q]),
     ur_submit = (\<lambda>k. k),
     ur_wait = (\<lambda>k. case k of
        [] \<Rightarrow> (- EINTR, \<lparr>cqe_data = None, res = 0\<rparr>, k)
      | q # qs \<Rightarrow> (0, \<lparr>cqe_data = user_data q, res = answer q\<rparr>, k)),
     ur_peek = (\<lambda>k. case k of
        [] \<Rightarrow> (None, k)
      | q # qs \<Rightarrow> (Some \<lparr>cqe_data = user_data q, res = answer q\<rparr>, k)),
     ur_seen = (\<lambda>cq k. erase_if_first (\<lambda>q. user_data q = cqe_data cq) k)\<rparr>"

definition ring_count :: "sqe list in_flight" where
  "ring_count k u = length (filter (\<lambda>q. user_data q = u) k)"

lemma ring_count_erase:
  "ring_count (erase_if_first (\<lambda>q. user_data q = u) k) = (ring_count k)(u := ring_count k u - 1)"
  by (induction k) (auto simp: ring_count_def fun_eq_iff split: if_splits)

lemma simple_ring_laws: "ring_laws (simple_ring cap answer) ring_count"
  unfolding ring_laws_def
  by (auto simp: simple_ring_def quiet_os_def ring_count_erase fun_eq_iff split: list.splits)
    (auto simp: ring_count_def)

definition start_uring :: "sqe list uring_warden" where
  "start_uring = \<lparr>outstanding = [], u_heap = (\<lambda>_. None), u_next = 0, u_resumer = no_requests,
     u_finished = [], u_dangling = False, u_kern = []\<rparr>"

lemma start_uring_new: "new_uring_warden (simple_ring cap answer) n fl [] = Inr start_uring"
  by (simp add: new_uring_warden_def simple_ring_def start_uring_def)

definition one_uring_iop :: "iop_kind \<Rightarrow> ns option \<Rightarrow> 'k uring_user" where
  "one_uring_iop k dl h w =
     (if u_next w = 0 then [NewIop k dl, Await 0 h] else [Finish h])"

lemma new_iop_awaitable:
  "u_next w = c \<Longrightarrow> \<exists>d. u_heap (snd (uring_new_iop k dl w)) c = Some d \<and> iop_exists d \<and>
       u_handle d = NullCoro"
  by (cases k) (simp_all add: new_delivery_def u_store_def Let_def)

lemma one_uring_iop_behaved: "uring_behaved ur fl (one_uring_iop k dl)"
  by (auto simp: uring_behaved_def one_uring_iop_def intro: new_iop_awaitable)

subsection \<open>Memory safety\<close>

text \<open>C2: In every state a run of the io_uring loop can reach, with an application that keeps
  the ownership rules, no dangling pointer has been followed, every entry still in the ring
  leads to a live completion, and so does every outstanding one.\<close>

theorem uring_never_dangles:
  assumes "ring_laws ur fl" "uring_behaved ur fl user"
    and "new_uring_warden ur entries flags k = Inr w0" "\<And>c. fl (u_kern w0) (Some c) = 0"
    and "(uring_step ur user)\<^sup>*\<^sup>* w0 w"
  shows "\<not> u_dangling w \<and> (\<forall>c. 0 < fl (u_kern w) (Some c) \<longrightarrow> u_heap w c \<noteq> None) \<and>
    (\<forall>c\<in>set (outstanding w). u_heap w c \<noteq> None)"
proof -
  have "uloop_inv fl w0" using new_uring_warden_ok [OF assms(3)] assms(4) by blast
  then have "uinv fl None w"
    using uring_steps_ok [OF assms(1,2,5)] by (simp add: uloop_inv_def)
  moreover from this have "0 < fl (u_kern w) (Some c) \<Longrightarrow> u_heap w c \<noteq> None" for c
    using uinv_in_flight_live [of fl None w c] by (auto simp: to_come_def)
  ultimately show ?thesis
    by (fastforce simp: uinv_def outstanding_ok_def)
qed

theorem uring_never_dangles_witness:
  "\<exists>w. (uring_step (simple_ring 10 (\<lambda>q. 3)) (one_uring_iop (ReadSome 7 16) (Some 5)))\<^sup>*\<^sup>* start_uring w \<and>
     length (u_kern w) = 2 \<and> u_heap w 0 \<noteq> None"
proof -
  let ?ur = "simple_ring 10 (\<lambda>q. 3)"
  let ?u = "one_uring_iop (ReadSome 7 16) (Some 5)"
  let ?w = "uring_resume ?ur ?u (Coro 1) start_uring"
  have s: "(uring_step ?ur ?u)\<^sup>*\<^sup>* start_uring ?w"
    by (rule r_into_rtranclp, rule uring_step.started)
  have k: "u_kern ?w = [\<lparr>op = PrepRead 7 16, user_data = Some 0, io_link = True\<rparr>,
      \<lparr>op = PrepLinkTimeout (0, 5), user_data = Some 0, io_link = False\<rparr>]"
    by (simp add: one_uring_iop_def start_uring_def new_delivery_def u_store_def
        uring_await_suspend_def submit_iop_def setup_submission_def setup_timeout_def
        next_sqe_def fill_sqe_def simple_ring_def quiet_os_def Let_def)
  then have "0 < ring_count (u_kern ?w) (Some 0)" by (simp add: ring_count_def)
  then have "u_heap ?w 0 \<noteq> None"
    using uring_never_dangles [OF simple_ring_laws one_uring_iop_behaved start_uring_new _ s]
    by (simp add: start_uring_def ring_count_def del: uring_resume.simps)
  with s k show ?thesis by (intro exI [of _ ?w]) (simp del: uring_resume.simps)
qed

text \<open>The entry of an IOP that has ended resumes nobody: the coroutines play no part in
  what the loop does with it.\<close>

theorem ended_iop_resumes_nobody:
  assumes "cqe_data cq = Some c" "u_heap w c = Some d" "\<not> iop_exists d"
  shows "execute ur user cq w = execute ur user' cq w"
  using assms by (simp add: execute_def Let_def)

definition ended_read :: "nat \<Rightarrow> sqe list uring_warden" where
  "ended_read n = start_uring\<lparr>
     u_heap := [0 \<mapsto> \<lparr>u_kind = ReadSome 7 16, u_deadline = (if n = 2 then Some 5 else None),
       iop_exists = False, is_outstanding = True, iop_count = of_nat n, u_handle = Coro 1,
       u_result = no_outcome, kts = (0, 0)\<rparr>],
     u_next := 1, outstanding := [0],
     u_kern := replicate n \<lparr>op = PrepRead 7 16, user_data = Some 0, io_link = False\<rparr>\<rparr>"

theorem ended_iop_resumes_nobody_witness:
  "u_finished (execute (simple_ring 10 (\<lambda>q. 3)) (\<lambda>h w. [Finish h])
     \<lparr>cqe_data = Some 0, res = 3\<rparr> (ended_read 1)) = []"
  using ended_iop_resumes_nobody [of "\<lparr>cqe_data = Some 0, res = 3\<rparr>" 0 "ended_read 1" _
      "simple_ring 10 (\<lambda>q. 3)" "\<lambda>h w. [Finish h]" "\<lambda>h w. []"]
  by (simp add: ended_read_def execute_def count_down_def u_store_def u_delete_def
      start_uring_def Let_def)

text \<open>C20: A completion whose IOP has ended is deleted by its last entry, and not before.\<close>

theorem ended_iop_freed_by_last_entry:
  assumes "ring_laws ur fl" "uloop_inv fl w" "u_heap w c = Some d" "\<not> iop_exists d"
    and "cqe_data cq = Some c" "0 < fl (u_kern w) (Some c)"
  shows "(u_heap (execute ur user cq w) c = None \<longleftrightarrow> fl (u_kern w) (Some c) = 1) \<and>
    c \<notin> set (outstanding (execute ur user cq w))"
proof -
  have inv: "uinv fl None w" using assms(2) by (simp add: uloop_inv_def)
  have "counted d (fl (u_kern w) (Some c))"
    using uinv_live(2) [OF inv assms(3)] by (simp add: to_come_def)
  then obtain m where m: "fl (u_kern w) (Some c) = Suc m" "unat (iop_count d) = Suc m"
    using assms(6) by (cases "fl (u_kern w) (Some c)") (auto simp: counted_def)
  then have "iop_count d - 1 = 0 \<longleftrightarrow> m = 0"
    using unat_minus_one_word [OF m(2)] by (metis unat_eq_0)
  moreover have "\<not> is_outstanding d \<Longrightarrow> c \<notin> set (outstanding w)"
    using inv assms(3) by (auto simp: uinv_def outstanding_ok_def)
  ultimately show ?thesis
    using assms(3-5) m(1)
    by (auto simp: execute_def count_down_def u_store_def u_delete_def Let_def)
qed

theorem ended_iop_freed_by_last_entry_witness:
  "u_heap (execute (simple_ring 10 (\<lambda>q. 3)) (\<lambda>h w. []) \<lparr>cqe_data = Some 0, res = 3\<rparr>
     (ended_read 1)) 0 = None"
proof -
  have inv: "uloop_inv ring_count (ended_read 1)"
    by (auto simp: uloop_inv_def uinv_def heap_counted_def outstanding_ok_def to_come_def
        ended_read_def start_uring_def ring_count_def counted_def no_requests_def)
  show ?thesis
    using ended_iop_freed_by_last_entry [OF simple_ring_laws inv, of 0 _
        "\<lparr>cqe_data = Some 0, res = 3\<rparr>" 10 "\<lambda>q. 3" "\<lambda>h w. []"]
    by (simp add: ended_read_def ring_count_def)
qed

subsection \<open>Results and time outs\<close>

lemma u_value_fail:
  "e \<noteq> 0 \<Longrightarrow> u_value (u_fail e m d) = Inl (if e = ETIME then Timeout m else SystemError e m)"
  by (simp add: u_value_def u_fail_def outcome_defs)

lemma u_value_succeed: "\<not> is_void (u_kind d) \<Longrightarrow> u_value (u_succeed r d) = Inr (Some r)"
  by (simp add: u_value_def u_succeed_def)

text \<open>C14: What an entry means to the coroutine: the time out of a timed IOP is the \<open>timeout\<close>
  exception and the cancellation that goes with it is ignored; a sleep that ran its time
  returns normally; any other negative result is an error with that number; and the rest
  is the value.\<close>

theorem entry_outcome:
  "case deliver_result rc d of
     None \<Rightarrow> u_deadline d \<noteq> None \<and> rc = - ECANCELED
   | Some d1 \<Rightarrow>
       if (\<exists>t. u_kind d = Sleep t) \<and> rc = - ETIME then d1 = d
       else if rc = - ETIME then \<exists>m. u_value d1 = Inl (Timeout m)
       else if rc < 0 then u_value d1 = Inl (SystemError (- rc) ''uring IOP'') \<and>
              \<not> (u_deadline d \<noteq> None \<and> rc = - ECANCELED)
       else if is_void (u_kind d) then d1 = d
       else u_value d1 = Inr (Some (case u_kind d of Accept f \<Rightarrow> RFd rc | _ \<Rightarrow> RSize (nat rc)))"
  by (cases "u_kind d")
    (auto simp: deliver_result_def deliver_void_def deliver_value_def u_value_fail
      u_value_succeed)

subsection \<open>Runs\<close>

lemma uring_run_loop_result:
  assumes "uring_run_loop ur user coro w = Some (r, w')"
  shows "case r of Inr u \<Rightarrow> coro \<in> set (u_finished w')
    | Inl e \<Rightarrow> \<exists>n>0. e = SystemError n ''uring_wait_cqe'' \<and> n \<noteq> EINTR"
proof -
  let ?P = "\<lambda>coro r. case fst r of Inr u \<Rightarrow> coro \<in> set (u_finished (snd r))
    | Inl e \<Rightarrow> \<exists>n>0. e = SystemError n ''uring_wait_cqe'' \<and> n \<noteq> EINTR"
  have "?P coro (r, w')"
  proof (rule uring_run_loop.raw_induct [where P = "\<lambda>ur user coro w r. ?P coro r", OF _ assms])
    fix f and ur :: "'a liburing" and user coro w and r :: "(exn + unit) \<times> 'a uring_warden"
    assume IH: "\<And>(ur :: 'a liburing) user coro w r. f ur user coro w = Some r \<Longrightarrow> ?P coro r"
      and eq: "(if coro \<in> set (u_finished w) then Some (Inr (), w)
        else let (ret, cq, k) = ur_wait ur (ur_submit ur (u_kern w)); w1 = w\<lparr>u_kern := k\<rparr>
          in if ret = - EINTR then f ur user coro w1
             else if ret < 0 then Some (Inl (SystemError (- ret) ''uring_wait_cqe''), w1)
             else case peek_loop ur user (execute ur user cq w1) of None \<Rightarrow> None
               | Some w2 \<Rightarrow> f ur user coro (uring_resume_queued ur user w2)) = Some r"
    obtain ret cq k where wt: "ur_wait ur (ur_submit ur (u_kern w)) = (ret, cq, k)"
      by (metis prod_cases3)
    let ?w1 = "w\<lparr>u_kern := k\<rparr>"
    show "?P coro r"
    proof (cases "coro \<in> set (u_finished w)")
      case True
      with eq have "r = (Inr (), w)" by simp
      with True show ?thesis by simp
    next
      case False
      note eq1 = eq [unfolded wt Let_def, simplified False if_False prod.case]
      show ?thesis
      proof (cases "ret = - EINTR")
        case True
        with eq1 have "f ur user coro ?w1 = Some r" by simp
        then show ?thesis by (rule IH)
      next
        case nintr: False
        show ?thesis
        proof (cases "ret < 0")
          case True
          with eq1 nintr have "r = (Inl (SystemError (- ret) ''uring_wait_cqe''), ?w1)" by simp
          moreover have "0 < - ret" "- ret \<noteq> EINTR" using True nintr by auto
          ultimately show ?thesis by auto
        next
          case False
          with eq1 nintr obtain w2 where "f ur user coro w2 = Some r"
            by (auto split: option.splits)
          then show ?thesis by (rule IH)
        qed
      qed
    qed
  qed
  then show ?thesis by (simp only: fst_conv snd_conv)
qed

text \<open>C12: \<open>run_until\<close> of the io_uring warden only takes steps of the transition system; when it
  returns the main coroutine is done, and the only exception that leaves it is a failed
  wait, never an interrupted one.\<close>

theorem uring_run_until_outcome:
  assumes "uring_run_until ur user coro w = Some (r, w')"
  shows "(uring_step ur user)\<^sup>*\<^sup>* w w' \<and>
    (case r of Inr u \<Rightarrow> coro \<in> set (u_finished w')
     | Inl e \<Rightarrow> \<exists>n>0. e = SystemError n ''uring_wait_cqe'' \<and> n \<noteq> EINTR)"
  using assms uring_run_until_steps [OF assms] uring_run_loop_result
  by (simp add: uring_run_until_def)

lemma peek_loop_drained:
  "ur_peek ur (u_kern w) = (None, k) \<Longrightarrow> peek_loop ur user w = Some (w\<lparr>u_kern := k\<rparr>)"
  by (subst peek_loop.simps) simp

lemma uring_run_loop_done:
  "coro \<in> set (u_finished w) \<Longrightarrow> uring_run_loop ur user coro w = Some (Inr (), w)"
  by (subst uring_run_loop.simps) simp

lemma uring_run_loop_pass:
  "coro \<notin> set (u_finished w) \<Longrightarrow> ur_wait ur (ur_submit ur (u_kern w)) = (0, cq, k) \<Longrightarrow>
   peek_loop ur user (execute ur user cq (w\<lparr>u_kern := k\<rparr>)) = Some w2 \<Longrightarrow>
   uring_run_loop ur user coro w = uring_run_loop ur user coro (uring_resume_queued ur user w2)"
  by (subst uring_run_loop.simps) (simp add: Let_def)

lemma no_requests_resumes_none:
  "u_resumer w = no_requests \<Longrightarrow>
   u_finished (uring_resume_queued ur user (w\<lparr>u_kern := k\<rparr>)) = u_finished w"
  by (simp add: uring_resume_queued_def resume_all_def swap_queues_def no_requests_def Let_def)

text \<open>A sleep, from its submission to the end of the coroutine that awaits it.\<close>

definition sleeping :: "sqe list uring_warden" where
  "sleeping = start_uring\<lparr>
     u_heap := [0 \<mapsto> \<lparr>u_kind = Sleep 5, u_deadline = None, iop_exists = True,
       is_outstanding = False, iop_count = 1, u_handle = Coro 1, u_result = no_outcome,
       kts = (0, 5)\<rparr>],
     u_next := 1,
     u_kern := [\<lparr>op = PrepTimeout (0, 5), user_data = Some 0, io_link = False\<rparr>]\<rparr>"

lemma sleeping_reached:
  "uring_resume (simple_ring 10 answer) (one_uring_iop (Sleep 5) None) (Coro 1) start_uring =
     sleeping"
  by (simp add: sleeping_def one_uring_iop_def start_uring_def new_delivery_def u_store_def
      uring_await_suspend_def submit_sleep_def setup_submission_def next_sqe_def fill_sqe_def
      simple_ring_def Let_def)

theorem uring_run_until_outcome_witness:
  "\<exists>w. uring_run_until (simple_ring 10 (\<lambda>q. - ETIME)) (one_uring_iop (Sleep 5) None) 1 start_uring =
       Some (Inr (), w) \<and> 1 \<in> set (u_finished w)"
proof -
  let ?ur = "simple_ring 10 (\<lambda>q. - ETIME)"
  let ?u = "one_uring_iop (Sleep 5) None"
  let ?w1 = "execute ?ur ?u \<lparr>cqe_data = Some 0, res = - ETIME\<rparr> sleeping"
  have w1: "u_kern ?w1 = []" "u_finished ?w1 = [1]" "u_resumer ?w1 = no_requests"
    by (simp_all add: sleeping_def start_uring_def simple_ring_def execute_def deliver_def
        deliver_result_def deliver_void_def one_uring_iop_def count_down_def u_store_def Let_def)
  have "ur_peek ?ur [] = (None, [])" by (simp add: simple_ring_def)
  then have p: "peek_loop ?ur ?u ?w1 = Some (?w1\<lparr>u_kern := []\<rparr>)"
    by (intro peek_loop_drained) (simp only: w1)
  let ?w2 = "uring_resume_queued ?ur ?u (?w1\<lparr>u_kern := []\<rparr>)"
  have "u_finished ?w2 = [1]"
    using no_requests_resumes_none [OF w1(3)] w1(2) by (rule trans)
  then have "uring_run_loop ?ur ?u 1 ?w2 = Some (Inr (), ?w2)"
    by (intro uring_run_loop_done) simp
  moreover have "uring_run_loop ?ur ?u 1 sleeping = uring_run_loop ?ur ?u 1 ?w2"
    by (rule uring_run_loop_pass [where cq = "\<lparr>cqe_data = Some 0, res = - ETIME\<rparr>"
          and k = "u_kern sleeping"])
      (use p in \<open>simp_all add: sleeping_def start_uring_def simple_ring_def\<close>)
  ultimately have r: "uring_run_until ?ur ?u 1 start_uring = Some (Inr (), ?w2)"
    by (simp only: uring_run_until_def sleeping_reached)
  from uring_run_until_outcome [OF r] r show ?thesis by auto
qed

end
