(* ===== verification/UringHazards.thy ===== *)
theory UringHazards
  imports UringProperties
begin

text \<open>
  Wake-ups of the io_uring loop, and what happens at the edges of the ring and of the
  ownership scheme: a full submission queue, an IOP that was never awaited, and completions
  that are neither outstanding nor owned when the warden goes.
\<close>

subsection \<open>Wake-ups\<close>

text \<open>
  A slot is always free, and the application neither takes no-ops out of the ring nor puts
  handles into the queue other than by \<open>async_resume\<close>.
\<close>

definition never_full :: "'k liburing \<Rightarrow> bool" where
  "never_full ur \<longleftrightarrow> (\<forall>k. fst (ur_get_sqe ur k) \<noteq> None)"

definition keeps_nops :: "'k in_flight \<Rightarrow> 'k uring_user \<Rightarrow> bool" where
  "keeps_nops fl user \<longleftrightarrow>
     (\<forall>h w f k. Kernel f \<in> set (user h w) \<longrightarrow> fl (f k) None = fl k None)"

definition nop_posted :: "'k in_flight \<Rightarrow> 'k uring_warden \<Rightarrow> bool" where
  "nop_posted fl w \<longleftrightarrow> (has_requests (u_resumer w) \<longrightarrow> 0 < fl (u_kern w) None)"

lemma fill_keeps_nops:
  "ring_laws ur fl \<Longrightarrow> fl k None \<le> fl (ur_fill ur s q k) None"
  by (simp add: ring_lawsD(2))

lemma setup_timeout_nops:
  assumes laws: "ring_laws ur fl"
  shows "fl (u_kern w) None \<le> fl (u_kern (snd (setup_timeout ur c d s p w))) None"
proof (cases "u_deadline d")
  case None
  then show ?thesis
    by (simp add: setup_timeout_def fill_sqe_def fill_keeps_nops [OF laws])
next
  case (Some dl)
  let ?w1 = "fill_sqe ur s \<lparr>op = p, user_data = Some c, io_link = True\<rparr> w"
  have f1: "fl (u_kern w) None \<le> fl (u_kern ?w1) None"
    by (simp add: fill_sqe_def fill_keeps_nops [OF laws])
  obtain r w2 where n: "next_sqe ur ?w1 = (r, w2)" by (cases "next_sqe ur ?w1")
  from next_sqe_fl [OF laws n] have f2: "fl (u_kern w2) = fl (u_kern ?w1)" by auto
  show ?thesis
  proof (cases r)
    case (Inl e)
    with Some n f1 f2 show ?thesis by (simp add: setup_timeout_def)
  next
    case (Inr ts)
    obtain now k where nw: "os_now (ur_os ur) (u_kern w2) = (now, k)"
      by (cases "os_now (ur_os ur) (u_kern w2)")
    have "fl k = fl (u_kern w2)" by (rule ring_lawsD(9) [OF laws nw])
    with Some Inr n nw f1 f2 show ?thesis
      by (simp add: setup_timeout_def fill_sqe_def ring_lawsD(2) [OF laws] Let_def)
  qed
qed

lemma await_nops:
  assumes laws: "ring_laws ur fl"
  shows "fl (u_kern w) None \<le> fl (u_kern (snd (uring_await_suspend ur c h w))) None"
proof -
  have sub: "fl (u_kern w1) = fl (u_kern w)" if "setup_submission ur c d h w = (r, w1)" for d r w1
    using next_sqe_fl [OF laws, of "u_store c (d\<lparr>u_handle := h\<rparr>) w" r w1] that
    by (auto simp: setup_submission_def)
  have "fl (u_kern w) None \<le> fl (u_kern (snd (submit_iop ur c d p h w))) None" for d p
    by (auto simp: submit_iop_def sub [symmetric] split: prod.splits sum.splits
        intro: setup_timeout_nops [OF laws])
  moreover have "fl (u_kern w) None \<le> fl (u_kern (snd (submit_sleep ur c d h w))) None" for d
    by (auto simp: submit_sleep_def fill_sqe_def sub [symmetric] ring_lawsD(2) [OF laws]
        split: prod.splits sum.splits)
  ultimately show ?thesis
    by (simp add: uring_await_suspend_def split: option.splits iop_kind.splits)
qed

lemma kern_of_ownership [simp]:
  "u_kern (uring_iop_destroy c w) = u_kern w" "u_kern (snd (uring_new_iop k dl w)) = u_kern w"
  by (auto simp: uring_iop_destroy_def delete_due_to_iop_destructed_def u_delete_def u_store_def
      Let_def split: option.splits) (cases k; simp add: new_delivery_def u_store_def Let_def)

lemma async_resume_posts:
  assumes laws: "ring_laws ur fl" and nf: "never_full ur" and np: "nop_posted fl w"
  shows "nop_posted fl (snd (uring_do_async_resume ur hs w))"
proof -
  obtain any a where q: "queue hs (u_resumer w) = (any, a)" by (cases "queue hs (u_resumer w)")
  obtain r w1 where n: "next_sqe ur (w\<lparr>u_resumer := a\<rparr>) = (r, w1)"
    by (cases "next_sqe ur (w\<lparr>u_resumer := a\<rparr>)")
  obtain s where s: "r = Inr s"
  proof -
    from nf obtain s k where "ur_get_sqe ur (u_kern w) = (Some s, k)"
      unfolding never_full_def by (metis option.exhaust prod.collapse)
    with n show ?thesis by (intro that [of s]) (simp add: next_sqe_def)
  qed
  have "0 < fl (ur_submit ur (ur_fill ur s \<lparr>op = PrepNop, user_data = None, io_link = False\<rparr> k)) None"
    for k by (simp add: ring_lawsD(2,3) [OF laws])
  moreover have "has_requests a \<longrightarrow> has_requests (u_resumer w) \<or> any"
    using q by (auto simp: queue_eq has_requests_def filter_empty_conv)
  ultimately show ?thesis
    using np q n s
    by (auto simp: nop_posted_def uring_do_async_resume_def uring_wake_event_loop_def
        fill_sqe_def Let_def)
qed

lemma exec_nop_posted:
  assumes "ring_laws ur fl" "never_full ur" "nop_posted fl w"
    and "\<And>f k. a = Kernel f \<Longrightarrow> fl (f k) None = fl k None"
  shows "nop_posted fl (uring_exec ur a w)"
  using assms async_resume_posts [OF assms(1-3)]
    order.strict_trans2 [OF _ await_nops [OF assms(1)]]
  by (cases a) (auto simp: nop_posted_def)

lemma acts_nop_posted:
  assumes "ring_laws ur fl" "never_full ur"
  shows "nop_posted fl w \<Longrightarrow> (\<And>f k. Kernel f \<in> set as \<Longrightarrow> fl (f k) None = fl k None) \<Longrightarrow>
    nop_posted fl (fold (uring_exec ur) as w)"
proof (induction as arbitrary: w)
  case (Cons a as)
  have "nop_posted fl (uring_exec ur a w)"
    using Cons.prems by (intro exec_nop_posted [OF assms]) auto
  with Cons show ?case by simp
qed simp

lemma resume_nop_posted:
  assumes "ring_laws ur fl" "never_full ur" "keeps_nops fl user" "nop_posted fl w"
  shows "nop_posted fl (uring_resume ur user h w)"
  using assms acts_nop_posted [OF assms(1,2,4)]
  by (cases h) (auto simp: keeps_nops_def nop_posted_def)

lemma fold_resume_nop_posted:
  assumes "ring_laws ur fl" "never_full ur" "keeps_nops fl user"
  shows "nop_posted fl w \<Longrightarrow> nop_posted fl (fold (uring_resume ur user) hs w)"
  by (induction hs arbitrary: w) (auto intro: resume_nop_posted [OF assms])


definition endless_ring :: "sqe list liburing" where
  "endless_ring = (simple_ring 1 (\<lambda>q. 0))\<lparr>ur_get_sqe := (\<lambda>k. (Some 0, k))\<rparr>"

definition requeue :: "'k uring_user" where
  "requeue h w = [AsyncResume [Coro h]]"


text \<open>With a full submission queue \<open>async_resume\<close> throws after it has queued the handles, and
  no later call wakes the loop for them either, since the queue is no longer empty.\<close>

theorem full_ring_loses_wakeup:
  assumes "ur_get_sqe ur (u_kern w) = (None, k)" "queued (u_resumer w) = []" "h \<noteq> NullCoro"
    and "uring_do_async_resume ur [h] w = (r, w')"
  shows "isl r \<and> queued (u_resumer w') = [h] \<and> u_kern w' = k \<and>
    (\<forall>hs. u_kern (snd (uring_do_async_resume ur hs w')) = k)"
  using assms
  by (auto simp: uring_do_async_resume_def uring_wake_event_loop_def next_sqe_def queue_eq
      has_requests_def Let_def)

theorem full_ring_loses_wakeup_witness:
  "u_kern (snd (uring_do_async_resume (simple_ring 0 (\<lambda>q. 0)) [Coro 2]
     (snd (uring_do_async_resume (simple_ring 0 (\<lambda>q. 0)) [Coro 1] start_uring)))) = []"
  using full_ring_loses_wakeup [of "simple_ring 0 (\<lambda>q. 0)" start_uring "[]" "Coro 1"
      "fst (uring_do_async_resume (simple_ring 0 (\<lambda>q. 0)) [Coro 1] start_uring)"
      "snd (uring_do_async_resume (simple_ring 0 (\<lambda>q. 0)) [Coro 1] start_uring)"]
  by (simp add: simple_ring_def start_uring_def no_requests_def)

subsection \<open>The edges of the submission queue\<close>

text \<open>A timed IOP that gets the last free slot throws, but its operation stays in the ring,
  marked as linked: whatever is submitted next becomes part of its chain.\<close>

theorem timed_submit_leaves_link:
  assumes "u_deadline d = Some dl" "ur_get_sqe ur (u_kern w) = (Some s, k1)"
    and "ur_get_sqe ur (ur_fill ur s \<lparr>op = p, user_data = Some c, io_link = True\<rparr> k1) = (None, k2)"
  shows "submit_iop ur c d p h w =
    (Inl (RuntimeError ''No more SQEs are available in the ring''),
     u_store c (d\<lparr>u_handle := h\<rparr>) (w\<lparr>u_kern := k2\<rparr>))"
  using assms
  by (simp add: submit_iop_def setup_submission_def setup_timeout_def next_sqe_def fill_sqe_def)

theorem timed_submit_leaves_link_witness:
  "let d = \<lparr>u_kind = ReadReady 7, u_deadline = Some 5, iop_exists = True,
         is_outstanding = False, iop_count = 1, u_handle = NullCoro, u_result = no_outcome,
         kts = (0, 0)\<rparr>
   in map io_link (u_kern (snd (submit_iop (simple_ring 1 (\<lambda>q. 0)) 0 d (PrepPollAdd 7 1) (Coro 1)
        start_uring))) = [True]"
proof -
  let ?d = "\<lparr>u_kind = ReadReady 7, u_deadline = Some 5, iop_exists = True,
    is_outstanding = False, iop_count = 1, u_handle = NullCoro, u_result = no_outcome,
    kts = (0, 0)\<rparr>"
  let ?k = "[\<lparr>op = PrepPollAdd 7 1, user_data = Some 0, io_link = True\<rparr>]"
  have "submit_iop (simple_ring 1 (\<lambda>q. 0)) 0 ?d (PrepPollAdd 7 1) (Coro 1) start_uring =
      (Inl (RuntimeError ''No more SQEs are available in the ring''),
       u_store 0 (?d\<lparr>u_handle := Coro 1\<rparr>) (start_uring\<lparr>u_kern := ?k\<rparr>))"
    by (rule timed_submit_leaves_link [where s = 0 and ?k1.0 = "[]"])
      (simp_all add: simple_ring_def start_uring_def)
  then show ?thesis by (simp add: Let_def)
qed

subsection \<open>Completions nobody deletes\<close>

text \<open>An IOP that ends without having been awaited counts one entry although none was
  submitted: its completion is kept as outstanding, with no entry ever to delete it.\<close>

theorem unawaited_iop_kept:
  assumes "uinv fl None w" "uring_new_iop k dl w = (c, w')"
  shows "fl (u_kern (uring_iop_destroy c w')) (Some c) = 0 \<and>
    c \<in> set (outstanding (uring_iop_destroy c w')) \<and>
    (\<exists>d. u_heap (uring_iop_destroy c w') c = Some d \<and> iop_count d = 1 \<and> \<not> iop_exists d)"
proof -
  have "u_heap w (u_next w) = None"
    using uinv_live(1) [OF assms(1), of "u_next w"] by (cases "u_heap w (u_next w)") auto
  then have "fl (u_kern w) (Some (u_next w)) = 0"
    using assms(1) by (auto simp: uinv_def heap_counted_def to_come_def)
  with assms(2) show ?thesis
    by (cases k) (auto simp: new_delivery_def u_store_def uring_iop_destroy_def
        delete_due_to_iop_destructed_def Let_def)
qed

theorem unawaited_iop_kept_witness:
  "0 \<in> set (outstanding (uring_iop_destroy 0 (snd (uring_new_iop (Close 7) None start_uring))))"
proof -
  have "uinv ring_count None start_uring"
    by (simp add: uinv_def heap_counted_def outstanding_ok_def to_come_def start_uring_def
        ring_count_def)
  from unawaited_iop_kept [OF this, of "Close 7" None 0]
  show ?thesis by (simp add: new_delivery_def start_uring_def Let_def)
qed

lemma heap_fold_delete: "c \<notin> set cs \<Longrightarrow> u_heap (fold u_delete cs w) c = u_heap w c"
  by (induction cs arbitrary: w) (auto simp: u_delete_def)

text \<open>The first of the two entries of a timed IOP that has ended takes its completion off
  the outstanding list although the second is still to come: a warden that goes before it
  arrives leaves the completion allocated.\<close>

theorem timed_iop_leaks_at_teardown:
  assumes "u_heap w c = Some d" "\<not> iop_exists d" "is_outstanding d" "iop_count d = 2"
    and "cqe_data cq = Some c"
  shows "c \<notin> set (outstanding (execute ur user cq w)) \<and>
    u_heap (uring_destroy queue_exit (execute ur user cq w)) c \<noteq> None"
  using assms
  by (simp add: execute_def count_down_def u_store_def uring_destroy_def uring_teardown_def
      heap_fold_delete Let_def)

theorem timed_iop_leaks_at_teardown_witness:
  "u_heap (uring_destroy id (execute (simple_ring 10 (\<lambda>q. 0)) (\<lambda>h w. [])
     \<lparr>cqe_data = Some 0, res = 3\<rparr> (ended_read 2))) 0 \<noteq> None"
  using timed_iop_leaks_at_teardown [of "ended_read 2" 0 _ "\<lparr>cqe_data = Some 0, res = 3\<rparr>"
      "simple_ring 10 (\<lambda>q. 0)" "\<lambda>h w. []" id]
  by (simp add: ended_read_def)

end
