(* ===== verification/UringPairs.thy ===== *)
theory UringPairs
  imports UringHazards
begin

text \<open>
  The two completion queue entries of a timed IOP on io_uring (\<open>src/uring.hpp\<close>): its own and that
  of the time out linked to it carry the same user data, so both go to the same completion. These
  lemmas run the pair through \<open>execute\<close> with the coroutine the library is used with, one that takes
  the value when it is resumed, ends the IOP and goes on.
\<close>

text \<open>The coroutine: it notes what \<open>await_resume\<close> gives it, the IOP goes, and it finishes.\<close>

definition takes_value ::
  "(exn + ret option \<Rightarrow> 'k \<Rightarrow> 'k) \<Rightarrow> cid \<Rightarrow> nat \<Rightarrow> 'k uring_user \<Rightarrow> bool" where
  "takes_value note c h user \<longleftrightarrow>
     (\<forall>w d. u_heap w c = Some d \<longrightarrow>
        user h w = [Kernel (note (u_value d)), DestroyIop c, Finish h])"

text \<open>Which of the two results reaches the coroutine: the first that is not a cancellation.\<close>

definition pair_result :: "int \<Rightarrow> int \<Rightarrow> int option" where
  "pair_result rc1 rc2 =
     (if rc1 \<noteq> - ECANCELED then Some rc1
      else if rc2 \<noteq> - ECANCELED then Some rc2 else None)"

text \<open>A completion that has been awaited with a deadline and has had no entry yet.\<close>

definition awaiting_pair :: "cid \<Rightarrow> nat \<Rightarrow> delivery \<Rightarrow> 'k uring_warden \<Rightarrow> bool" where
  "awaiting_pair c h d w \<longleftrightarrow>
     u_heap w c = Some d \<and> iop_exists d \<and> \<not> is_outstanding d \<and> c \<notin> set (outstanding w) \<and>
     iop_count d = 2 \<and> u_deadline d \<noteq> None \<and> u_handle d = Coro h \<and> (\<forall>t. u_kind d \<noteq> Sleep t)"

lemma deliver_ignores:
  assumes "u_deadline d \<noteq> None" "\<forall>t. u_kind d \<noteq> Sleep t"
  shows "deliver_result rc d = None \<longleftrightarrow> rc = - ECANCELED"
  using assms
  by (auto simp: deliver_result_def deliver_void_def deliver_value_def split: iop_kind.splits)

lemma u_value_count: "u_value (d\<lparr>iop_count := n\<rparr>) = u_value d"
  by (simp add: u_value_def)

lemma deliver_result_count:
  "deliver_result rc (d\<lparr>iop_count := n\<rparr>) =
     map_option (\<lambda>d1. d1\<lparr>iop_count := n\<rparr>) (deliver_result rc d)"
  by (cases "u_kind d")
    (simp_all add: deliver_result_def deliver_void_def deliver_value_def u_fail_def u_succeed_def)

lemma delivered:
  assumes "takes_value note c h user" "deliver_result rc d = Some d1" "u_handle d = Coro h"
  shows "deliver ur user c d rc w =
    (let w1 = uring_iop_destroy c (u_store c d1 w)
     in w1\<lparr>u_kern := note (u_value d1) (u_kern w), u_finished := h # u_finished w\<rparr>)"
proof -
  have "user h (u_store c d1 w) = [Kernel (note (u_value d1)), DestroyIop c, Finish h]"
    using assms(1) by (simp add: takes_value_def u_store_def)
  moreover have "u_handle d1 = Coro h" using deliver_result_keeps [OF assms(2)] assms(3) by simp
  ultimately show ?thesis
    using assms(2)
    by (simp add: deliver_def uring_iop_destroy_def delete_due_to_iop_destructed_def u_store_def
        u_delete_def Let_def)
qed

text \<open>The first entry of the pair: what it leaves behind for the second.\<close>

lemma first_entry_cancelled:
  assumes "awaiting_pair c h d w" "cqe_data cq = Some c" "res cq = - ECANCELED"
  shows "execute ur user cq w =
    w\<lparr>u_kern := ur_seen ur cq (u_kern w), u_heap := (u_heap w)(c \<mapsto> d\<lparr>iop_count := 1\<rparr>)\<rparr>"
  using assms deliver_ignores [of d "res cq"]
  by (auto simp: awaiting_pair_def execute_def count_down_def deliver_def u_store_def Let_def
      split: option.split)

lemma first_entry_decides:
  assumes "awaiting_pair c h d w" "takes_value note c h user" "cqe_data cq = Some c"
    and "deliver_result (res cq) d = Some d1"
  shows "execute ur user cq w =
    w\<lparr>u_kern := note (u_value d1) (ur_seen ur cq (u_kern w)),
      u_heap := (u_heap w)(c \<mapsto> d1\<lparr>iop_exists := False, is_outstanding := True, iop_count := 1\<rparr>),
      u_finished := h # u_finished w\<rparr>"
  using assms delivered [OF assms(2,4), of ur] deliver_result_keeps [OF assms(4)]
  by (auto simp: awaiting_pair_def execute_def count_down_def uring_iop_destroy_def
      delete_due_to_iop_destructed_def u_store_def Let_def)

lemma entry_after_end:
  assumes "u_heap w c = Some d" "\<not> iop_exists d" "iop_count d = 1" "is_outstanding d"
    and "c \<notin> set (outstanding w)" "cqe_data cq = Some c"
  shows "execute ur user cq w =
    w\<lparr>u_kern := ur_seen ur cq (u_kern w), u_heap := (u_heap w)(c := None)\<rparr>"
  using assms
  by (simp add: execute_def count_down_def u_store_def u_delete_def Let_def removeAll_id)

lemma last_entry_decides:
  assumes "u_heap w c = Some d" "iop_exists d" "\<not> is_outstanding d" "iop_count d = 1"
    and "c \<notin> set (outstanding w)" "u_handle d = Coro h" "takes_value note c h user"
    and "cqe_data cq = Some c" "deliver_result (res cq) d = Some d1"
  shows "execute ur user cq w =
    w\<lparr>u_kern := note (u_value d1) (ur_seen ur cq (u_kern w)), u_heap := (u_heap w)(c := None),
      u_finished := h # u_finished w\<rparr>"
  using assms delivered [OF assms(7,9,6), of ur] deliver_result_keeps [OF assms(9)]
  by (auto simp: execute_def count_down_def uring_iop_destroy_def
      delete_due_to_iop_destructed_def u_store_def u_delete_def Let_def)

text \<open>The pair: the first entry decides unless it is a cancellation.\<close>

lemma pair_first_decides:
  assumes "awaiting_pair c h d w" "takes_value note c h user"
    and "cqe_data cq1 = Some c" "cqe_data cq2 = Some c" "deliver_result (res cq1) d = Some d1"
  shows "execute ur user cq2 (execute ur user cq1 w) =
    w\<lparr>u_kern := ur_seen ur cq2 (note (u_value d1) (ur_seen ur cq1 (u_kern w))),
      u_heap := (u_heap w)(c := None), u_finished := h # u_finished w\<rparr>"
  unfolding first_entry_decides [OF assms(1,2,3,5), of ur]
  by (subst entry_after_end [where c = c]) (use assms(1,4) in \<open>auto simp: awaiting_pair_def\<close>)

lemma pair_cancelled:
  assumes "awaiting_pair c h d w" "cqe_data cq1 = Some c" "cqe_data cq2 = Some c"
    and "res cq1 = - ECANCELED" "res cq2 = - ECANCELED"
  shows "execute ur user cq2 (execute ur user cq1 w) =
    w\<lparr>u_kern := ur_seen ur cq2 (ur_seen ur cq1 (u_kern w)),
      u_heap := (u_heap w)(c \<mapsto> d\<lparr>iop_count := 0\<rparr>)\<rparr>"
  using assms(1,3,5) deliver_ignores [of "d\<lparr>iop_count := 1\<rparr>" "res cq2"]
  unfolding first_entry_cancelled [OF assms(1,2,4), of ur user]
  by (auto simp: awaiting_pair_def execute_def count_down_def deliver_def u_store_def Let_def
      split: option.split)


text \<open>A read awaited with a deadline, and a ring that notes what its coroutine is given.\<close>

definition timed_read :: delivery where
  "timed_read = \<lparr>u_kind = ReadSome 7 10, u_deadline = Some 5, iop_exists = True,
     is_outstanding = False, iop_count = 2, u_handle = Coro 1, u_result = no_outcome, kts = (0, 5)\<rparr>"

definition noting_ring :: "(exn + ret option) list liburing" where
  "noting_ring = \<lparr>
     ur_os = quiet_os, ur_queue_init = (\<lambda>n f k. (0, k)), ur_get_sqe = (\<lambda>k. (None, k)),
     ur_fill = (\<lambda>s q k. k), ur_submit = (\<lambda>k. k), ur_wait = (\<lambda>k. (-4, \<lparr>cqe_data = None, res = 0\<rparr>, k)),
     ur_peek = (\<lambda>k. (None, k)), ur_seen = (\<lambda>cq k. k)\<rparr>"

definition timed_read_warden :: "(exn + ret option) list uring_warden" where
  "timed_read_warden = \<lparr>outstanding = [], u_heap = [0 \<mapsto> timed_read], u_next = 1,
     u_resumer = no_requests, u_finished = [], u_dangling = False, u_kern = []\<rparr>"

definition noting_user :: "(exn + ret option) list uring_user" where
  "noting_user h w =
     (case u_heap w 0 of None \<Rightarrow> []
      | Some d \<Rightarrow> [Kernel (Cons (u_value d)), DestroyIop 0, Finish h])"

text \<open>The pair with the results \<open>rc1\<close> and \<open>rc2\<close>, in that order.\<close>

definition after_pair :: "int \<Rightarrow> int \<Rightarrow> (exn + ret option) list uring_warden" where
  "after_pair rc1 rc2 =
     execute noting_ring noting_user \<lparr>cqe_data = Some 0, res = rc2\<rparr>
       (execute noting_ring noting_user \<lparr>cqe_data = Some 0, res = rc1\<rparr> timed_read_warden)"

lemma timed_read_awaits:
  "awaiting_pair 0 1 timed_read timed_read_warden" "takes_value Cons 0 h noting_user"
  by (simp_all add: awaiting_pair_def timed_read_def timed_read_warden_def takes_value_def
      noting_user_def)


text \<open>C38: The time out's own failure can hide a result. The kernel reports \<open>EALREADY\<close> for a linked time out
  that finds its operation running and can not stop it; that entry may come first, and then the
  coroutine is given this error although the operation went on and took the bytes.\<close>

theorem late_timeout_hides_result:
  assumes "awaiting_pair c h d w" "takes_value note c h user" "u_kind d = ReadSome f m"
    and "cqe_data cq1 = Some c" "cqe_data cq2 = Some c" "res cq1 = - 114" "res cq2 = int n"
    and "w' = execute ur user cq2 (execute ur user cq1 w)"
  shows "u_finished w' = h # u_finished w \<and> u_heap w' c = None \<and>
    u_kern w' = ur_seen ur cq2 (note (Inl (SystemError 114 ''uring IOP'')) (ur_seen ur cq1 (u_kern w)))"
proof -
  obtain d1 where d1: "deliver_result (- 114) d = Some d1"
      "u_value d1 = Inl (SystemError 114 ''uring IOP'')"
    using assms(3) by (auto simp: deliver_result_def deliver_value_def u_value_fail)
  then have d1': "deliver_result (res cq1) d = Some d1" using assms(6) by simp
  with pair_first_decides [OF assms(1,2,4,5) d1', of ur] d1(2) show ?thesis by (simp add: assms(8))
qed

theorem late_timeout_hides_result_witness:
  "u_kern (after_pair (-114) 10) = [Inl (SystemError 114 ''uring IOP'')]"
  using late_timeout_hides_result [OF timed_read_awaits(1) timed_read_awaits(2) _ _ _ _ _ refl,
      of 7 10 "\<lparr>cqe_data = Some 0, res = -114\<rparr>" "\<lparr>cqe_data = Some 0, res = 10\<rparr>" 10 noting_ring]
  by (simp add: after_pair_def timed_read_def timed_read_warden_def noting_ring_def)

text \<open>
  A coroutine that keeps its IOP alive while it is resumed, having named it, is resumed by the
  second entry as well when neither is a cancellation.
\<close>

lemma named_iop_resumed_twice:
  assumes "awaiting_pair c h d w" "\<And>w. user h w = [Finish h]"
    and "cqe_data cq1 = Some c" "cqe_data cq2 = Some c"
    and "res cq1 \<noteq> - ECANCELED" "res cq2 \<noteq> - ECANCELED"
  shows "u_finished (execute ur user cq2 (execute ur user cq1 w)) = h # h # u_finished w"
proof -
  have step: "\<exists>d'. u_heap (execute ur user cq v) c = Some d' \<and> iop_exists d' \<and> u_handle d' = Coro h \<and>
      u_deadline d' \<noteq> None \<and> (\<forall>t. u_kind d' \<noteq> Sleep t) \<and>
      u_finished (execute ur user cq v) = h # u_finished v"
    if "u_heap v c = Some e" "iop_exists e" "u_handle e = Coro h" "u_deadline e \<noteq> None"
      "\<forall>t. u_kind e \<noteq> Sleep t" "cqe_data cq = Some c" "res cq \<noteq> - ECANCELED" for v e cq
  proof -
    have "deliver_result (res cq) e \<noteq> None"
      using deliver_ignores [OF that(4,5)] that(7) by simp
    then obtain e1 where "deliver_result (res cq) e = Some e1" by blast
    with that deliver_result_keeps [OF this] assms(2) show ?thesis
      by (auto simp: execute_def deliver_def count_down_def u_store_def Let_def)
  qed
  obtain d1 where "u_heap (execute ur user cq1 w) c = Some d1" "iop_exists d1" "u_handle d1 = Coro h"
      "u_deadline d1 \<noteq> None" "\<forall>t. u_kind d1 \<noteq> Sleep t"
      "u_finished (execute ur user cq1 w) = h # u_finished w"
    using step [of w d cq1] assms(1,3,5) by (auto simp: awaiting_pair_def)
  from step [OF this(1-5) assms(4,6)] this(6) show ?thesis by auto
qed

end
