(* ===== verification/UringTasks.thy ===== *)
theory UringTasks
  imports UringPairs
begin

text \<open>
  What a coroutine of the io_uring warden sees of the IOPs it awaits. \<open>ring_run\<close> is that coroutine's
  view: the entries of an IOP are put into the ring, then completion queue entries are consumed until
  one of this IOP brings a result, then the next IOP is made, and so on. It keeps no completions, queues
  or counts; the theorem at the end shows that the warden, with all its bookkeeping, does to the ring
  and gives to the coroutine exactly this.
\<close>

subsection \<open>The coroutine's view\<close>

text \<open>A coroutine that awaits IOPs one after the other, each depending on what came of those before.\<close>

datatype 'a ring_task =
    RingReturn 'a
  | RingAwait iop_kind "ns option" "exn + ret option \<Rightarrow> 'a ring_task"

text \<open>What is left of it when it has got some results.\<close>

primrec ring_left :: "'a ring_task \<Rightarrow> (exn + ret option) list \<Rightarrow> 'a ring_task" where
  "ring_left (RingReturn a) vs = RingReturn a"
| "ring_left (RingAwait kd dl c) vs =
     (case vs of [] \<Rightarrow> RingAwait kd dl c | v # rest \<Rightarrow> ring_left (c v) rest)"

text \<open>Making IOP number \<open>i\<close> and submitting it, which throws when the ring has no room.\<close>

definition bare_uring :: "'k \<Rightarrow> 'k uring_warden" where
  "bare_uring k = \<lparr>outstanding = [], u_heap = (\<lambda>_. None), u_next = 0, u_resumer = no_requests,
     u_finished = [], u_dangling = False, u_kern = k\<rparr>"

definition submits ::
  "'k liburing \<Rightarrow> iop_kind \<Rightarrow> ns option \<Rightarrow> cid \<Rightarrow> 'k \<Rightarrow> (exn + delivery) \<times> 'k" where
  "submits ur kd dl i k =
     (let (r, w) = uring_await_suspend ur i (Coro 0) (snd (uring_new_iop kd dl ((bare_uring k)\<lparr>u_next := i\<rparr>)))
      in (case r of Inl e \<Rightarrow> Inl e | Inr h \<Rightarrow> Inr (the (u_heap w i)), u_kern w))"

text \<open>
  Where the coroutine is: it waits for an IOP, or it is over. \<open>note v\<close> is what it writes into its frame
  when it gets \<open>v\<close>; the frame is memory, a part of the kernel state.
\<close>

datatype 'a ring_phase = Waiting cid delivery "exn + ret option \<Rightarrow> 'a ring_task" | Over 'a

primrec goes_on ::
  "'k liburing \<Rightarrow> (exn + ret option \<Rightarrow> 'k \<Rightarrow> 'k) \<Rightarrow> 'a ring_task \<Rightarrow> cid \<Rightarrow> 'k \<Rightarrow> 'a ring_phase \<times> 'k" where
  "goes_on ur note (RingReturn a) i k = (Over a, k)"
| "goes_on ur note (RingAwait kd dl c) i k =
     (case submits ur kd dl i k of
        (Inl e, k1) \<Rightarrow> goes_on ur note (c (Inl e)) (Suc i) (note (Inl e) k1)
      | (Inr d, k1) \<Rightarrow> (Waiting i d c, k1))"

text \<open>One entry: only one of the IOP it waits for, and not an ignored cancellation, moves it on.\<close>

definition take_entry ::
  "'k liburing \<Rightarrow> (exn + ret option \<Rightarrow> 'k \<Rightarrow> 'k) \<Rightarrow> cqe \<Rightarrow> 'a ring_phase \<times> 'k \<Rightarrow> 'a ring_phase \<times> 'k" where
  "take_entry ur note cq s =
     (let k1 = ur_seen ur cq (snd s)
      in case fst s of
           Over a \<Rightarrow> (Over a, k1)
         | Waiting i d c \<Rightarrow>
             (if cqe_data cq = Some i
              then (case deliver_result (res cq) d of
                      None \<Rightarrow> (Waiting i d c, k1)
                    | Some d1 \<Rightarrow> goes_on ur note (c (u_value d1)) (Suc i) (note (u_value d1) k1))
              else (Waiting i d c, k1)))"

partial_function (option) take_ready ::
  "'k liburing \<Rightarrow> (exn + ret option \<Rightarrow> 'k \<Rightarrow> 'k) \<Rightarrow> 'a ring_phase \<times> 'k \<Rightarrow> ('a ring_phase \<times> 'k) option"
where
  "take_ready ur note s =
     (case ur_peek ur (snd s) of
        (None, k) \<Rightarrow> Some (fst s, k)
      | (Some cq, k) \<Rightarrow> take_ready ur note (take_entry ur note cq (fst s, k)))"

partial_function (option) await_entries ::
  "'k liburing \<Rightarrow> (exn + ret option \<Rightarrow> 'k \<Rightarrow> 'k) \<Rightarrow> 'a ring_phase \<times> 'k \<Rightarrow> ((exn + 'a) \<times> 'k) option"
where
  "await_entries ur note s =
     (case fst s of
        Over a \<Rightarrow> Some (Inr a, snd s)
      | Waiting i d c \<Rightarrow>
          (let (ret, cq, k) = ur_wait ur (ur_submit ur (snd s))
           in if ret = - EINTR then await_entries ur note (fst s, k)
              else if ret < 0 then Some (Inl (SystemError (- ret) ''uring_wait_cqe''), k)
              else (case take_ready ur note (take_entry ur note cq (fst s, k)) of
                      None \<Rightarrow> None
                    | Some s2 \<Rightarrow> await_entries ur note s2)))"

definition ring_run ::
  "'k liburing \<Rightarrow> (exn + ret option \<Rightarrow> 'k \<Rightarrow> 'k) \<Rightarrow> 'a ring_task \<Rightarrow> 'k \<Rightarrow> ((exn + 'a) \<times> 'k) option" where
  "ring_run ur note p k = await_entries ur note (goes_on ur note p 0 k)"

text \<open>What is submitted for a read.\<close>

lemma submits_read:
  assumes "ur_get_sqe ur k = (Some s, k1)"
  shows "snd (submits ur (ReadSome f n) None i k) =
      ur_fill ur s \<lparr>op = PrepRead f n, user_data = Some i, io_link = False\<rparr> k1"
  using assms
  by (simp add: submits_def bare_uring_def new_delivery_def u_store_def uring_await_suspend_def
      submit_iop_def setup_submission_def next_sqe_def setup_timeout_def fill_sqe_def Let_def)

lemma goes_on_later: "goes_on ur note q i k = (Waiting j d c, k') \<Longrightarrow> i \<le> j"
proof (induction q arbitrary: i k)
  case (RingAwait kd dl c)
  then show ?case by (auto split: prod.splits sum.splits dest!: Suc_leD) (use Suc_leD in fastforce)
qed simp

subsection \<open>The warden with such a coroutine\<close>

text \<open>
  The coroutine reads off its frame how far it has got. When it is resumed the IOP it waited for has a
  result, which it notes; the \<open>iop\<close>, a temporary, goes at the end of the expression. An exception of
  \<open>await_suspend\<close> is a result like any other.
\<close>

primrec ring_calls ::
  "'k liburing \<Rightarrow> (exn + ret option \<Rightarrow> 'k \<Rightarrow> 'k) \<Rightarrow> nat \<Rightarrow> 'a ring_task \<Rightarrow> cid \<Rightarrow> 'k uring_warden \<Rightarrow> 'k act list" where
  "ring_calls ur note h (RingReturn a) i w = [Finish h]"
| "ring_calls ur note h (RingAwait kd dl c) i w =
     (let (r, w1) = uring_await_suspend ur i (Coro h) (snd (uring_new_iop kd dl w))
      in [NewIop kd dl, Await i h] @
         (case r of
            Inr s \<Rightarrow> []
          | Inl e \<Rightarrow>
              [Kernel (note (Inl e)), DestroyIop i] @
              ring_calls ur note h (c (Inl e)) (Suc i)
                (uring_iop_destroy i (w1\<lparr>u_kern := note (Inl e) (u_kern w1)\<rparr>))))"

definition ring_coroutine ::
  "'k liburing \<Rightarrow> (exn + ret option \<Rightarrow> 'k \<Rightarrow> 'k) \<Rightarrow> ('k \<Rightarrow> (exn + ret option) list) \<Rightarrow> 'a ring_task
    \<Rightarrow> 'k uring_user" where
  "ring_coroutine ur note notes p h w =
     (let i = length (notes (u_kern w))
      in case ring_left p (notes (u_kern w)) of
           RingReturn a \<Rightarrow> [Finish h]
         | RingAwait kd dl c \<Rightarrow>
             (if u_next w = i then ring_calls ur note h (RingAwait kd dl c) i w
              else
                (let v = u_value (the (u_heap w i))
                 in [Kernel (note v), DestroyIop i] @
                    ring_calls ur note h (c v) (Suc i)
                      (uring_iop_destroy i (w\<lparr>u_kern := note v (u_kern w)\<rparr>)))))"

definition ring_returned ::
  "('k \<Rightarrow> (exn + ret option) list) \<Rightarrow> 'a ring_task \<Rightarrow> 'k uring_warden \<Rightarrow> 'a option" where
  "ring_returned notes p w =
     (case ring_left p (notes (u_kern w)) of RingReturn a \<Rightarrow> Some a | _ \<Rightarrow> None)"

text \<open>The ring does not write into the coroutine's frame.\<close>

definition keeps_frame ::
  "'k liburing \<Rightarrow> (exn + ret option \<Rightarrow> 'k \<Rightarrow> 'k) \<Rightarrow> ('k \<Rightarrow> (exn + ret option) list) \<Rightarrow> bool" where
  "keeps_frame ur note notes \<longleftrightarrow>
     (\<forall>v k. notes (note v k) = notes k @ [v]) \<and>
     (\<forall>k. notes (snd (ur_get_sqe ur k)) = notes k) \<and> (\<forall>s q k. notes (ur_fill ur s q k) = notes k) \<and>
     (\<forall>k. notes (ur_submit ur k) = notes k) \<and> (\<forall>k. notes (snd (snd (ur_wait ur k))) = notes k) \<and>
     (\<forall>k. notes (snd (ur_peek ur k)) = notes k) \<and> (\<forall>cq k. notes (ur_seen ur cq k) = notes k) \<and>
     (\<forall>k. notes (snd (os_now (ur_os ur) k)) = notes k)"

lemma ring_left_Nil [simp]: "ring_left q [] = q"
  by (cases q) simp_all

lemma ring_left_append:
  "ring_left p vs = RingAwait kd dl c \<Longrightarrow> ring_left p (vs @ [v]) = c v"
  by (induction p arbitrary: vs) (auto split: list.splits simp: Cons_eq_append_conv)

subsection \<open>Submission\<close>

text \<open>
  Submitting looks at the ring and at the IOP's own completion only: two wardens that agree on these
  stay in agreement, and nothing else changes.
\<close>

definition agree :: "cid \<Rightarrow> 'k uring_warden \<Rightarrow> 'k uring_warden \<Rightarrow> bool" where
  "agree i w v \<longleftrightarrow> u_kern w = u_kern v \<and> u_heap w i = u_heap v i"

definition others_kept :: "cid \<Rightarrow> 'k uring_warden \<Rightarrow> 'k uring_warden \<Rightarrow> bool" where
  "others_kept i w v \<longleftrightarrow> (\<forall>j. j \<noteq> i \<longrightarrow> u_heap v j = u_heap w j) \<and> u_next v = u_next w \<and>
     u_finished v = u_finished w \<and> u_resumer v = u_resumer w"

definition has_handle :: "cid \<Rightarrow> coro \<Rightarrow> 'k uring_warden \<Rightarrow> bool" where
  "has_handle i h w \<longleftrightarrow> (\<exists>d. u_heap w i = Some d \<and> iop_exists d \<and> u_handle d = h)"

lemma next_sqe_agree:
  assumes "agree i w v" "next_sqe ur w = (r, w1)" "next_sqe ur v = (r', v1)"
  shows "r' = r \<and> agree i w1 v1 \<and> others_kept i w w1 \<and> u_heap w1 i = u_heap w i"
proof -
  obtain x k1 where g: "ur_get_sqe ur (u_kern w) = (x, k1)" by (cases "ur_get_sqe ur (u_kern w)")
  have "u_kern v = u_kern w" "u_heap v i = u_heap w i" using assms(1) by (simp_all add: agree_def)
  then show ?thesis
    by (cases x) (use assms(2,3) g in \<open>auto simp: agree_def others_kept_def next_sqe_def\<close>)
qed

lemma setup_timeout_agree:
  assumes "agree i w v" "u_heap w i = Some d" "iop_exists d"
    and "setup_timeout ur i d s p w = (r, w1)" "setup_timeout ur i d s p v = (r', v1)"
  shows "r' = r \<and> agree i w1 v1 \<and> others_kept i w w1 \<and> has_handle i (u_handle d) w1"
proof (cases "u_deadline d")
  case None
  have "has_handle i (u_handle d) w" using assms(2,3) by (simp add: has_handle_def)
  then have "has_handle i (u_handle d) (fill_sqe ur s q w)" for q by (simp add: has_handle_def fill_sqe_def)
  with None assms show ?thesis
    by (auto simp: setup_timeout_def agree_def others_kept_def fill_sqe_def)
next
  case (Some dl)
  let ?f = "fill_sqe ur s \<lparr>op = p, user_data = Some i, io_link = True\<rparr>"
  obtain q w2 q' v2 where n: "next_sqe ur (?f w) = (q, w2)" "next_sqe ur (?f v) = (q', v2)" by (meson surj_pair)
  have "agree i (?f w) (?f v)" using assms(1) by (simp add: agree_def fill_sqe_def)
  note step = next_sqe_agree [OF this n]
  show ?thesis
  proof (cases q)
    case (Inl e)
    with step Some n assms(2-5) show ?thesis
      by (auto simp: setup_timeout_def fill_sqe_def others_kept_def has_handle_def)
  next
    case (Inr ts)
    have k: "u_kern v2 = u_kern w2" using step by (simp add: agree_def)
    from Inr step Some n assms(2-5) show ?thesis
      by (auto simp: setup_timeout_def fill_sqe_def others_kept_def agree_def has_handle_def
          u_store_def k Let_def split: prod.splits)
  qed
qed

text \<open>The handle is stored and an SQE is fetched.\<close>

lemma setup_submission_agree:
  assumes "agree i w v" "u_heap w i = Some d" "iop_exists d"
    and "setup_submission ur i d h w = (r, w1)" "setup_submission ur i d h v = (r', v1)"
  shows "r' = r \<and> agree i w1 v1 \<and> others_kept i w w1 \<and> u_heap w1 i = Some (d\<lparr>u_handle := h\<rparr>)"
proof -
  have "agree i (u_store i (d\<lparr>u_handle := h\<rparr>) w) (u_store i (d\<lparr>u_handle := h\<rparr>) v)"
    using assms(1) by (simp add: agree_def u_store_def)
  from next_sqe_agree [OF this assms(4,5) [unfolded setup_submission_def]] show ?thesis
    by (simp add: others_kept_def u_store_def)
qed

lemma submit_agree:
  assumes "agree i w v" "u_heap w i = Some d" "iop_exists d"
    and "submit_iop ur i d p h w = (r, w1)" "submit_iop ur i d p h v = (r', v1)"
  shows "r' = r \<and> agree i w1 v1 \<and> others_kept i w w1 \<and> has_handle i h w1"
proof -
  obtain q w2 q' v2 where n: "setup_submission ur i d h w = (q, w2)" "setup_submission ur i d h v = (q', v2)"
    by (meson surj_pair)
  note step = setup_submission_agree [OF assms(1-3) n]
  show ?thesis
  proof (cases q)
    case (Inl e)
    with step n assms(3-5) show ?thesis by (auto simp: submit_iop_def has_handle_def)
  next
    case (Inr s)
    with step n assms(4,5) have "setup_timeout ur i (d\<lparr>u_handle := h\<rparr>) s p w2 = (r, w1)"
        "setup_timeout ur i (d\<lparr>u_handle := h\<rparr>) s p v2 = (r', v1)"
      by (simp_all add: submit_iop_def)
    from setup_timeout_agree [OF _ _ _ this] step assms(3) show ?thesis
      by (auto simp: others_kept_def)
  qed
qed

lemma submit_sleep_agree:
  assumes "agree i w v" "u_heap w i = Some d" "iop_exists d"
    and "submit_sleep ur i d h w = (r, w1)" "submit_sleep ur i d h v = (r', v1)"
  shows "r' = r \<and> agree i w1 v1 \<and> others_kept i w w1 \<and> has_handle i h w1"
proof -
  obtain q w2 q' v2 where n: "setup_submission ur i d h w = (q, w2)" "setup_submission ur i d h v = (q', v2)"
    by (meson surj_pair)
  note step = setup_submission_agree [OF assms(1-3) n]
  have "has_handle i h w2" using step assms(3) by (simp add: has_handle_def)
  moreover from this have "has_handle i h (fill_sqe ur s q w2)" for s q
    by (simp add: has_handle_def fill_sqe_def)
  moreover have "agree i (fill_sqe ur s q w2) (fill_sqe ur s q v2)" "others_kept i w (fill_sqe ur s q w2)" for s q
    using step by (simp_all add: agree_def others_kept_def fill_sqe_def)
  ultimately show ?thesis using n assms(4,5) step by (cases q) (auto simp: submit_sleep_def)
qed

lemma suspend_agree:
  assumes "agree i w v" "u_heap w i = Some d" "iop_exists d"
    and "uring_await_suspend ur i h w = (r, w1)" "uring_await_suspend ur i h v = (r', v1)"
  shows "r' = r \<and> agree i w1 v1 \<and> others_kept i w w1 \<and> has_handle i h w1"
proof -
  have "u_heap v i = Some d" using assms(1,2) by (simp add: agree_def)
  with assms show ?thesis
    using submit_agree [OF assms(1-3)] submit_sleep_agree [OF assms(1-3)]
    by (cases "u_kind d"; simp add: uring_await_suspend_def; metis)
qed

lemma new_iop_fields:
  "\<exists>d. iop_exists d \<and> (\<forall>w. u_heap (snd (uring_new_iop kd dl w)) = (u_heap w)(u_next w \<mapsto> d) \<and>
     u_next (snd (uring_new_iop kd dl w)) = Suc (u_next w) \<and>
     u_finished (snd (uring_new_iop kd dl w)) = u_finished w \<and>
     u_resumer (snd (uring_new_iop kd dl w)) = u_resumer w \<and>
     u_kern (snd (uring_new_iop kd dl w)) = u_kern w)"
  by (rule exI [of _ "the (u_heap (snd (uring_new_iop kd dl (bare_uring ()))) 0)"])
    (cases kd; simp add: new_delivery_def u_store_def bare_uring_def Let_def)

text \<open>What making and submitting an IOP leaves, whatever else the warden holds.\<close>

lemma submits_runs:
  fixes w :: "'k uring_warden"
  assumes "u_next w = i" "u_kern w = k"
    and "uring_await_suspend ur i (Coro 0) (snd (uring_new_iop kd dl w)) = (r, w1)"
    and "submits ur kd dl i k = (q, k1)"
  shows "u_kern w1 = k1 \<and> u_next w1 = Suc i \<and> u_finished w1 = u_finished w \<and> u_resumer w1 = u_resumer w \<and>
    (\<forall>j. j \<noteq> i \<longrightarrow> u_heap w1 j = u_heap w j) \<and>
    (\<exists>d. u_heap w1 i = Some d \<and> iop_exists d \<and> u_handle d = Coro 0 \<and>
       q = (case r of Inl e \<Rightarrow> Inl e | Inr h \<Rightarrow> Inr d))"
proof -
  let ?new = "\<lambda>w. snd (uring_new_iop kd dl w)"
  let ?b = "(bare_uring k)\<lparr>u_next := i\<rparr>"
  obtain r0 v1 where b: "uring_await_suspend ur i (Coro 0) (?new ?b) = (r0, v1)" by (meson surj_pair)
  obtain d where d: "iop_exists d" and f: "\<And>w :: 'k uring_warden. u_heap (?new w) = (u_heap w)(u_next w \<mapsto> d) \<and>
      u_next (?new w) = Suc (u_next w) \<and> u_finished (?new w) = u_finished w \<and>
      u_resumer (?new w) = u_resumer w \<and> u_kern (?new w) = u_kern w"
    using new_iop_fields [of kd dl] by blast
  have "agree i (?new w) (?new ?b)"
    using assms(1,2) f [of w] f [of ?b] by (simp add: agree_def) (simp add: bare_uring_def)
  from suspend_agree [OF this _ d assms(3) b] f [of w] assms(1)
  have s: "r0 = r" "agree i w1 v1" "others_kept i (?new w) w1" "has_handle i (Coro 0) w1" by auto
  with f [of w] assms(1,4) b show ?thesis
    by (auto simp: submits_def agree_def others_kept_def has_handle_def split: sum.splits)
qed

subsection \<open>The state of the warden\<close>

definition gone :: "'k uring_warden \<Rightarrow> cid \<Rightarrow> bool" where
  "gone w j \<longleftrightarrow> (\<forall>d. u_heap w j = Some d \<longrightarrow> \<not> iop_exists d)"

lemma gone_updates [simp]:
  "gone (w\<lparr>u_kern := k\<rparr>) j = gone w j" "gone (w\<lparr>u_dangling := b\<rparr>) j = gone w j"
  "gone (w\<lparr>u_finished := f\<rparr>) j = gone w j"
  by (simp_all add: gone_def)

definition tracks ::
  "('k \<Rightarrow> (exn + ret option) list) \<Rightarrow> 'a ring_task \<Rightarrow> 'a ring_phase \<times> 'k \<Rightarrow> 'k uring_warden \<Rightarrow> bool" where
  "tracks notes p s w \<longleftrightarrow>
     u_kern w = snd s \<and> u_resumer w = no_requests \<and>
     (case fst s of
        Over a \<Rightarrow> u_finished w = [0] \<and> ring_left p (notes (snd s)) = RingReturn a \<and> (\<forall>j. gone w j)
      | Waiting i d c \<Rightarrow>
          u_finished w = [] \<and> u_next w = Suc i \<and> length (notes (snd s)) = i \<and>
          (\<exists>kd dl. ring_left p (notes (snd s)) = RingAwait kd dl c) \<and>
          iop_exists d \<and> u_handle d = Coro 0 \<and> (\<exists>n. u_heap w i = Some (d\<lparr>iop_count := n\<rparr>)) \<and>
          (\<forall>j. j \<noteq> i \<longrightarrow> gone w j))"

lemma keeps_frameD:
  assumes "keeps_frame ur note notes"
  shows "notes (note v k) = notes k @ [v]" "notes (ur_fill ur s q k) = notes k"
    "notes (ur_submit ur k) = notes k" "notes (ur_seen ur cq k) = notes k"
    "ur_get_sqe ur k = (x, k1) \<Longrightarrow> notes k1 = notes k" "ur_wait ur k = (ret, cq, k1) \<Longrightarrow> notes k1 = notes k"
    "ur_peek ur k = (y, k1) \<Longrightarrow> notes k1 = notes k" "os_now (ur_os ur) k = (t, k1) \<Longrightarrow> notes k1 = notes k"
  using assms unfolding keeps_frame_def by (metis snd_conv)+

text \<open>Submitting does not touch the frame.\<close>

lemma next_sqe_notes:
  "keeps_frame ur note notes \<Longrightarrow> next_sqe ur w = (r, w1) \<Longrightarrow> notes (u_kern w1) = notes (u_kern w)"
  by (auto simp: next_sqe_def dest: keeps_frameD(5) split: prod.splits option.splits)

lemma setup_timeout_notes:
  assumes "keeps_frame ur note notes"
  shows "notes (u_kern (snd (setup_timeout ur c d s p w))) = notes (u_kern w)"
proof -
  have "notes (u_kern w1) = notes (u_kern w)"
    if "next_sqe ur (fill_sqe ur s q w) = (r, w1)" for q r w1
    using next_sqe_notes [OF assms that] keeps_frameD(2) [OF assms] by (simp add: fill_sqe_def)
  then show ?thesis
    using keeps_frameD(2,8) [OF assms]
    by (auto simp: setup_timeout_def fill_sqe_def u_store_def Let_def split: option.split prod.split sum.split)
qed

lemma suspend_notes:
  assumes "keeps_frame ur note notes"
  shows "notes (u_kern (snd (uring_await_suspend ur c h w))) = notes (u_kern w)"
proof -
  have set: "notes (u_kern w1) = notes (u_kern w)" if "setup_submission ur c d h w = (r, w1)" for d r w1
    using next_sqe_notes [OF assms that [unfolded setup_submission_def]] by (simp add: u_store_def)
  have "notes (u_kern (snd (submit_iop ur c d p h w))) = notes (u_kern w)" for d p
    using set setup_timeout_notes [OF assms] by (auto simp: submit_iop_def split: prod.split sum.split)
  moreover have "notes (u_kern (snd (submit_sleep ur c d h w))) = notes (u_kern w)" for d
    using set keeps_frameD(2) [OF assms]
    by (auto simp: submit_sleep_def fill_sqe_def split: prod.split sum.split)
  ultimately show ?thesis
    by (auto simp: uring_await_suspend_def split: option.split iop_kind.split)
qed

lemma submits_notes:
  assumes "keeps_frame ur note notes" "submits ur kd dl i k = (q, k1)"
  shows "notes k1 = notes k"
proof -
  have "u_kern (snd (uring_new_iop kd dl ((bare_uring k)\<lparr>u_next := i\<rparr>))) = k"
    using new_iop_fields [of kd dl] by (auto simp: bare_uring_def)
  with suspend_notes [OF assms(1), of i "Coro 0" "snd (uring_new_iop kd dl ((bare_uring k)\<lparr>u_next := i\<rparr>))"]
  show ?thesis using assms(2) by (auto simp: submits_def split: prod.splits)
qed

text \<open>The end of an IOP, and the count-down of one that has ended, touch that one only.\<close>

lemma destroy_fields:
  "u_kern (uring_iop_destroy i w) = u_kern w" "u_next (uring_iop_destroy i w) = u_next w"
  "u_finished (uring_iop_destroy i w) = u_finished w" "u_resumer (uring_iop_destroy i w) = u_resumer w"
  "j \<noteq> i \<Longrightarrow> u_heap (uring_iop_destroy i w) j = u_heap w j" "gone (uring_iop_destroy i w) i"
  by (auto simp: uring_iop_destroy_def delete_due_to_iop_destructed_def u_store_def u_delete_def
      gone_def Let_def split: option.split)

lemma gone_heap: "u_heap w j = u_heap v j \<Longrightarrow> gone w j = gone v j"
  by (simp add: gone_def)

lemma gone_destroy: "gone (uring_iop_destroy i w) j \<longleftrightarrow> j = i \<or> gone w j"
proof (cases "j = i")
  case False
  then show ?thesis using gone_heap [OF destroy_fields(5)] by simp
qed (simp add: destroy_fields(6))

lemma gone_store: "j \<noteq> i \<Longrightarrow> gone (u_store i d w) j = gone w j"
  by (simp add: gone_def u_store_def)

lemma count_down_fields:
  "u_kern (count_down c w) = u_kern w" "u_finished (count_down c w) = u_finished w"
  "u_next (count_down c w) = u_next w" "u_resumer (count_down c w) = u_resumer w"
  "j \<noteq> c \<Longrightarrow> u_heap (count_down c w) j = u_heap w j" "gone w c \<Longrightarrow> gone (count_down c w) c"
  by (auto simp: count_down_def u_store_def u_delete_def gone_def Let_def split: option.splits)

lemma count_down_live:
  "u_heap w c = Some d \<Longrightarrow> iop_exists d \<Longrightarrow>
   u_heap (count_down c w) c = Some (d\<lparr>iop_count := iop_count d - 1\<rparr>)"
  by (simp add: count_down_def u_store_def Let_def)

lemma tracks_count_down:
  assumes "tracks notes p s w" "gone w b"
  shows "tracks notes p s (count_down b w)"
proof -
  have g: "gone (count_down b w) j" if "gone w j" for j
    using that assms(2) count_down_fields(5,6) gone_heap by metis
  have "u_heap (count_down b w) j = Some (d\<lparr>iop_count := n\<rparr>)"
    if "u_heap w j = Some (d\<lparr>iop_count := n\<rparr>)" "iop_exists d" for j d n
    using that assms(2) by (cases "j = b") (auto simp: gone_def count_down_fields)
  with assms(1) g show ?thesis
    by (cases "fst s") (auto simp: tracks_def count_down_fields(1-4))
qed

text \<open>Going on, from a state in which nothing is awaited.\<close>

definition between :: "('k \<Rightarrow> (exn + ret option) list) \<Rightarrow> cid \<Rightarrow> 'k \<Rightarrow> 'k uring_warden \<Rightarrow> bool" where
  "between notes i k w \<longleftrightarrow> u_kern w = k \<and> u_resumer w = no_requests \<and> u_finished w = [] \<and>
     u_next w = i \<and> length (notes k) = i \<and> (\<forall>j. gone w j)"

lemma ring_calls_track:
  assumes laws: "keeps_frame ur note notes"
  shows "between notes i k w \<Longrightarrow> ring_left p (notes k) = q \<Longrightarrow>
    tracks notes p (goes_on ur note q i k) (fold (uring_exec ur) (ring_calls ur note 0 q i w) w)"
proof (induction q arbitrary: i k w)
  case (RingReturn a)
  then show ?case by (auto simp: between_def tracks_def)
next
  case (RingAwait kd dl c)
  let ?new = "snd (uring_new_iop kd dl w)"
  obtain r w1 where r: "uring_await_suspend ur i (Coro 0) ?new = (r, w1)" by (meson surj_pair)
  obtain q k1 where q: "submits ur kd dl i k = (q, k1)" by (meson surj_pair)
  from RingAwait.prems have w: "u_next w = i" "u_kern w = k" "u_resumer w = no_requests" "u_finished w = []"
      "length (notes k) = i" "\<forall>j. gone w j" by (simp_all add: between_def)
  from submits_runs [OF w(1,2) r q] obtain d where w1: "u_kern w1 = k1" "u_next w1 = Suc i"
      "u_finished w1 = []" "u_resumer w1 = no_requests" "\<forall>j. j \<noteq> i \<longrightarrow> u_heap w1 j = u_heap w j"
      "u_heap w1 i = Some d" "iop_exists d" "u_handle d = Coro 0"
      "q = (case r of Inl e \<Rightarrow> Inl e | Inr h \<Rightarrow> Inr d)"
    using w(3,4) by auto
  have g: "gone w1 j" if "j \<noteq> i" for j using that w(6) w1(5) gone_heap by metis
  have n: "notes k1 = notes k" by (rule submits_notes [OF laws q])
  show ?case
  proof (cases r)
    case (Inr h)
    have "\<exists>n. u_heap w1 i = Some (d\<lparr>iop_count := n\<rparr>)"
      using w1(6) by (intro exI [of _ "iop_count d"]) simp
    with Inr r q w1 g n w(5) RingAwait.prems(2) show ?thesis
      by (simp add: tracks_def)
  next
    case (Inl e)
    let ?k = "note (Inl e) k1" and ?w2 = "uring_iop_destroy i (w1\<lparr>u_kern := note (Inl e) (u_kern w1)\<rparr>)"
    have "gone ?w2 j" for j
      using g [of j] by (auto simp: gone_destroy)
    then have "between notes (Suc i) ?k ?w2"
      using w1 n w(5) by (simp add: between_def destroy_fields keeps_frameD(1) [OF laws])
    moreover have "ring_left p (notes ?k) = c (Inl e)"
      using RingAwait.prems(2) n by (simp add: keeps_frameD(1) [OF laws] ring_left_append)
    ultimately show ?thesis
      using RingAwait.IH [of "c (Inl e)" "Suc i" ?k ?w2] Inl r q w1(9) by simp
  qed
qed

text \<open>An entry does to the warden what it does to the coroutine's view.\<close>

lemma tracks_entry:
  assumes laws: "keeps_frame ur note notes" and t: "tracks notes p s w"
  shows "tracks notes p (take_entry ur note cq s) (execute ur (ring_coroutine ur note notes p) cq w)"
proof -
  let ?u = "ring_coroutine ur note notes p"
  let ?k = "ur_seen ur cq (snd s)"
  let ?w1 = "w\<lparr>u_kern := ?k\<rparr>"
  have k: "u_kern w = snd s" using t by (simp add: tracks_def)
  have n: "notes ?k = notes (snd s)" by (rule keeps_frameD(4) [OF laws])
  have t1: "tracks notes p (fst s, ?k) ?w1" "tracks notes p (fst s, ?k) (?w1\<lparr>u_dangling := True\<rparr>)"
    using t by (auto simp: tracks_def n split: ring_phase.split_asm ring_phase.split)
  have other: ?thesis if e: "take_entry ur note cq s = (fst s, ?k)"
    and b: "\<And>b. cqe_data cq = Some b \<Longrightarrow> gone w b"
  proof (cases "cqe_data cq")
    case None
    with e t1 k show ?thesis by (simp add: execute_def)
  next
    case (Some b)
    then have g: "gone ?w1 b" using b by (simp add: gone_def)
    then have "execute ur ?u cq w = ?w1\<lparr>u_dangling := True\<rparr> \<or> execute ur ?u cq w = count_down b ?w1"
      using Some k by (cases "u_heap w b") (auto simp: execute_def gone_def Let_def)
    with tracks_count_down [OF t1(1) g] t1(2) e show ?thesis by auto
  qed
  show ?thesis
  proof (cases "fst s")
    case (Over a)
    show ?thesis
      by (rule other) (use Over t in \<open>simp_all add: take_entry_def tracks_def\<close>)
  next
    case (Waiting i d c)
    with t obtain m kd dl where w: "u_finished w = []" "u_next w = Suc i" "length (notes (snd s)) = i"
        "ring_left p (notes (snd s)) = RingAwait kd dl c" "iop_exists d" "u_handle d = Coro 0"
        "u_heap w i = Some (d\<lparr>iop_count := m\<rparr>)" "\<forall>j. j \<noteq> i \<longrightarrow> gone w j" "u_resumer w = no_requests"
      by (auto simp: tracks_def)
    show ?thesis
    proof (cases "cqe_data cq = Some i")
      case False
      show ?thesis
        by (rule other) (use False Waiting w in \<open>auto simp: take_entry_def\<close>)
    next
      case True
      have ex: "execute ur ?u cq w = count_down i (deliver ur ?u i (d\<lparr>iop_count := m\<rparr>) (res cq) ?w1)"
        using True w k by (simp add: execute_def Let_def)
      show ?thesis
      proof (cases "deliver_result (res cq) d")
        case None
        then have "execute ur ?u cq w = count_down i ?w1"
          using ex by (simp add: deliver_def deliver_result_count)
        with None True Waiting w n show ?thesis
          by (auto simp: take_entry_def tracks_def count_down_fields count_down_live gone_def)
      next
        case (Some d1)
        let ?d1 = "d1\<lparr>iop_count := m\<rparr>" and ?v = "u_value d1"
        let ?w2 = "u_store i ?d1 ?w1"
        let ?w3 = "uring_iop_destroy i (?w2\<lparr>u_kern := note ?v ?k\<rparr>)"
        have d1: "deliver_result (res cq) (d\<lparr>iop_count := m\<rparr>) = Some ?d1" "u_handle d1 = Coro 0"
          using Some deliver_result_keeps [OF Some] w(6) by (simp_all add: deliver_result_count)
        have "ring_left p (notes ?k) = RingAwait kd dl c" "length (notes ?k) = i" using w n by simp_all
        then have acts: "?u 0 ?w2 = [Kernel (note ?v), DestroyIop i] @ ring_calls ur note 0 (c ?v) (Suc i) ?w3"
          using w by (simp add: ring_coroutine_def u_store_def u_value_count Let_def)
        have "gone ?w3 j" for j
          using w(8) by (cases "j = i") (simp_all add: gone_destroy gone_store)
        then have "between notes (Suc i) (note ?v ?k) ?w3"
          using w n by (simp add: between_def destroy_fields u_store_def keeps_frameD(1) [OF laws])
        moreover have "ring_left p (notes (note ?v ?k)) = c ?v"
          using w(4) n by (simp add: keeps_frameD(1) [OF laws] ring_left_append)
        ultimately have "tracks notes p (goes_on ur note (c ?v) (Suc i) (note ?v ?k))
            (fold (uring_exec ur) (ring_calls ur note 0 (c ?v) (Suc i) ?w3) ?w3)"
          by (rule ring_calls_track [OF laws])
        moreover have "deliver ur ?u i (d\<lparr>iop_count := m\<rparr>) (res cq) ?w1 =
            fold (uring_exec ur) (ring_calls ur note 0 (c ?v) (Suc i) ?w3) ?w3"
          using d1 acts by (simp add: deliver_def u_store_def)
        ultimately have t3: "tracks notes p (goes_on ur note (c ?v) (Suc i) (note ?v ?k))
            (deliver ur ?u i (d\<lparr>iop_count := m\<rparr>) (res cq) ?w1)" by simp
        have "gone (deliver ur ?u i (d\<lparr>iop_count := m\<rparr>) (res cq) ?w1) i"
        proof (cases "goes_on ur note (c ?v) (Suc i) (note ?v ?k)")
          case (Pair ph k')
          show ?thesis
          proof (cases ph)
            case (Over a)
            with Pair t3 show ?thesis by (simp add: tracks_def)
          next
            case (Waiting j d' c')
            have "Suc i \<le> j" by (rule goes_on_later [OF Pair [unfolded Waiting]])
            with Pair Waiting t3 show ?thesis by (simp add: tracks_def)
          qed
        qed
        from tracks_count_down [OF t3 this] show ?thesis
          using Some True Waiting by (simp add: take_entry_def ex)
      qed
    qed
  qed
qed

subsection \<open>The loops\<close>

lemma tracks_kern:
  "tracks notes p s w \<Longrightarrow> notes k = notes (snd s) \<Longrightarrow> tracks notes p (fst s, k) (w\<lparr>u_kern := k\<rparr>)"
  by (auto simp: tracks_def split: ring_phase.split_asm ring_phase.split)

lemma tracks_finished: "tracks notes p s w \<Longrightarrow> 0 \<in> set (u_finished w) \<longleftrightarrow> (\<exists>a. fst s = Over a)"
  by (cases "fst s") (auto simp: tracks_def)

lemma peek_taken:
  assumes run: "peek_loop ur user w = Some w'"
    and "keeps_frame ur note notes" "user = ring_coroutine ur note notes p" "tracks notes p s w"
  shows "\<exists>s'. take_ready ur note s = Some s' \<and> tracks notes p s' w'"
proof -
  let ?P = "\<lambda>ur user w w'. keeps_frame ur note notes \<longrightarrow> user = ring_coroutine ur note notes p \<longrightarrow>
    (\<forall>s. tracks notes p s w \<longrightarrow> (\<exists>s'. take_ready ur note s = Some s' \<and> tracks notes p s' w'))"
  have "?P ur user w w'"
  proof (rule peek_loop.raw_induct [where P = ?P, OF _ run], intro impI allI)
    fix f and ur :: "'a liburing" and user w w' s
    assume IH: "\<And>(ur :: 'a liburing) user w w'. f ur user w = Some w' \<Longrightarrow> ?P ur user w w'"
      and eq: "(case ur_peek ur (u_kern w) of
          (None, k) \<Rightarrow> Some (w\<lparr>u_kern := k\<rparr>)
        | (Some cq, k) \<Rightarrow> f ur user (execute ur user cq (w\<lparr>u_kern := k\<rparr>))) = Some w'"
      and laws: "keeps_frame ur note notes" and user: "user = ring_coroutine ur note notes p"
      and t: "tracks notes p s w"
    have k: "u_kern w = snd s" using t by (simp add: tracks_def)
    obtain q k where q: "ur_peek ur (snd s) = (q, k)" by (cases "ur_peek ur (snd s)")
    note t1 = tracks_kern [OF t keeps_frameD(7) [OF laws q]]
    show "\<exists>s'. take_ready ur note s = Some s' \<and> tracks notes p s' w'"
    proof (cases q)
      case None
      with eq k q have "w' = w\<lparr>u_kern := k\<rparr>" by simp
      with None q t1 show ?thesis by (simp add: take_ready.simps)
    next
      case (Some cq)
      with eq k q have "f ur user (execute ur user cq (w\<lparr>u_kern := k\<rparr>)) = Some w'" by simp
      moreover have "tracks notes p (take_entry ur note cq (fst s, k)) (execute ur user cq (w\<lparr>u_kern := k\<rparr>))"
        using tracks_entry [OF laws t1] user by simp
      ultimately obtain s' where "take_ready ur note (take_entry ur note cq (fst s, k)) = Some s'"
          "tracks notes p s' w'" using IH user laws by blast
      with Some q show ?thesis by (simp add: take_ready.simps [of ur "note" s])
    qed
  qed
  with assms show ?thesis by blast
qed

lemma taken_peek:
  assumes run: "take_ready ur note s = Some s'" and "keeps_frame ur note notes" "tracks notes p s w"
  shows "\<exists>w'. peek_loop ur (ring_coroutine ur note notes p) w = Some w' \<and> tracks notes p s' w'"
proof -
  let ?P = "\<lambda>ur note s s'. keeps_frame ur note notes \<longrightarrow> (\<forall>w. tracks notes p s w \<longrightarrow>
    (\<exists>w'. peek_loop ur (ring_coroutine ur note notes p) w = Some w' \<and> tracks notes p s' w'))"
  have "?P ur note s s'"
  proof (rule take_ready.raw_induct [where P = ?P, OF _ run], intro impI allI)
    fix f and ur :: "'b liburing" and "note" and s s' :: "'a ring_phase \<times> 'b" and w
    assume IH: "\<And>(ur :: 'b liburing) note s s'. f ur note s = Some s' \<Longrightarrow> ?P ur note s s'"
      and eq: "(case ur_peek ur (snd s) of
          (None, k) \<Rightarrow> Some (fst s, k)
        | (Some cq, k) \<Rightarrow> f ur note (take_entry ur note cq (fst s, k))) = Some s'"
      and laws: "keeps_frame ur note notes" and t: "tracks notes p s w"
    let ?u = "ring_coroutine ur note notes p"
    have k: "u_kern w = snd s" using t by (simp add: tracks_def)
    obtain q k where q: "ur_peek ur (snd s) = (q, k)" by (cases "ur_peek ur (snd s)")
    note t1 = tracks_kern [OF t keeps_frameD(7) [OF laws q]]
    show "\<exists>w'. peek_loop ur ?u w = Some w' \<and> tracks notes p s' w'"
    proof (cases q)
      case None
      with eq q have "s' = (fst s, k)" by simp
      with None q k t1 show ?thesis by (simp add: peek_loop.simps)
    next
      case (Some cq)
      with eq q have "f ur note (take_entry ur note cq (fst s, k)) = Some s'" by simp
      from IH [OF this] laws tracks_entry [OF laws t1]
      obtain w' where "peek_loop ur ?u (execute ur ?u cq (w\<lparr>u_kern := k\<rparr>)) = Some w'"
          "tracks notes p s' w'" by blast
      with Some q k show ?thesis by (simp add: peek_loop.simps [of ur ?u w])
    qed
  qed
  with assms show ?thesis by blast
qed

lemma tracks_queue:
  assumes "tracks notes p s w"
  shows "tracks notes p s (uring_resume_queued ur user w)"
proof -
  have "swap_queues no_requests = no_requests" by (simp add: swap_queues_def no_requests_def)
  moreover have "u_resumer w = no_requests" using assms by (simp add: tracks_def)
  ultimately have "uring_resume_queued ur user w = w\<lparr>u_resumer := no_requests\<rparr>"
    by (simp add: uring_resume_queued_def uring_queue.resume_all_runs_queue no_requests_def
        swap_queues_def Let_def)
  moreover have "w\<lparr>u_resumer := no_requests\<rparr> = w"
    using assms by (simp add: tracks_def)
  ultimately show ?thesis using assms by simp
qed

lemma run_awaited:
  assumes run: "uring_run_loop ur user 0 w = Some q"
    and "keeps_frame ur note notes" "user = ring_coroutine ur note notes p" "tracks notes p s w"
  shows "case fst q of
      Inl e \<Rightarrow> await_entries ur note s = Some (Inl e, u_kern (snd q))
    | Inr u \<Rightarrow> \<exists>a. await_entries ur note s = Some (Inr a, u_kern (snd q)) \<and>
        ring_returned notes p (snd q) = Some a"
proof -
  let ?Q = "\<lambda>ur s q. case fst q of
      Inl e \<Rightarrow> await_entries ur note s = Some (Inl e, u_kern (snd q))
    | Inr (u :: unit) \<Rightarrow> \<exists>a. await_entries ur note s = Some (Inr a, u_kern (snd q)) \<and>
        ring_returned notes p (snd q) = Some a"
  let ?P = "\<lambda>ur user (co :: nat) w q. co = 0 \<longrightarrow> keeps_frame ur note notes \<longrightarrow>
    user = ring_coroutine ur note notes p \<longrightarrow> (\<forall>s. tracks notes p s w \<longrightarrow> ?Q ur s q)"
  have "?P ur user 0 w q"
  proof (rule uring_run_loop.raw_induct [where P = ?P, OF _ run], intro impI allI)
    fix f and ur :: "'a liburing" and user co w and q :: "(exn + unit) \<times> 'a uring_warden" and s
    assume IH: "\<And>(ur :: 'a liburing) user co w q. f ur user co w = Some q \<Longrightarrow> ?P ur user co w q"
      and eq: "(if co \<in> set (u_finished w) then Some (Inr (), w)
        else let (ret, cq, k) = ur_wait ur (ur_submit ur (u_kern w)); w1 = w\<lparr>u_kern := k\<rparr>
          in if ret = - EINTR then f ur user co w1
             else if ret < 0 then Some (Inl (SystemError (- ret) ''uring_wait_cqe''), w1)
             else case peek_loop ur user (execute ur user cq w1) of None \<Rightarrow> None
               | Some w2 \<Rightarrow> f ur user co (uring_resume_queued ur user w2)) = Some q"
      and co: "co = 0" and laws: "keeps_frame ur note notes" and user: "user = ring_coroutine ur note notes p"
      and t: "tracks notes p s w"
    have k: "u_kern w = snd s" using t by (simp add: tracks_def)
    show "?Q ur s q"
    proof (cases "fst s")
      case (Over a)
      then have "0 \<in> set (u_finished w)" using tracks_finished [OF t] by blast
      with eq co have "q = (Inr (), w)" by simp
      with Over t show ?thesis by (simp add: await_entries.simps tracks_def ring_returned_def)
    next
      case (Waiting i d c)
      then have fin: "0 \<notin> set (u_finished w)" using tracks_finished [OF t] by simp
      obtain ret cq k1 where wt: "ur_wait ur (ur_submit ur (snd s)) = (ret, cq, k1)"
        by (metis prod_cases3)
      note eq1 = eq [unfolded k wt Let_def co, simplified fin if_False prod.case]
      have "notes k1 = notes (snd s)" using keeps_frameD(3,6) [OF laws] wt by metis
      note t1 = tracks_kern [OF t this]
      note unfold = await_entries.simps [of ur "note" s]
      consider "ret = - EINTR" | "ret \<noteq> - EINTR" "ret < 0" | "ret \<noteq> - EINTR" "0 \<le> ret" by linarith
      then show ?thesis
      proof cases
        case 1
        with eq1 have "f ur user 0 (w\<lparr>u_kern := k1\<rparr>) = Some q" by simp
        with IH user laws t1 have "?Q ur (fst s, k1) q" by blast
        moreover have "await_entries ur note s = await_entries ur note (fst s, k1)"
          using 1 Waiting wt by (simp add: unfold)
        ultimately show ?thesis by (simp only:)
      next
        case 2
        with eq1 have "q = (Inl (SystemError (- ret) ''uring_wait_cqe''), w\<lparr>u_kern := k1\<rparr>)" by simp
        with 2 Waiting wt show ?thesis by (simp add: unfold)
      next
        case 3
        with eq1 obtain w2 where pl: "peek_loop ur user (execute ur user cq (w\<lparr>u_kern := k1\<rparr>)) = Some w2"
            and rest: "f ur user 0 (uring_resume_queued ur user w2) = Some q"
          by (auto split: option.splits)
        have "tracks notes p (take_entry ur note cq (fst s, k1)) (execute ur user cq (w\<lparr>u_kern := k1\<rparr>))"
          using tracks_entry [OF laws t1] user by simp
        from peek_taken [OF pl laws user this] obtain s2 where
          s2: "take_ready ur note (take_entry ur note cq (fst s, k1)) = Some s2" "tracks notes p s2 w2" by blast
        from IH rest user laws tracks_queue [OF s2(2)] have "?Q ur s2 q" by blast
        moreover have "await_entries ur note s = await_entries ur note s2"
          using 3 Waiting wt s2(1) by (simp add: unfold)
        ultimately show ?thesis by (simp only:)
      qed
    qed
  qed
  with assms show ?thesis by blast
qed

lemma awaited_run:
  assumes run: "await_entries ur note s = Some q" and "keeps_frame ur note notes" "tracks notes p s w"
  shows "uring_run_loop ur (ring_coroutine ur note notes p) 0 w \<noteq> None"
proof -
  let ?P = "\<lambda>ur note s q. keeps_frame ur note notes \<longrightarrow> (\<forall>w. tracks notes p s w \<longrightarrow>
    uring_run_loop ur (ring_coroutine ur note notes p) 0 w \<noteq> None)"
  have "?P ur note s q"
  proof (rule await_entries.raw_induct [where P = ?P, OF _ run], intro impI allI)
    fix f and ur :: "'b liburing" and "note" and s :: "'a ring_phase \<times> 'b" and q w
    assume IH: "\<And>(ur :: 'b liburing) note (s :: 'a ring_phase \<times> 'b) q. f ur note s = Some q \<Longrightarrow> ?P ur note s q"
      and eq: "(case fst s of
          Over a \<Rightarrow> Some (Inr a, snd s)
        | Waiting i d c \<Rightarrow>
            let (ret, cq, k) = ur_wait ur (ur_submit ur (snd s))
            in if ret = - EINTR then f ur note (fst s, k)
               else if ret < 0 then Some (Inl (SystemError (- ret) ''uring_wait_cqe''), k)
               else case take_ready ur note (take_entry ur note cq (fst s, k)) of None \<Rightarrow> None
                 | Some s2 \<Rightarrow> f ur note s2) = Some q"
      and laws: "keeps_frame ur note notes" and t: "tracks notes p s w"
    let ?u = "ring_coroutine ur note notes p"
    have k: "u_kern w = snd s" using t by (simp add: tracks_def)
    show "uring_run_loop ur ?u 0 w \<noteq> None"
    proof (cases "fst s")
      case (Over a)
      then have "0 \<in> set (u_finished w)" using tracks_finished [OF t] by blast
      then show ?thesis by (simp add: uring_run_loop_done)
    next
      case (Waiting i d c)
      then have fin: "0 \<notin> set (u_finished w)" using tracks_finished [OF t] by simp
      obtain ret cq k1 where wt: "ur_wait ur (ur_submit ur (snd s)) = (ret, cq, k1)"
        by (metis prod_cases3)
      note eq1 = eq [unfolded wt Let_def, simplified Waiting ring_phase.case prod.case]
      note unfold = uring_run_loop.simps [of ur ?u 0 w]
      have "notes k1 = notes (snd s)" using keeps_frameD(3,6) [OF laws] wt by metis
      note t1 = tracks_kern [OF t this]
      consider "ret = - EINTR" | "ret \<noteq> - EINTR" "ret < 0" | "ret \<noteq> - EINTR" "0 \<le> ret" by linarith
      then show ?thesis
      proof cases
        case 1
        with eq1 Waiting have "f ur note (fst s, k1) = Some q" by simp
        with IH laws t1 have "uring_run_loop ur ?u 0 (w\<lparr>u_kern := k1\<rparr>) \<noteq> None" by blast
        with 1 fin k wt show ?thesis by (simp add: unfold Let_def)
      next
        case 2
        with fin k wt show ?thesis by (simp add: unfold Let_def)
      next
        case 3
        with eq1 Waiting obtain s2 where s2: "take_ready ur note (take_entry ur note cq (fst s, k1)) = Some s2"
            and rest: "f ur note s2 = Some q"
          by (auto split: option.splits)
        from taken_peek [OF s2 laws tracks_entry [OF laws t1]] obtain w2 where
          w2: "peek_loop ur ?u (execute ur ?u cq (w\<lparr>u_kern := k1\<rparr>)) = Some w2" "tracks notes p s2 w2" by blast
        from IH rest laws tracks_queue [OF w2(2)]
        have "uring_run_loop ur ?u 0 (uring_resume_queued ur ?u w2) \<noteq> None" by blast
        with 3 fin k wt w2(1) show ?thesis by (simp add: unfold Let_def)
      qed
    qed
  qed
  with assms show ?thesis by blast
qed

text \<open>How a run starts.\<close>

lemma start_tracks:
  assumes "new_uring_warden ur entries flags k0 = Inr w" "keeps_frame ur note notes" "notes (u_kern w) = []"
  shows "tracks notes p (goes_on ur note p 0 (u_kern w))
    (uring_resume ur (ring_coroutine ur note notes p) (Coro 0) w)"
proof -
  have w: "u_next w = 0" "u_heap w = (\<lambda>_. None)" "u_resumer w = no_requests" "u_finished w = []"
    using assms(1) by (auto simp: new_uring_warden_def Let_def split: prod.splits if_splits)
  then have "between notes 0 (u_kern w) w" using assms(3) by (simp add: between_def gone_def)
  from ring_calls_track [OF assms(2) this, of p p] assms(3)
  have "tracks notes p (goes_on ur note p 0 (u_kern w)) (fold (uring_exec ur) (ring_calls ur note 0 p 0 w) w)"
    by simp
  moreover have "uring_resume ur (ring_coroutine ur note notes p) (Coro 0) w =
      fold (uring_exec ur) (ring_calls ur note 0 p 0 w) w"
    using w(1) assms(3) by (cases p) (simp_all add: ring_coroutine_def)
  ultimately show ?thesis by simp
qed

text \<open>C7: A coroutine that awaits IOPs of the io_uring warden one after the other sees what the ring says
  and nothing of the warden's bookkeeping: a run of the loop ends, with a result, an exception and a
  state of the ring, exactly when reading the ring entry by entry does, and then with the same. In
  particular an IOP is given the first entry of its own that is not an ignored cancellation, whatever
  interrupted waits, late entries of its time out and entries of earlier IOPs are in the ring; and an
  IOP that finds no room in the ring gives its exception and leaves the next ones as they are.\<close>

theorem uring_await_refines_event_loop:
  assumes "new_uring_warden ur entries flags k0 = Inr w" "keeps_frame ur note notes" "notes (u_kern w) = []"
  shows "map_option (\<lambda>(r, k'). (map_sum id Some r, k')) (ring_run ur note p (u_kern w)) =
    map_option (\<lambda>(r, w'). (map_sum id (\<lambda>_. ring_returned notes p w') r, u_kern w'))
      (uring_run_until ur (ring_coroutine ur note notes p) 0 w)"
proof -
  let ?u = "ring_coroutine ur note notes p"
  let ?v = "uring_resume ur ?u (Coro 0) w" and ?s = "goes_on ur note p 0 (u_kern w)"
  note t = start_tracks [OF assms]
  show ?thesis
  proof (cases "uring_run_loop ur ?u 0 ?v")
    case None
    then have "await_entries ur note ?s = None" using awaited_run [OF _ assms(2) t] by (metis option.exhaust)
    with None show ?thesis by (simp add: ring_run_def uring_run_until_def)
  next
    case (Some q)
    from run_awaited [OF this assms(2) refl t] Some show ?thesis
      by (cases q) (auto simp: ring_run_def uring_run_until_def split: sum.splits)
  qed
qed

text \<open>A ring that answers with the entries of a script, and a list of what has been noted.\<close>

type_synonym script = "(exn + ret option) list \<times> (cid \<times> int) list"

definition script_entry :: "cid \<times> int \<Rightarrow> cqe" where
  "script_entry a = \<lparr>cqe_data = Some (fst a), res = snd a\<rparr>"

definition script_ring :: "script liburing" where
  "script_ring = \<lparr>
     ur_os = quiet_os, ur_queue_init = (\<lambda>n f k. (0, k)), ur_get_sqe = (\<lambda>k. (Some 0, k)),
     ur_fill = (\<lambda>s q k. k), ur_submit = (\<lambda>k. k),
     ur_wait = (\<lambda>k. case snd k of [] \<Rightarrow> (- EINTR, \<lparr>cqe_data = None, res = 0\<rparr>, k)
                  | a # as \<Rightarrow> (0, script_entry a, k)),
     ur_peek = (\<lambda>k. case snd k of [] \<Rightarrow> (None, k) | a # as \<Rightarrow> (Some (script_entry a), k)),
     ur_seen = (\<lambda>cq k. (fst k, tl (snd k)))\<rparr>"

definition add_note :: "exn + ret option \<Rightarrow> script \<Rightarrow> script" where
  "add_note v k = (fst k @ [v], snd k)"

definition two_reads :: "((exn + ret option) \<times> (exn + ret option)) ring_task" where
  "two_reads = RingAwait (ReadSome 7 10) (Some 5) (\<lambda>v. RingAwait (ReadSome 7 10) None (\<lambda>v'. RingReturn (v, v')))"

lemma script_ring_keeps_frame: "keeps_frame script_ring add_note fst"
  by (auto simp: keeps_frame_def script_ring_def add_note_def quiet_os_def split: list.split)

lemma script_ring_take_ready:
  "take_ready script_ring note (ph, ns, []) = Some (ph, ns, [])"
  "take_ready script_ring note (ph, ns, a # as) =
     take_ready script_ring note (take_entry script_ring note (script_entry a) (ph, ns, a # as))"
  by (subst take_ready.simps, simp add: script_ring_def)+

lemma script_ring_await_entries:
  "await_entries script_ring note (Over a, k) = Some (Inr a, k)"
  "await_entries script_ring note (Waiting i d c, ns, b # bs) =
     (case take_ready script_ring note
        (take_entry script_ring note (script_entry b) (Waiting i d c, ns, b # bs)) of
        None \<Rightarrow> None | Some s2 \<Rightarrow> await_entries script_ring note s2)"
  by (subst await_entries.simps, simp add: script_ring_def)+

lemma script_ring_submits:
  "\<exists>d. submits script_ring (ReadSome f n) dl i k = (Inr d, k) \<and> u_kind d = ReadSome f n \<and> u_deadline d = dl"
  by (cases dl) (simp_all add: submits_def bare_uring_def new_delivery_def u_store_def
      uring_await_suspend_def submit_iop_def setup_submission_def next_sqe_def setup_timeout_def
      fill_sqe_def script_ring_def quiet_os_def Let_def)

lemma returned_run:
  assumes "Some (Inr (Some a), k) = map_option (\<lambda>(r, w'). (map_sum id (\<lambda>_. g w') r, h w')) x"
  shows "\<exists>w'. x = Some (Inr (), w') \<and> g w' = Some a \<and> h w' = k"
  using assms by (cases x; cases "fst (the x)") auto

text \<open>
  Two reads, the first with a time out: its cancellation is ignored, its bytes are delivered, and the
  late entry of the time out, which comes while the second read waits, moves nothing.
\<close>

theorem uring_await_refines_event_loop_witness:
  "\<exists>w'. uring_run_until script_ring (ring_coroutine script_ring add_note fst two_reads) 0
        (bare_uring ([], [(0, -125), (0, 8), (0, -62), (1, 3)])) = Some (Inr (), w') \<and>
      ring_returned fst two_reads w' = Some (Inr (Some (RSize 8)), Inr (Some (RSize 3))) \<and>
      snd (u_kern w') = []"
proof -
  let ?k = "([], [(0, -125), (0, 8), (0, -62), (1, 3)]) :: script"
  have new: "new_uring_warden script_ring 4 0 ?k = Inr (bare_uring ?k)"
    by (simp add: new_uring_warden_def script_ring_def bare_uring_def)
  let ?k1 = "([Inr (Some (RSize 8))], [(0, -62), (1, 3)]) :: script"
  obtain d where d: "submits script_ring (ReadSome 7 10) (Some 5) 0 ?k = (Inr d, ?k)"
      "u_kind d = ReadSome 7 10" "u_deadline d = Some 5" using script_ring_submits by meson
  obtain e where e: "submits script_ring (ReadSome 7 10) None (Suc 0) ?k1 = (Inr e, ?k1)"
      "u_kind e = ReadSome 7 10" "u_deadline e = None" using script_ring_submits by meson
  have seen: "ur_seen script_ring cq k = (fst k, tl (snd k))" for cq k by (simp add: script_ring_def)
  have "ring_run script_ring add_note two_reads ?k =
      Some (Inr (Inr (Some (RSize 8)), Inr (Some (RSize 3))), [Inr (Some (RSize 8)), Inr (Some (RSize 3))], [])"
    by (simp add: ring_run_def two_reads_def d [unfolded One_nat_def] e [unfolded One_nat_def] script_ring_await_entries script_ring_take_ready take_entry_def
        seen script_entry_def deliver_result_def deliver_value_def add_note_def u_value_succeed)
  with uring_await_refines_event_loop [OF new script_ring_keeps_frame, of two_reads]
  have "Some (Inr (Some (Inr (Some (RSize 8)), Inr (Some (RSize 3)))), [Inr (Some (RSize 8)), Inr (Some (RSize 3))], []) =
      map_option (\<lambda>(r, w'). (map_sum id (\<lambda>_. ring_returned fst two_reads w') r, u_kern w'))
        (uring_run_until script_ring (ring_coroutine script_ring add_note fst two_reads) 0 (bare_uring ?k))"
    by (simp add: bare_uring_def)
  from returned_run [OF this] show ?thesis by auto
qed

end
