(* ===== verification/Tasks.thy ===== *)
theory Tasks
  imports Kernels
begin

text \<open>
  Tasks: coroutines that await IOPs one after the other (\<open>warden::task\<close>). A task is a function
  of the kernel state; \<open>None\<close> is a task that never finishes, \<open>Inl\<close> one that throws.
  \<open>await_iop\<close> is \<open>co_await\<close> of an IOP of the poll warden, built on the model of its
  completions: the completion is tried, and while the call would block the task is parked.
  What happens meanwhile is a parameter: \<open>park k\<close> is the kernel state when the loop tries the
  completion again (\<open>Some ()\<close>), or when the time out ends the wait (\<open>None\<close>), if either happens.
  \<open>TaskRefinement\<close> shows what the loop of the poll warden makes of it.
  \<open>byte_reader\<close> and \<open>byte_writer\<close> are the interfaces the templates of \<open>read.hpp\<close> and
  \<open>write.hpp\<close> are written against; the poll warden's IOPs provide them.
\<close>

type_synonym ('k, 'a) io = "'k \<Rightarrow> ((exn + 'a) \<times> 'k) option"

type_synonym 'k park = "'k \<Rightarrow> (unit option \<times> 'k) option"

definition io_bind :: "('k, 'a) io \<Rightarrow> ('a \<Rightarrow> ('k, 'b) io) \<Rightarrow> ('k, 'b) io" where
  "io_bind m f k =
     (case m k of
        None \<Rightarrow> None
      | Some (Inl e, k1) \<Rightarrow> Some (Inl e, k1)
      | Some (Inr x, k1) \<Rightarrow> f x k1)"

subsection \<open>Awaiting an IOP of the poll warden\<close>

definition fresh_completion :: "iop_kind \<Rightarrow> ns option \<Rightarrow> completion" where
  "fresh_completion kd dl =
     \<lparr>kind = kd, deadline = dl, handle = Coro 0, comp_result = no_outcome, filled = []\<rparr>"

definition attempt ::
  "'k posix_os \<Rightarrow> iop_kind \<Rightarrow> ns option \<Rightarrow> 'k \<Rightarrow> completion option \<times> 'k" where
  "attempt os kd dl k =
     (let x = fresh_completion kd dl;
          (h, w) = try_or_resume_obj os 0 x (store 0 x (start_warden k))
      in (if h = NoopCoro then None else heap w 0, kern w))"

partial_function (option) await_iop ::
  "'k posix_os \<Rightarrow> 'k park \<Rightarrow> iop_kind \<Rightarrow> ns option \<Rightarrow> 'k
    \<Rightarrow> (completion \<times> 'k) option" where
  "await_iop os park kd dl k =
     (case attempt os kd dl k of
        (Some x, k1) \<Rightarrow> Some (x, k1)
      | (None, k1) \<Rightarrow>
          (case park k1 of
             None \<Rightarrow> None
           | Some (None, k2) \<Rightarrow> Some (fail ETIME ''IOP timed out'' (fresh_completion kd dl), k2)
           | Some (Some u, k2) \<Rightarrow> await_iop os park kd dl k2))"

definition poll_read ::
  "'k posix_os \<Rightarrow> 'k park \<Rightarrow> fd \<Rightarrow> ns option \<Rightarrow> nat \<Rightarrow> ('k, byte list) io" where
  "poll_read os park f dl n k =
     (case await_iop os park (ReadSome f n) dl k of
        None \<Rightarrow> None
      | Some (x, k1) \<Rightarrow>
          (case iop_value x of
             Inl e \<Rightarrow> Some (Inl e, k1)
           | Inr v \<Rightarrow> Some (Inr (filled x), k1)))"

definition poll_write ::
  "'k posix_os \<Rightarrow> 'k park \<Rightarrow> fd \<Rightarrow> ns option \<Rightarrow> byte list \<Rightarrow> ('k, nat) io" where
  "poll_write os park f dl bs k =
     (case await_iop os park (WriteSome f bs) dl k of
        None \<Rightarrow> None
      | Some (x, k1) \<Rightarrow>
          (case iop_value x of
             Inl e \<Rightarrow> Some (Inl e, k1)
           | Inr (Some (RSize n)) \<Rightarrow> Some (Inr n, k1)
           | Inr _ \<Rightarrow> Some (Inl (Undefined ''write_some''), k1)))"

subsection \<open>The interfaces\<close>

locale byte_reader =
  fixes rd :: "ns option \<Rightarrow> nat \<Rightarrow> ('k, byte list) io"
  assumes rd_bound: "rd dl n k = Some (Inr bs, k') \<Longrightarrow> length bs \<le> n"

locale byte_writer =
  fixes wr :: "ns option \<Rightarrow> byte list \<Rightarrow> ('k, nat) io"
  assumes wr_bound: "wr dl bs k = Some (Inr n, k') \<Longrightarrow> n \<le> length bs"

subsection \<open>One attempt\<close>

lemma attempt_read_eq:
  "attempt os (ReadSome f n) dl k =
     (let x = fresh_completion (ReadSome f n) dl in
      case os_read os f n k of
        (Some bs, k1) \<Rightarrow>
          (Some (succeed (RSize (length (take n bs))) (x\<lparr>filled := take n bs\<rparr>)), k1)
      | (None, k1) \<Rightarrow>
          (if would_block (os_errno os k1) then None else Some (fail (os_errno os k1) ''read'' x), k1))"
  by (auto simp: attempt_def fresh_completion_def try_or_resume_obj_def sys_read_def
      read_some_try_or_resume_def cancel_timeout_then_resume_def succeed_def fail_def Let_def
      get_error_def store_def cancel_timeout_def start_warden_def push_read_def req_upd_def
      split: prod.splits option.splits)

lemma attempt_write_eq:
  "attempt os (WriteSome f bs) dl k =
     (let x = fresh_completion (WriteSome f bs) dl in
      case os_write os f bs k of
        (Some n, k1) \<Rightarrow> (Some (succeed (RSize (min n (length bs))) x), k1)
      | (None, k1) \<Rightarrow>
          (if would_block (os_errno os k1) then None else Some (fail (os_errno os k1) ''write'' x), k1))"
  by (auto simp: attempt_def fresh_completion_def try_or_resume_obj_def sys_write_def
      write_some_try_or_resume_def cancel_timeout_then_resume_def succeed_def fail_def Let_def
      get_error_def store_def cancel_timeout_def start_warden_def push_write_def req_upd_def
      split: prod.splits option.splits)

lemma iop_value_fail: "\<not> is_void (kind x) \<Longrightarrow> \<exists>e'. iop_value (fail e m x) = Inl e'"
  by (auto simp: iop_value_def fail_def outcome_defs)

lemma iop_value_succeed: "\<not> is_void (kind x) \<Longrightarrow> iop_value (succeed r x) = Inr (Some r)"
  by (auto simp: iop_value_def succeed_def outcome_defs)

lemma fresh_kind [simp]: "kind (fresh_completion kd dl) = kd" "filled (fresh_completion kd dl) = []"
  by (simp_all add: fresh_completion_def)

subsection \<open>The poll warden provides them\<close>

lemma attempt_read:
  "attempt os (ReadSome f n) dl k = (Some x, k') \<Longrightarrow> length (filled x) \<le> n"
  by (auto simp: attempt_def fresh_completion_def try_or_resume_obj_def
      read_some_try_or_resume_def cancel_timeout_then_resume_def succeed_def fail_def Let_def
      dest!: sys_read_bound split: prod.splits if_splits)

lemma attempt_write:
  "attempt os (WriteSome f bs) dl k = (Some x, k') \<Longrightarrow> iop_value x = Inr (Some (RSize n)) \<Longrightarrow>
   n \<le> length bs"
  by (auto simp: attempt_def fresh_completion_def try_or_resume_obj_def iop_value_def
      write_some_try_or_resume_def cancel_timeout_then_resume_def succeed_def fail_def
      outcome_defs Let_def dest!: sys_write_bound split: prod.splits if_splits option.splits)

text \<open>
  Whatever attempts that would block and parking keep is still there at the attempt that ends
  the wait, or at the time out.
\<close>

lemma await_iop_keeps:
  assumes run: "await_iop os park kd dl k = Some (x, k')" and start: "Q k"
    and blocks: "\<And>k k1. Q k \<Longrightarrow> attempt os kd dl k = (None, k1) \<Longrightarrow> Q k1"
    and parks: "\<And>k r k'. Q k \<Longrightarrow> park k = Some (r, k') \<Longrightarrow> Q k'"
  shows "(\<exists>k1. Q k1 \<and> attempt os kd dl k1 = (Some x, k')) \<or>
    x = fail ETIME ''IOP timed out'' (fresh_completion kd dl) \<and> Q k'"
proof -
  let ?laws = "\<lambda>os park kd dl. (\<forall>k k1. Q k \<longrightarrow> attempt os kd dl k = (None, k1) \<longrightarrow> Q k1) \<and>
    (\<forall>k r k'. Q k \<longrightarrow> park k = Some (r, k') \<longrightarrow> Q k')"
  let ?P = "\<lambda>os kd dl r. (\<exists>k1. Q k1 \<and> attempt os kd dl k1 = (Some (fst r), snd r)) \<or>
    fst r = fail ETIME ''IOP timed out'' (fresh_completion kd dl) \<and> Q (snd r)"
  have "?laws os park kd dl \<longrightarrow> Q k \<longrightarrow> ?P os kd dl (x, k')"
  proof (rule await_iop.raw_induct
      [where P = "\<lambda>os park kd dl k r. ?laws os park kd dl \<longrightarrow> Q k \<longrightarrow> ?P os kd dl r", OF _ run])
    fix f and os :: "'a posix_os" and park kd dl k r
    assume IH: "\<And>(os :: 'a posix_os) park kd dl k r. f os park kd dl k = Some r \<Longrightarrow>
        ?laws os park kd dl \<longrightarrow> Q k \<longrightarrow> ?P os kd dl r"
      and eq: "(case attempt os kd dl k of
          (Some x, k1) \<Rightarrow> Some (x, k1)
        | (None, k1) \<Rightarrow> (case park k1 of
            None \<Rightarrow> None
          | Some (None, k2) \<Rightarrow> Some (fail ETIME ''IOP timed out'' (fresh_completion kd dl), k2)
          | Some (Some u, k2) \<Rightarrow> f os park kd dl k2)) = Some r"
    show "?laws os park kd dl \<longrightarrow> Q k \<longrightarrow> ?P os kd dl r"
    proof (intro impI)
      assume laws: "?laws os park kd dl" and Q: "Q k"
      obtain a k1 where a: "attempt os kd dl k = (a, k1)" by (cases "attempt os kd dl k")
      show "?P os kd dl r"
      proof (cases a)
        case None
        with laws Q a have Q1: "Q k1" by blast
        from eq a None obtain p k2 where p: "park k1 = Some (p, k2)"
          by (auto split: option.splits)
        with laws Q1 have Q2: "Q k2" by blast
        show ?thesis
        proof (cases p)
          case p': None
          with eq a p None Q2 show ?thesis by auto
        next
          case (Some u)
          with eq a p None have "f os park kd dl k2 = Some r" by simp
          from IH [OF this] laws Q2 show ?thesis by blast
        qed
      next
        case (Some y)
        with eq a have "r = (y, k1)" by simp
        with a Q Some have "Q k \<and> attempt os kd dl k = (Some (fst r), snd r)" by simp
        then show ?thesis by blast
      qed
    qed
  qed
  moreover have "?laws os park kd dl" using blocks parks by blast
  ultimately have "?P os kd dl (x, k')" using start by blast
  then show ?thesis by (simp only: fst_conv snd_conv)
qed

lemma await_iop_ends:
  assumes "await_iop os park kd dl k = Some (x, k')"
  shows "(\<exists>k1. attempt os kd dl k1 = (Some x, k')) \<or>
    x = fail ETIME ''IOP timed out'' (fresh_completion kd dl)"
  using await_iop_keeps [OF assms, of "\<lambda>k. True"] by auto

lemma poll_read_bound: "poll_read os park f dl n k = Some (Inr bs, k') \<Longrightarrow> length bs \<le> n"
  by (auto simp: poll_read_def fail_def fresh_completion_def
      dest!: await_iop_ends attempt_read split: option.splits sum.splits)

lemma poll_write_bound: "poll_write os park f dl bs k = Some (Inr n, k') \<Longrightarrow> n \<le> length bs"
  by (auto simp: poll_write_def iop_value_def fail_def fresh_completion_def outcome_defs
      dest!: await_iop_ends dest: attempt_write
      split: option.splits sum.splits ret.splits if_splits)

interpretation poll_reader: byte_reader "poll_read os park f"
  by unfold_locales (rule poll_read_bound)

interpretation poll_writer: byte_writer "poll_write os park f"
  by unfold_locales (rule poll_write_bound)

end
