(* ===== verification/ReadBuffer.thy ===== *)
theory ReadBuffer
  imports Tasks
begin

text \<open>
  Buffered reading (\<open>include/felspar/io/read.hpp\<close>): \<open>read_exactly\<close>, the \<open>read_buffer\<close> and
  \<open>read_until_lf_strip_cr\<close>, written against any byte reader as the templates are.
  A span is an address and a length. \<open>data_read\<close> and \<open>empty_buffer\<close> are spans into
  \<open>storage\<close>, which starts at address \<open>base\<close>; a span sliced past its end is \<open>Undefined\<close>.
  The element type of the buffer is one byte wide, as the code requires.
\<close>

subsection \<open>\<open>read_exactly\<close>\<close>

text \<open>\<open>n\<close> is what is left of the caller's buffer, \<open>acc\<close> what was put into it.\<close>

function read_exactly ::
  "(ns option \<Rightarrow> nat \<Rightarrow> ('k, byte list) io) \<Rightarrow> ns option \<Rightarrow> nat \<Rightarrow> byte list \<Rightarrow> ('k, byte list) io"
where
  "read_exactly rd dl n acc k =
     (if n = 0 then Some (Inr acc, k)
      else (case rd dl n k of
              None \<Rightarrow> None
            | Some (Inl e, k1) \<Rightarrow> Some (Inl e, k1)
            | Some (Inr bs, k1) \<Rightarrow>
                if bs = [] then Some (Inr acc, k1)
                else if n < length bs then Some (Inl (Undefined ''subspan''), k1)
                else read_exactly rd dl (n - length bs) (acc @ bs) k1))"
  by pat_completeness auto
termination
  by (relation "measure (\<lambda>(rd, dl, n, acc, k). n)") auto

declare read_exactly.simps [simp del]

subsection \<open>The buffer\<close>

type_synonym span = "int \<times> nat"

record read_buffer =
  base :: int
  storage :: "byte list"
  data_read :: span
  empty_buffer :: span

definition subspan :: "nat \<Rightarrow> span \<Rightarrow> span" where
  "subspan n s = (fst s + int n, snd s - n)"

definition new_read_buffer :: "int \<Rightarrow> byte list \<Rightarrow> read_buffer" where
  "new_read_buffer a st =
     \<lparr>base = a, storage = st, data_read = (a, 0), empty_buffer = (a, length st)\<rparr>"

text \<open>
  The moves: the storage now starts at \<open>a\<close>, and \<open>old\<close> is what the storage of the moved-from
  buffer says of its start.
\<close>

definition recalculate :: "int \<Rightarrow> int \<Rightarrow> span \<Rightarrow> span" where
  "recalculate a old s = (a + (fst s - old), snd s)"

definition move_read_buffer :: "int \<Rightarrow> int \<Rightarrow> read_buffer \<Rightarrow> read_buffer" where
  "move_read_buffer a old b =
     \<lparr>base = a, storage = storage b, data_read = recalculate a old (data_read b),
      empty_buffer = recalculate a old (empty_buffer b)\<rparr>"

definition span_bytes :: "read_buffer \<Rightarrow> span \<Rightarrow> byte list" where
  "span_bytes b s = take (snd s) (drop (nat (fst s - base b)) (storage b))"

definition overwrite :: "nat \<Rightarrow> 'a list \<Rightarrow> 'a list \<Rightarrow> 'a list" where
  "overwrite i xs ys = take i ys @ xs @ drop (i + length xs) ys"

definition remaining :: "read_buffer \<Rightarrow> span" where
  "remaining b = empty_buffer b"

definition not_consumed :: "read_buffer \<Rightarrow> span" where
  "not_consumed b = data_read b"

definition buffer_do_read_some ::
  "(ns option \<Rightarrow> nat \<Rightarrow> ('k, byte list) io) \<Rightarrow> ns option \<Rightarrow> read_buffer \<Rightarrow> 'k
    \<Rightarrow> (((exn + nat) \<times> read_buffer) \<times> 'k) option" where
  "buffer_do_read_some rd dl b k =
     (case rd dl (snd (remaining b)) k of
        None \<Rightarrow> None
      | Some (Inl e, k1) \<Rightarrow> Some ((Inl e, b), k1)
      | Some (Inr bs, k1) \<Rightarrow>
          if bs = [] then Some ((Inr 0, b), k1)
          else if snd (empty_buffer b) < length bs
          then Some ((Inl (Undefined ''subspan''), b), k1)
          else
            (let at = nat (fst (empty_buffer b) - base b)
             in Some ((Inr (length bs),
                  b\<lparr>storage := overwrite at bs (storage b),
                    data_read := (fst (data_read b), snd (data_read b) + length bs),
                    empty_buffer := subspan (length bs) (empty_buffer b)\<rparr>), k1)))"

definition consume :: "nat \<Rightarrow> read_buffer \<Rightarrow> exn + span \<times> read_buffer" where
  "consume n b =
     (if snd (data_read b) < n then Inl (Undefined ''first'')
      else
        (let start = (fst (data_read b), n)
         in if snd (data_read b) = n
            then Inr (start, b\<lparr>data_read := (base b, 0),
                               empty_buffer := (base b, length (storage b))\<rparr>)
            else Inr (start, b\<lparr>data_read := subspan n (data_read b)\<rparr>)))"

text \<open>\<open>find\<close>: how far the first \<open>v\<close> is from \<open>begin()\<close>; \<open>None\<close> is \<open>end()\<close>.\<close>

fun find_byte :: "byte \<Rightarrow> byte list \<Rightarrow> nat option" where
  "find_byte v [] = None"
| "find_byte v (x # xs) = (if x = v then Some 0 else map_option Suc (find_byte v xs))"

definition buffer_find :: "byte \<Rightarrow> read_buffer \<Rightarrow> nat option" where
  "buffer_find v b = find_byte v (span_bytes b (data_read b))"

subsection \<open>\<open>read_until_lf_strip_cr\<close>\<close>

definition LF :: byte where "LF = 10"
definition CR :: byte where "CR = 13"

text \<open>What follows the loop: take the line out and strip one \<open>CR\<close>.\<close>

definition strip_cr :: "read_buffer \<Rightarrow> span \<Rightarrow> span" where
  "strip_cr b s =
     (if span_bytes b s \<noteq> [] \<and> last (span_bytes b s) = CR then (fst s, snd s - 1) else s)"

definition take_line :: "nat \<Rightarrow> read_buffer \<Rightarrow> (exn + span) \<times> read_buffer" where
  "take_line line b =
     (case consume (line + 1) b of
        Inl e \<Rightarrow> (Inl e, b)
      | Inr (s, b1) \<Rightarrow> (Inr (strip_cr b1 (fst s, line)), b1))"

lemma buffer_read_shrinks:
  "buffer_do_read_some rd dl b k = Some ((Inr n, b1), k1) \<Longrightarrow> n \<noteq> 0 \<Longrightarrow>
   snd (empty_buffer b1) < snd (empty_buffer b)"
  by (auto simp: buffer_do_read_some_def remaining_def subspan_def Let_def neq_Nil_conv
      split: option.splits prod.splits sum.splits if_splits)

text \<open>
  Every read that gives something leaves less room in the buffer, so the loop ends, or a read
  does not.
\<close>

function read_until_lf_strip_cr ::
  "(ns option \<Rightarrow> nat \<Rightarrow> ('k, byte list) io) \<Rightarrow> ns option \<Rightarrow> read_buffer \<Rightarrow> 'k
    \<Rightarrow> (((exn + span) \<times> read_buffer) \<times> 'k) option" where
  "read_until_lf_strip_cr rd dl b k =
     (case buffer_find LF b of
        Some line \<Rightarrow> Some (take_line line b, k)
      | None \<Rightarrow>
          (case buffer_do_read_some rd dl b k of
             None \<Rightarrow> None
           | Some ((Inl e, b1), k1) \<Rightarrow> Some ((Inl e, b1), k1)
           | Some ((Inr n, b1), k1) \<Rightarrow>
               if n = 0 then Some ((Inr (0, 0), b1), k1)
               else read_until_lf_strip_cr rd dl b1 k1))"
  by pat_completeness auto
termination
  by (relation "measure (\<lambda>(rd, dl, b, k). snd (empty_buffer b))")
    (auto dest: buffer_read_shrinks)

declare read_until_lf_strip_cr.simps [simp del]

subsection \<open>Lemmas on the buffer\<close>

text \<open>Where the spans lie, and what the buffer holds.\<close>

definition buffer_ok :: "read_buffer \<Rightarrow> bool" where
  "buffer_ok b \<longleftrightarrow>
     base b \<le> fst (data_read b) \<and>
     fst (empty_buffer b) = fst (data_read b) + int (snd (data_read b)) \<and>
     fst (empty_buffer b) + int (snd (empty_buffer b)) = base b + int (length (storage b))"

definition content :: "read_buffer \<Rightarrow> byte list" where
  "content b = span_bytes b (data_read b)"

lemma new_buffer_ok: "buffer_ok (new_read_buffer a st)" "content (new_read_buffer a st) = []"
  by (simp_all add: buffer_ok_def new_read_buffer_def content_def span_bytes_def)

lemma buffer_offsets:
  assumes "buffer_ok b"
  obtains i where "fst (data_read b) = base b + int i"
    "fst (empty_buffer b) = base b + int (i + snd (data_read b))"
    "i + snd (data_read b) + snd (empty_buffer b) = length (storage b)"
proof -
  let ?i = "nat (fst (data_read b) - base b)"
  have "fst (data_read b) = base b + int ?i" using assms by (simp add: buffer_ok_def)
  then show ?thesis using assms by (intro that [of ?i]) (auto simp: buffer_ok_def)
qed

lemma length_content: "buffer_ok b \<Longrightarrow> length (content b) = snd (data_read b)"
  by (erule buffer_offsets) (simp add: content_def span_bytes_def)

lemma content_read:
  assumes "buffer_ok b" "length bs \<le> snd (empty_buffer b)"
  defines "b' \<equiv> b\<lparr>storage := overwrite (nat (fst (empty_buffer b) - base b)) bs (storage b),
      data_read := (fst (data_read b), snd (data_read b) + length bs),
      empty_buffer := subspan (length bs) (empty_buffer b)\<rparr>"
  shows "buffer_ok b' \<and> content b' = content b @ bs"
proof -
  obtain i where i: "fst (data_read b) = base b + int i"
      "fst (empty_buffer b) = base b + int (i + snd (data_read b))"
      "i + snd (data_read b) + snd (empty_buffer b) = length (storage b)"
    using assms(1) by (rule buffer_offsets)
  let ?n = "snd (data_read b)"
  have at: "nat (fst (empty_buffer b) - base b) = i + ?n" using i by simp
  have "length (overwrite (i + ?n) bs (storage b)) = length (storage b)"
    using i(3) assms(2) by (simp add: overwrite_def)
  moreover have "take (?n + length bs) (drop i (overwrite (i + ?n) bs (storage b))) =
      take ?n (drop i (storage b)) @ bs"
    using i(3) by (simp add: overwrite_def drop_take)
  ultimately show ?thesis
    using i assms(2) by (simp add: b'_def at nat_int_add buffer_ok_def content_def span_bytes_def subspan_def)
qed

lemma content_consume:
  assumes "buffer_ok b" "consume n b = Inr (s, b')"
  shows "buffer_ok b' \<and> content b = span_bytes b' s @ content b' \<and> length (span_bytes b' s) = n \<and>
    s = (fst (data_read b), n)"
proof -
  obtain i where i: "fst (data_read b) = base b + int i"
      "fst (empty_buffer b) = base b + int (i + snd (data_read b))"
      "i + snd (data_read b) + snd (empty_buffer b) = length (storage b)"
    using assms(1) by (rule buffer_offsets)
  let ?m = "snd (data_read b)"
  have n: "n \<le> ?m" using assms(2) by (auto simp: consume_def split: if_splits)
  have split: "take ?m (drop i (storage b)) =
      take n (drop i (storage b)) @ take (?m - n) (drop (i + n) (storage b))"
    using n by (metis add.commute drop_drop le_add_diff_inverse take_add)
  show ?thesis
    using assms(2) i n split
    by (auto simp: consume_def buffer_ok_def content_def span_bytes_def subspan_def Let_def
        nat_add_distrib split: if_splits)
qed

lemma buffer_read_cases:
  assumes "buffer_ok b" "\<forall>bs k1. rd dl (snd (empty_buffer b)) k = Some (Inr bs, k1) \<longrightarrow>
    length bs \<le> snd (empty_buffer b)"
  obtains (never) "rd dl (snd (empty_buffer b)) k = None" "buffer_do_read_some rd dl b k = None"
  | (throws) e k1 where "rd dl (snd (empty_buffer b)) k = Some (Inl e, k1)"
      "buffer_do_read_some rd dl b k = Some ((Inl e, b), k1)"
  | (ends) k1 where "rd dl (snd (empty_buffer b)) k = Some (Inr [], k1)"
      "buffer_do_read_some rd dl b k = Some ((Inr 0, b), k1)"
  | (reads) bs b1 k1 where "rd dl (snd (empty_buffer b)) k = Some (Inr bs, k1)" "bs \<noteq> []"
      "buffer_do_read_some rd dl b k = Some ((Inr (length bs), b1), k1)"
      "buffer_ok b1" "content b1 = content b @ bs"
proof (cases "rd dl (snd (empty_buffer b)) k")
  case None
  then show ?thesis by (intro never) (simp_all add: buffer_do_read_some_def remaining_def)
next
  case (Some r)
  obtain q k1 where r: "r = (q, k1)" by (cases r)
  show ?thesis
  proof (cases q)
    case (Inl e)
    with Some r show ?thesis by (intro throws) (simp_all add: buffer_do_read_some_def remaining_def)
  next
    case (Inr bs)
    show ?thesis
    proof (cases "bs = []")
      case True
      with Some r Inr show ?thesis
        by (intro ends) (simp_all add: buffer_do_read_some_def remaining_def)
    next
      case False
      have le: "length bs \<le> snd (empty_buffer b)" using assms(2) Some r Inr by simp
      show ?thesis
        by (rule reads [OF _ False _ content_read [OF assms(1) le, THEN conjunct1]
              content_read [OF assms(1) le, THEN conjunct2]])
          (use Some r Inr False le in \<open>simp_all add: buffer_do_read_some_def remaining_def Let_def\<close>)
    qed
  qed
qed

lemma find_byte_Some:
  "find_byte v xs = Some i \<Longrightarrow> \<exists>ys zs. xs = ys @ v # zs \<and> length ys = i \<and> v \<notin> set ys"
proof (induction xs arbitrary: i)
  case (Cons x xs)
  show ?case
  proof (cases "x = v")
    case True
    with Cons.prems have "x # xs = [] @ v # xs \<and> length [] = i \<and> v \<notin> set []" by auto
    then show ?thesis by blast
  next
    case False
    with Cons.prems obtain j where "find_byte v xs = Some j" "i = Suc j" by auto
    with Cons.IH obtain ys zs where "xs = ys @ v # zs" "length ys = j" "v \<notin> set ys" by blast
    with False \<open>i = Suc j\<close> have "x # xs = (x # ys) @ v # zs \<and> length (x # ys) = i \<and> v \<notin> set (x # ys)"
      by auto
    then show ?thesis by blast
  qed
qed simp

lemma find_byte_None: "find_byte v xs = None \<longleftrightarrow> v \<notin> set xs"
  by (induction xs) auto

subsection \<open>Streams\<close>

text \<open>
  What a reader relies on of the other side: \<open>pending k\<close> are the bytes that will arrive, a
  read takes its result off the front, a read that throws takes nothing, and only the end of
  the stream makes a read into a non-empty buffer give nothing.
\<close>

definition reads_stream ::
  "(ns option \<Rightarrow> nat \<Rightarrow> ('k, byte list) io) \<Rightarrow> ('k \<Rightarrow> byte list) \<Rightarrow> bool" where
  "reads_stream rd pending \<longleftrightarrow>
     (\<forall>dl n k bs k'. rd dl n k = Some (Inr bs, k') \<longrightarrow>
        length bs \<le> n \<and> pending k = bs @ pending k' \<and> (0 < n \<and> bs = [] \<longrightarrow> pending k = [])) \<and>
     (\<forall>dl n k e k'. rd dl n k = Some (Inl e, k') \<longrightarrow> pending k' = pending k)"

lemma reads_streamD:
  assumes "reads_stream rd pending" "rd dl n k = Some (Inr bs, k')"
  shows "length bs \<le> n" "pending k = bs @ pending k'" "0 < n \<Longrightarrow> bs = [] \<Longrightarrow> pending k = []"
  using assms unfolding reads_stream_def by blast+

lemma reads_stream_error:
  "reads_stream rd pending \<Longrightarrow> rd dl n k = Some (Inl e, k') \<Longrightarrow> pending k' = pending k"
  unfolding reads_stream_def by blast

text \<open>The three ways \<open>read_exactly\<close> can go.\<close>

definition exactly_outcome ::
  "(ns option \<Rightarrow> nat \<Rightarrow> ('k, byte list) io) \<Rightarrow> ns option \<Rightarrow> ('k \<Rightarrow> byte list) \<Rightarrow> nat \<Rightarrow> byte list
    \<Rightarrow> 'k \<Rightarrow> ((exn + byte list) \<times> 'k) option \<Rightarrow> bool" where
  "exactly_outcome rd dl pending n acc k r \<longleftrightarrow>
     (case r of
        None \<Rightarrow> \<exists>m k1. 0 < m \<and> m \<le> n \<and> rd dl m k1 = None
      | Some (Inr bs, k') \<Rightarrow> bs = acc @ take n (pending k) \<and> pending k' = drop n (pending k)
      | Some (Inl e, k') \<Rightarrow>
          (\<exists>m<n. pending k' = drop m (pending k)) \<and>
          (\<exists>m k1. 0 < m \<and> m \<le> n \<and> rd dl m k1 = Some (Inl e, k')))"

lemma read_exactly_stream:
  assumes law: "reads_stream rd pending"
  shows "exactly_outcome rd dl pending n acc k (read_exactly rd dl n acc k)"
proof (induction n arbitrary: acc k rule: less_induct)
  case (less n)
  show ?case
  proof (cases "n = 0 \<or> rd dl n k = None")
    case True
    then show ?thesis by (cases "n = 0") (auto simp: read_exactly.simps exactly_outcome_def)
  next
    case False
    then obtain q k1 where r: "rd dl n k = Some (q, k1)" and n: "0 < n" by auto
    show ?thesis
    proof (cases q)
      case (Inl e)
      have "read_exactly rd dl n acc k = Some (Inl e, k1)"
        using r n Inl by (simp add: read_exactly.simps)
      moreover have "pending k1 = drop 0 (pending k)"
        using reads_stream_error [OF law] r Inl by simp
      ultimately show ?thesis using r n Inl by (auto simp: exactly_outcome_def)
    next
      case (Inr bs)
      note p = reads_streamD [OF law r [unfolded Inr]]
      show ?thesis
      proof (cases "bs = []")
        case True
        with r n Inr p show ?thesis by (simp add: read_exactly.simps exactly_outcome_def)
      next
        case bs: False
        let ?m = "n - length bs"
        have rec: "read_exactly rd dl n acc k = read_exactly rd dl ?m (acc @ bs) k1"
          using r n Inr bs p(1) by (simp add: read_exactly.simps [of rd dl n])
        have small: "?m < n" using bs n by (cases bs) auto
        note IH = less.IH [OF small, of "acc @ bs" k1]
        have drop: "drop m (pending k1) = drop (length bs + m) (pending k)" for m
          using p(2) by simp
        show ?thesis
        proof (cases "read_exactly rd dl ?m (acc @ bs) k1")
          case None
          with IH obtain m k2 where "0 < m" "m \<le> ?m" "rd dl m k2 = None"
            by (auto simp: exactly_outcome_def)
          with None rec show ?thesis by (auto simp: exactly_outcome_def intro: le_trans)
        next
          case (Some z)
          obtain q' k' where z: "z = (q', k')" by (cases z)
          show ?thesis
          proof (cases q')
            case (Inl e)
            with IH Some z obtain m m' k2 where m: "m < ?m" "pending k' = drop m (pending k1)"
                and e: "0 < m'" "m' \<le> ?m" "rd dl m' k2 = Some (Inl e, k')"
              by (auto simp: exactly_outcome_def)
            have "length bs + m < n" using m(1) by simp
            with m(2) drop e have "(\<exists>m<n. pending k' = drop m (pending k)) \<and>
                (\<exists>m k1. 0 < m \<and> m \<le> n \<and> rd dl m k1 = Some (Inl e, k'))"
              by (metis diff_le_self le_trans)
            with Some z Inl rec show ?thesis by (simp add: exactly_outcome_def)
          next
            case (Inr xs)
            with IH Some z rec p(1,2) show ?thesis by (auto simp: exactly_outcome_def)
          qed
        qed
      qed
    qed
  qed
qed

definition strip :: "byte list \<Rightarrow> byte list" where
  "strip line = (if line \<noteq> [] \<and> last line = CR then butlast line else line)"

lemma span_bytes_prefix: "m \<le> n \<Longrightarrow> span_bytes b (p, m) = take m (span_bytes b (p, n))"
  by (simp add: span_bytes_def min_def)

lemma take_line_ok:
  assumes ok: "buffer_ok b" and f: "buffer_find LF b = Some line"
    and t: "take_line line b = (Inr s, b')"
  shows "buffer_ok b' \<and> (\<exists>ys. content b = ys @ LF # content b' \<and> LF \<notin> set ys \<and>
    span_bytes b' s = strip ys \<and> snd s = length (strip ys))"
proof -
  obtain s0 where c: "consume (line + 1) b = Inr (s0, b')"
    and s: "s = strip_cr b' (fst s0, line)"
    using t by (auto simp: take_line_def split: sum.splits)
  note cc = content_consume [OF ok c]
  obtain ys zs where y: "content b = ys @ LF # zs" "length ys = line" "LF \<notin> set ys"
    using find_byte_Some f unfolding buffer_find_def content_def by blast
  have s0: "s0 = (fst s0, line + 1)" using cc by simp
  have full: "span_bytes b' s0 = ys @ [LF]" "zs = content b'"
    using cc y by (auto simp: append_eq_append_conv append_eq_Cons_conv
        dest: arg_cong [where f = "take (Suc line)"] arg_cong [where f = "drop (Suc line)"])
  have "span_bytes b' (fst s0, m) = take m (ys @ [LF])" if "m \<le> line + 1" for m
    using span_bytes_prefix [OF that, of b' "fst s0"] s0 full(1) by simp
  from this [of line] this [of "line - 1"] y(2)
  have "span_bytes b' (fst s0, line) = ys" "span_bytes b' (fst s0, line - 1) = butlast ys"
    by (simp_all add: butlast_conv_take)
  then have "span_bytes b' s = strip ys \<and> snd s = length (strip ys)"
    using y(2) by (simp add: s strip_cr_def strip_def)
  with cc y full(2) show ?thesis by auto
qed

text \<open>
  The ways reading a line can go: a read never ends, or throws and the buffer has kept all
  that was read; a line; or the empty span, because the stream has ended or because the
  buffer is full.
\<close>

definition line_outcome ::
  "(ns option \<Rightarrow> nat \<Rightarrow> ('k, byte list) io) \<Rightarrow> ns option \<Rightarrow> ('k \<Rightarrow> byte list) \<Rightarrow> read_buffer \<Rightarrow> 'k
    \<Rightarrow> (((exn + span) \<times> read_buffer) \<times> 'k) option \<Rightarrow> bool" where
  "line_outcome rd dl pending b k r \<longleftrightarrow>
     (case r of
        None \<Rightarrow> \<exists>n k1. rd dl n k1 = None
      | Some ((q, b'), k') \<Rightarrow>
          buffer_ok b' \<and>
          (case q of
             Inl e \<Rightarrow> content b @ pending k = content b' @ pending k' \<and>
               (\<exists>n k1. rd dl n k1 = Some (Inl e, k'))
           | Inr s \<Rightarrow>
               (\<exists>line. content b @ pending k = line @ LF # content b' @ pending k' \<and>
                  LF \<notin> set line \<and> span_bytes b' s = strip line \<and> snd s = length (strip line)) \<or>
               (s = (0, 0) \<and> content b @ pending k = content b' @ pending k' \<and>
                  LF \<notin> set (content b') \<and>
                  (pending k' = [] \<or> snd (empty_buffer b') = 0))))"

lemma line_outcome_shift:
  "content b @ pending k = content b1 @ pending k1 \<Longrightarrow>
   line_outcome rd dl pending b k r = line_outcome rd dl pending b1 k1 r"
  by (simp only: line_outcome_def)

lemma consume_line_defined:
  assumes "buffer_ok b" "buffer_find LF b = Some line"
  shows "\<exists>s b'. take_line line b = (Inr s, b')"
proof -
  have "line < length (content b)"
    using assms(2) find_byte_Some by (fastforce simp: buffer_find_def content_def)
  with length_content [OF assms(1)] show ?thesis
    by (auto simp: take_line_def consume_def Let_def)
qed

lemma read_until_stream:
  "reads_stream rd pending \<Longrightarrow> buffer_ok b \<Longrightarrow>
   line_outcome rd dl pending b k (read_until_lf_strip_cr rd dl b k)"
proof (induction rd dl b k rule: read_until_lf_strip_cr.induct [case_names step])
  case (step rd dl b k)
  note law = step.prems(1) and ok = step.prems(2)
  show ?case
  proof (cases "buffer_find LF b")
    case (Some line)
    obtain s b' where t: "take_line line b = (Inr s, b')"
      using consume_line_defined [OF ok Some] by blast
    with Some take_line_ok [OF ok Some t] show ?thesis
      by (auto simp: read_until_lf_strip_cr.simps line_outcome_def)
  next
    case None
    then have no_lf: "LF \<notin> set (content b)"
      by (simp add: buffer_find_def content_def find_byte_None)
    note unfold = read_until_lf_strip_cr.simps [of rd dl b k]
    have bound: "\<forall>bs k1. rd dl (snd (empty_buffer b)) k = Some (Inr bs, k1) \<longrightarrow>
        length bs \<le> snd (empty_buffer b)"
      using reads_streamD(1) [OF law] by blast
    from ok bound show ?thesis
    proof (cases rule: buffer_read_cases)
      case never
      with None show ?thesis by (auto simp: unfold line_outcome_def)
    next
      case (throws e k1)
      with None ok reads_stream_error [OF law throws(1)] show ?thesis
        by (auto simp: unfold line_outcome_def)
    next
      case (ends k1)
      with None ok no_lf reads_streamD [OF law ends(1)] show ?thesis
        by (auto simp: unfold line_outcome_def)
    next
      case (reads bs b1 k1)
      have "read_until_lf_strip_cr rd dl b k = read_until_lf_strip_cr rd dl b1 k1"
        using None reads by (simp add: unfold)
      moreover have same: "content b @ pending k = content b1 @ pending k1"
        using reads_streamD(2) [OF law reads(1)] reads(5) by simp
      moreover have "line_outcome rd dl pending b1 k1 (read_until_lf_strip_cr rd dl b1 k1)"
        using step.IH [OF None reads(3)] law reads by simp
      ultimately show ?thesis
        by (simp only: line_outcome_shift [where pending = pending, OF same])
    qed
  qed
qed

subsection \<open>What any byte reader gives\<close>

context byte_reader
begin

lemma stream_reader:
  assumes "\<And>dl n k bs k'. rd dl n k = Some (Inr bs, k') \<Longrightarrow>
      pending k = bs @ pending k' \<and> (0 < n \<and> bs = [] \<longrightarrow> pending k = [])"
    and "\<And>dl n k e k'. rd dl n k = Some (Inl e, k') \<Longrightarrow> pending k' = pending k"
  shows "reads_stream rd pending"
  unfolding reads_stream_def using assms rd_bound by blast

lemma full_buffer_ends_line:
  assumes "buffer_find LF b = None" "snd (empty_buffer b) = 0" "rd dl 0 k = Some (Inr bs, k')"
  shows "read_until_lf_strip_cr rd dl b k = Some ((Inr (0, 0), b), k')"
  using assms rd_bound [OF assms(3)]
  by (simp add: read_until_lf_strip_cr.simps buffer_do_read_some_def remaining_def)

end

end
