(* ===== verification/Descriptor.thy ===== *)
theory Descriptor
  imports Prelude
begin

text \<open>
  \<open>posix::fd\<close>, the owner of a file descriptor (\<open>include/felspar/io/posix.hpp\<close>).
  The objects live in a store from object addresses to the descriptor they hold, since a
  move assignment may have the same object on both sides; \<open>closed\<close> is the trace of the
  \<open>::close\<close> calls and \<open>released\<close> of the descriptors handed out by \<open>release\<close>.
\<close>

definition invalid_handle :: fd where [simp]: "invalid_handle = -1"

record fd_world =
  objs :: "nat \<Rightarrow> fd option"     \<comment> \<open>the live \<open>posix::fd\<close> objects\<close>
  closed :: "fd list"
  released :: "fd list"

definition close_socket_if_valid :: "fd \<Rightarrow> fd_world \<Rightarrow> fd_world" where
  "close_socket_if_valid s w =
     (if s \<noteq> invalid_handle then w\<lparr>closed := closed w @ [s]\<rparr> else w)"

definition held :: "fd_world \<Rightarrow> nat \<Rightarrow> fd" where
  "held w i = (case objs w i of Some d \<Rightarrow> d | None \<Rightarrow> invalid_handle)"

text \<open>\<open>std::exchange\<close> of the descriptor an object holds.\<close>

definition set_held :: "nat \<Rightarrow> fd \<Rightarrow> fd_world \<Rightarrow> fd_world" where
  "set_held i d w = w\<lparr>objs := (objs w)(i \<mapsto> d)\<rparr>"

definition fd_construct :: "nat \<Rightarrow> fd \<Rightarrow> fd_world \<Rightarrow> fd_world" where
  "fd_construct i d w = set_held i d w"

definition fd_move_construct :: "nat \<Rightarrow> nat \<Rightarrow> fd_world \<Rightarrow> fd_world" where
  "fd_move_construct i src w = set_held i (held w src) (set_held src invalid_handle w)"

text \<open>
  \<open>fd s{exchange(f, exchange(o.f, invalid))}\<close>: the inner exchange first; the temporary
  then holds what this object held, and its destructor closes it.
\<close>

definition fd_move_assign :: "nat \<Rightarrow> nat \<Rightarrow> fd_world \<Rightarrow> fd_world" where
  "fd_move_assign i src w =
     (let v = held w src;
          w1 = set_held src invalid_handle w;
          old = held w1 i;
          w2 = set_held i v w1
      in close_socket_if_valid old w2)"

definition fd_release :: "nat \<Rightarrow> fd_world \<Rightarrow> fd \<times> fd_world" where
  "fd_release i w = (held w i, set_held i invalid_handle w)"

definition fd_close :: "nat \<Rightarrow> fd_world \<Rightarrow> fd_world" where
  "fd_close i w =
     (let c = held w i in close_socket_if_valid c (set_held i invalid_handle w))"

definition fd_destroy :: "nat \<Rightarrow> fd_world \<Rightarrow> fd_world" where
  "fd_destroy i w =
     (let w1 = close_socket_if_valid (held w i) w in w1\<lparr>objs := (objs w1)(i := None)\<rparr>)"

definition fd_valid :: "nat \<Rightarrow> fd_world \<Rightarrow> bool" where
  "fd_valid i w \<longleftrightarrow> held w i \<noteq> invalid_handle"

subsection \<open>Programs over owners\<close>

text \<open>
  A program is a sequence of member calls. \<open>release\<close> hands the descriptor to the caller,
  which the trace records. An operation is lawful when C++'s object rules allow it
  (constructors run on fresh storage, the other members on live objects, and the descriptor
  given to a constructor is one nobody else owns).
\<close>

datatype fd_op =
    Construct nat fd | MoveConstruct nat nat | MoveAssign nat nat
  | Release nat | CloseFd nat | Destroy nat

fun fd_step :: "fd_op \<Rightarrow> fd_world \<Rightarrow> fd_world" where
  "fd_step (Construct i d) w = fd_construct i d w"
| "fd_step (MoveConstruct i s) w = fd_move_construct i s w"
| "fd_step (MoveAssign i s) w = fd_move_assign i s w"
| "fd_step (Release i) w =
     (let (d, w1) = fd_release i w in
      if d \<noteq> invalid_handle then w1\<lparr>released := released w1 @ [d]\<rparr> else w1)"
| "fd_step (CloseFd i) w = fd_close i w"
| "fd_step (Destroy i) w = fd_destroy i w"

definition accounted :: "fd_world \<Rightarrow> fd set" where
  "accounted w = ran (objs w) \<union> set (closed w) \<union> set (released w) - {invalid_handle}"

fun fd_lawful :: "fd_op \<Rightarrow> fd_world \<Rightarrow> bool" where
  "fd_lawful (Construct i d) w \<longleftrightarrow> objs w i = None \<and> d \<notin> accounted w"
| "fd_lawful (MoveConstruct i s) w \<longleftrightarrow> objs w i = None \<and> objs w s \<noteq> None"
| "fd_lawful (MoveAssign i s) w \<longleftrightarrow> objs w i \<noteq> None \<and> objs w s \<noteq> None"
| "fd_lawful (Release i) w \<longleftrightarrow> objs w i \<noteq> None"
| "fd_lawful (CloseFd i) w \<longleftrightarrow> objs w i \<noteq> None"
| "fd_lawful (Destroy i) w \<longleftrightarrow> objs w i \<noteq> None"

fun fd_run :: "fd_op list \<Rightarrow> fd_world \<Rightarrow> fd_world option" where
  "fd_run [] w = Some w"
| "fd_run (p # ps) w = (if fd_lawful p w then fd_run ps (fd_step p w) else None)"

definition fd_empty :: fd_world where
  "fd_empty = \<lparr>objs = (\<lambda>_. None), closed = [], released = []\<rparr>"

subsection \<open>Ownership\<close>

text \<open>
  The invariant: a valid descriptor is held by at most one object, and one that is held has
  been neither closed nor released; no descriptor is given up twice.
\<close>

definition fd_inv :: "fd_world \<Rightarrow> bool" where
  "fd_inv w \<longleftrightarrow>
     (\<forall>i j d. objs w i = Some d \<longrightarrow> objs w j = Some d \<longrightarrow> d \<noteq> -1 \<longrightarrow> i = j) \<and>
     (\<forall>i d. objs w i = Some d \<longrightarrow> d \<noteq> -1 \<longrightarrow> d \<notin> set (closed w) \<and> d \<notin> set (released w)) \<and>
     distinct (closed w @ released w) \<and> -1 \<notin> set (closed w @ released w)"

lemmas fd_op_defs = fd_construct_def fd_move_construct_def fd_move_assign_def fd_release_def
  fd_close_def fd_destroy_def set_held_def held_def close_socket_if_valid_def Let_def

lemma fd_inv_empty: "fd_inv fd_empty"
  by (simp add: fd_inv_def fd_empty_def)

lemma fd_step_inv:
  assumes "fd_inv w" "fd_lawful p w"
  shows "fd_inv (fd_step p w)"
proof (cases p)
  case (Construct i d)
  then have "d = -1 \<or> d \<notin> ran (objs w) \<and> d \<notin> set (closed w) \<and> d \<notin> set (released w)"
    using assms(2) by (auto simp: accounted_def)
  with Construct assms show ?thesis
    by (auto simp: fd_inv_def fd_op_defs ran_def)
next
  case (MoveConstruct i s)
  with assms show ?thesis
    by (auto simp: fd_inv_def fd_op_defs split: if_splits)
next
  case (MoveAssign i s)
  with assms obtain a b where "objs w i = Some a" "objs w s = Some b" by auto
  with MoveAssign assms(1) show ?thesis
    by (cases "i = s") (auto simp: fd_inv_def fd_op_defs split: if_splits; metis)+
next
  case (Release i)
  with assms show ?thesis
    by (auto simp: fd_inv_def fd_op_defs split: if_splits option.splits; metis)
next
  case (CloseFd i)
  with assms show ?thesis
    by (auto simp: fd_inv_def fd_op_defs split: if_splits option.splits; metis)
next
  case (Destroy i)
  with assms show ?thesis
    by (auto simp: fd_inv_def fd_op_defs split: if_splits option.splits; metis)
qed

text \<open>Nothing is lost: what is held, closed or released only grows by what is constructed.\<close>

fun op_constructs :: "fd_op \<Rightarrow> fd set" where
  "op_constructs (Construct i d) = {d} - {invalid_handle}"
| "op_constructs _ = {}"

definition constructed :: "fd_op list \<Rightarrow> fd set" where
  "constructed ps = (\<Union>p\<in>set ps. op_constructs p)"

lemma ran_some: "m i = Some a \<Longrightarrow> ran m = insert a (ran (m(i := None)))"
  by (auto simp: ran_def) (metis option.inject)

lemma ran_upd: "ran (m(i \<mapsto> v)) = insert v (ran (m(i := None)))"
  by (auto simp: ran_def)

lemma ran_none: "m i = None \<Longrightarrow> ran (m(i := None)) = ran m"
  by (simp add: fun_upd_idem)

lemma fd_step_accounted:
  assumes "fd_lawful p w"
  shows "accounted (fd_step p w) = accounted w \<union> op_constructs p"
proof (cases p)
  case (Construct i d)
  with assms have "objs w i = None" by simp
  with Construct show ?thesis by (auto simp: accounted_def fd_op_defs ran_upd ran_none)
next
  case (MoveConstruct i s)
  with assms obtain b where "objs w i = None" "objs w s = Some b" by auto
  then have b: "objs w i = None" "objs w s = Some b" "i \<noteq> s" by auto
  then have "ran ((objs w)(s \<mapsto> -1, i \<mapsto> b)) = insert b (insert (-1) (ran ((objs w)(s := None))))"
    using ran_upd [of "(objs w)(s \<mapsto> -1)" i b] ran_none [of "(objs w)(s \<mapsto> -1)" i]
      ran_upd [of "objs w" s "-1"] by simp
  with MoveConstruct b ran_some [of "objs w" s b] show ?thesis
    by (auto simp: accounted_def fd_op_defs)
next
  case (MoveAssign i s)
  with assms obtain a b where ab: "objs w i = Some a" "objs w s = Some b" by auto
  show ?thesis
  proof (cases "i = s")
    case True
    with ab MoveAssign show ?thesis by (auto simp: accounted_def fd_op_defs fun_upd_idem)
  next
    case False
    let ?R = "ran ((objs w)(s := None, i := None))"
    have "ran ((objs w)(s \<mapsto> -1, i \<mapsto> b)) = insert b (insert (-1) ?R)"
      using False ran_upd [of "(objs w)(s \<mapsto> -1)" i b] ran_upd [of "(objs w)(i := None)" s "-1"]
      by (simp add: fun_upd_twist [of s i])
    moreover have "ran (objs w) = insert a (insert b ?R)"
      using False ab ran_some [of "objs w" s b] ran_some [of "(objs w)(s := None)" i a] by auto
    ultimately show ?thesis
      using False ab MoveAssign by (auto simp: accounted_def fd_op_defs)
  qed
next
  case (Release i)
  with assms obtain a where "objs w i = Some a" by auto
  with Release ran_some [of "objs w" i a] show ?thesis
    by (auto simp: accounted_def fd_op_defs ran_upd)
next
  case (CloseFd i)
  with assms obtain a where "objs w i = Some a" by auto
  with CloseFd ran_some [of "objs w" i a] show ?thesis
    by (auto simp: accounted_def fd_op_defs ran_upd)
next
  case (Destroy i)
  with assms obtain a where "objs w i = Some a" by auto
  with Destroy ran_some [of "objs w" i a] show ?thesis
    by (auto simp: accounted_def fd_op_defs)
qed

lemma fd_run_inv: "fd_run ps w = Some w' \<Longrightarrow> fd_inv w \<Longrightarrow> fd_inv w'"
  by (induction ps arbitrary: w) (auto split: if_splits intro: fd_step_inv)

lemma fd_run_accounted:
  "fd_run ps w = Some w' \<Longrightarrow> accounted w' = accounted w \<union> constructed ps"
  by (induction ps arbitrary: w) (auto simp: constructed_def fd_step_accounted split: if_splits)

end
