(* ===== verification/Resources.thy ===== *)
theory Resources
  imports Descriptor Kernels
begin

unbundle bit_operations_syntax

text \<open>
  The properties of the resource layer: descriptor owners, socket creation, addresses,
  process limits and outcomes.
\<close>

subsection \<open>Owners of descriptors\<close>

text \<open>C37: Whatever sequence of moves, assignments, releases and closes a program makes, once its
  owners are gone every descriptor it put into one has been closed or released, and that
  exactly once.\<close>

theorem descriptors_given_up_exactly_once:
  assumes "fd_run ps fd_empty = Some w" "\<And>i. objs w i = None"
  shows "distinct (closed w @ released w) \<and> set (closed w @ released w) = constructed ps"
proof -
  have inv: "fd_inv w" by (rule fd_run_inv [OF assms(1) fd_inv_empty])
  have "accounted w = constructed ps"
    using fd_run_accounted [OF assms(1)] by (simp add: accounted_def fd_empty_def)
  moreover have "ran (objs w) = {}" using assms(2) by (simp add: ran_def)
  ultimately show ?thesis
    using inv by (auto simp: fd_inv_def accounted_def)
qed

definition fd_program :: "fd_op list" where
  "fd_program = [Construct 0 5, Construct 1 6, MoveAssign 0 1, MoveConstruct 2 0,
     Construct 3 7, Release 3, MoveAssign 2 2, Destroy 0, Destroy 1, Destroy 2, Destroy 3]"

theorem descriptors_given_up_exactly_once_witness:
  "\<exists>w. fd_run fd_program fd_empty = Some w \<and> set (closed w @ released w) = {5, 6, 7}"
proof -
  obtain w where w: "fd_run fd_program fd_empty = Some w" "\<And>i. objs w i = None"
    by (simp add: fd_program_def fd_op_defs fd_empty_def accounted_def)
  have "constructed fd_program = {5, 6, 7}"
    by (auto simp: fd_program_def constructed_def)
  with descriptors_given_up_exactly_once [OF w] w show ?thesis by auto
qed

text \<open>Move assignment takes the source's descriptor, leaves the source empty and closes the
  one the target held, if any; assigning an owner to itself changes nothing.\<close>

theorem move_assign_transfers:
  assumes "objs w i = Some a" "objs w s = Some b"
  shows "if i = s then fd_move_assign i s w = w
         else objs (fd_move_assign i s w) = (objs w)(i \<mapsto> b, s \<mapsto> -1) \<and>
              closed (fd_move_assign i s w) = closed w @ (if a = -1 then [] else [a])"
  using assms by (auto simp: fd_op_defs fun_upd_idem fun_upd_twist)

theorem move_assign_transfers_witness:
  "closed (fd_move_assign 0 1 \<lparr>objs = [0 \<mapsto> 5, 1 \<mapsto> 6], closed = [], released = []\<rparr>) = [5]"
  using move_assign_transfers [of "\<lparr>objs = [0 \<mapsto> 5, 1 \<mapsto> 6], closed = [], released = []\<rparr>" 0 5 1 6]
  by simp

subsection \<open>Sockets\<close>

text \<open>\<open>create_socket\<close> leaks nothing: it either returns a socket the warden has prepared, or
  throws, and then the socket, if there was one, has been closed.\<close>

theorem create_socket_no_leak:
  assumes "os_socket os d t p k = (s, k1)" "s \<noteq> -1"
  shows "case create_socket os (do_prepare_socket os) d t p k of
           (Inr s', k') \<Rightarrow> s' = s \<and> (\<exists>fl k2. os_getfl os s k1 = (fl, k2) \<and>
              os_setfl os s (fl OR O_NONBLOCK) k2 = (0, k'))
         | (Inl e, k') \<Rightarrow> \<exists>k2. do_prepare_socket os s k1 = (Inl e, k2) \<and>
              k' = snd (os_close os s k2)"
  using assms
  by (auto simp: create_socket_def do_prepare_socket_def set_non_blocking_def Let_def
      split: prod.splits sum.splits if_splits)

definition log_os :: "fd list posix_os" where
  "log_os = quiet_os\<lparr>os_setfl := (\<lambda>f fl k. (-1, k)), os_close := (\<lambda>f k. (0, k @ [f]))\<rparr>"

theorem create_socket_no_leak_witness:
  "\<exists>e. create_socket log_os (do_prepare_socket log_os) AF_INET SOCK_STREAM 0 [] = (Inl e, [5])"
proof -
  have "os_socket log_os AF_INET SOCK_STREAM 0 [] = (5, [])"
    by (simp add: log_os_def quiet_os_def)
  from create_socket_no_leak [OF this]
  show ?thesis
    by (simp add: log_os_def quiet_os_def create_socket_def do_prepare_socket_def
        set_non_blocking_def Let_def split: prod.splits sum.splits)
qed

text \<open>Where there is no \<open>pipe2\<close>, both ends are non-blocking, or both are closed again.\<close>

lemma create_pipe_portable_no_leak:
  assumes "os_pipe k = (Some (r, w), k1)"
  shows "case create_pipe_portable os os_pipe k of
           (Inr rw, k') \<Rightarrow> rw = (r, w) \<and> (\<exists>k2. set_non_blocking os r k1 = (Inr (), k2) \<and>
              set_non_blocking os w k2 = (Inr (), k'))
         | (Inl e, k') \<Rightarrow> \<exists>k2. k' = snd (os_close os r (snd (os_close os w k2)))"
  using assms by (auto simp: create_pipe_portable_def Let_def split: prod.splits sum.splits)

subsection \<open>Addresses\<close>

lemma low_byte_htons: "ucast (htons p) = (ucast (drop_bit 8 p) :: byte)"
  by (rule bit_word_eqI) (auto simp: bit_simps bit_htons add.commute dest: bit_imp_le_length)

lemma high_byte_htons: "ucast (drop_bit 8 (htons p)) = (ucast p :: byte)"
  by (rule bit_word_eqI) (auto simp: bit_simps bit_htons add.commute dest: bit_imp_le_length)

text \<open>\<open>set_port\<close> writes the port in network byte order for IPv4 and IPv6 addresses (the byte
  at the lower address is the high byte of the port), changes nothing else and leaves other
  address families alone.\<close>

theorem set_port_network_order:
  "let b = set_port a p in
     (if sa_family a = AF_INET \<or> sa_family a = AF_INET6
      then ucast (sa_port b) = (ucast (drop_bit 8 p) :: byte) \<and>
           ucast (drop_bit 8 (sa_port b)) = (ucast p :: byte) \<and> htons (sa_port b) = p
      else b = a) \<and>
     sa_family b = sa_family a \<and> sa_addr b = sa_addr a"
  by (simp add: set_port_def low_byte_htons high_byte_htons htons_involution Let_def)

subsection \<open>Process limits\<close>

text \<open>\<open>promise_to_never_use_select\<close> reports the old limit and the maximum, and has raised the
  limit to the maximum, with one \<open>setrlimit\<close>, exactly when it was lower.\<close>

theorem select_promise_outcome:
  assumes "os_getrlimit os k = (0, cur, mx, k1)"
  shows "case promise_to_never_use_select os k of
           (Inr r, k') \<Rightarrow> r = (cur, mx) \<and>
             (if cur < mx then os_setrlimit os mx mx k1 = (0, k') else k' = k1)
         | (Inl e, k') \<Rightarrow> cur < mx \<and> (\<exists>r. r \<noteq> 0 \<and> os_setrlimit os mx mx k1 = (r, k')) \<and>
             e = SystemError (os_errno os k') ''setrlimit RLIMIT_NOFILE error''"
  using assms
  by (auto simp: promise_to_never_use_select_def Let_def split: prod.splits sum.splits if_splits)

theorem select_promise_outcome_witness:
  "fst (promise_to_never_use_select quiet_os (0::nat)) = Inr (1024, 4096)"
proof -
  have "os_getrlimit quiet_os (0::nat) = (0, 1024, 4096, 0)" by (simp add: quiet_os_def)
  from select_promise_outcome [OF this] show ?thesis
    by (auto simp: promise_to_never_use_select_def quiet_os_def split: prod.splits sum.splits)
qed

subsection \<open>Outcomes\<close>

text \<open>The last assignment to an outcome decides what awaiting gives: a value is returned, an
  error is thrown (as \<open>timeout\<close> exactly for \<open>ETIME\<close>), by both forms of \<open>value\<close>, and
  \<open>operator bool\<close> tells them apart; the two forms differ only on an outcome that was never
  assigned.\<close>

theorem outcome_last_assignment_wins:
  "value_rvalue (assign_value r out) = Inr r \<and> value_lvalue (assign_value r out) = Inr r \<and>
   outcome_ok (assign_value r out) \<and>
   (error e = 0 \<or>
     (value_rvalue (assign_void e out) =
        Inl (if error e = ETIME then Timeout (message e) else SystemError (error e) (message e)) \<and>
      value_lvalue (assign_void e out) = value_rvalue (assign_void e out) \<and>
      \<not> outcome_ok (assign_void e out))) \<and>
   value_rvalue no_outcome = Inl (LogicError ''Optional in outcome was empty'') \<and>
   value_lvalue no_outcome = Inl BadOptionalAccess"
  by (auto simp: outcome_defs)

end
