(* ===== verification/Streams.thy ===== *)
theory Streams
  imports ReadBuffer Resources
begin

text \<open>
  The convenience layer (\<open>write.hpp\<close>, \<open>src/convenience.cpp\<close>, \<open>accept.hpp\<close>, \<open>connect.hpp\<close>,
  \<open>addrinfo.hpp\<close>): \<open>write_all\<close>, the synchronous \<open>write_some\<close>, the stream of accepted
  connections, look-up of host names and connecting to the first address that answers.
\<close>

subsection \<open>Writing\<close>

text \<open>\<open>written\<close> is what has gone out of the caller's buffer already.\<close>

function write_all ::
  "(ns option \<Rightarrow> byte list \<Rightarrow> ('k, nat) io) \<Rightarrow> ns option \<Rightarrow> byte list \<Rightarrow> nat \<Rightarrow> ('k, nat) io"
where
  "write_all wr dl out written k =
     (if out = [] then Some (Inr written, k)
      else (case wr dl out k of
              None \<Rightarrow> None
            | Some (Inl e, k1) \<Rightarrow> Some (Inl e, k1)
            | Some (Inr bytes, k1) \<Rightarrow>
                if bytes = 0 then Some (Inr written, k1)
                else if length out < bytes then Some (Inl (Undefined ''subspan''), k1)
                else write_all wr dl (drop bytes out) (written + bytes) k1))"
  by pat_completeness auto
termination
  by (relation "measure (\<lambda>(wr, dl, out, written, k). length out)") auto

declare write_all.simps [simp del]

text \<open>
  What a writer relies on of the other side: \<open>sent k\<close> are the bytes that have gone out, and a
  write that throws has sent nothing.
\<close>

definition writes_sink ::
  "(ns option \<Rightarrow> byte list \<Rightarrow> ('k, nat) io) \<Rightarrow> ('k \<Rightarrow> byte list) \<Rightarrow> bool" where
  "writes_sink wr sent \<longleftrightarrow>
     (\<forall>dl bs k n k'. wr dl bs k = Some (Inr n, k') \<longrightarrow>
        n \<le> length bs \<and> sent k' = sent k @ take n bs) \<and>
     (\<forall>dl bs k e k'. wr dl bs k = Some (Inl e, k') \<longrightarrow> sent k' = sent k)"

definition write_outcome ::
  "(ns option \<Rightarrow> byte list \<Rightarrow> ('k, nat) io) \<Rightarrow> ns option \<Rightarrow> ('k \<Rightarrow> byte list) \<Rightarrow> byte list \<Rightarrow> nat
    \<Rightarrow> 'k \<Rightarrow> ((exn + nat) \<times> 'k) option \<Rightarrow> bool" where
  "write_outcome wr dl sent out m k r \<longleftrightarrow>
     (case r of
        None \<Rightarrow> \<exists>i k1. i < length out \<and> wr dl (drop i out) k1 = None
      | Some (Inr n, k') \<Rightarrow>
          \<exists>i. n = m + i \<and> i \<le> length out \<and> sent k' = sent k @ take i out \<and>
            (i < length out \<longrightarrow> (\<exists>k1. wr dl (drop i out) k1 = Some (Inr 0, k')))
      | Some (Inl e, k') \<Rightarrow>
          \<exists>i k1. i < length out \<and> sent k' = sent k @ take i out \<and>
            wr dl (drop i out) k1 = Some (Inl e, k'))"

lemma write_outcome_step:
  assumes "b \<le> length out" "sent k1 = sent k @ take b out"
    and "write_outcome wr dl sent (drop b out) (m + b) k1 r"
  shows "write_outcome wr dl sent out m k r"
proof -
  have take: "take b out @ take i (drop b out) = take (i + b) out" for i
    by (simp add: take_add [symmetric] add.commute)
  have less: "i < length out - b \<Longrightarrow> i + b < length out" for i by simp
  show ?thesis
  proof (cases r)
    case None
    with assms show ?thesis by (auto simp: write_outcome_def dest!: less)
  next
    case (Some z)
    obtain q k' where z: "z = (q, k')" by (cases z)
    show ?thesis
    proof (cases q)
      case (Inl e)
      with assms Some z obtain i k2 where "i + b < length out" "sent k' = sent k @ take (i + b) out"
          "wr dl (drop (i + b) out) k2 = Some (Inl e, k')"
        by (auto simp: write_outcome_def take dest!: less)
      with Some z Inl show ?thesis by (auto simp: write_outcome_def)
    next
      case (Inr n)
      with assms Some z obtain i where "n = m + (i + b)" "i + b \<le> length out"
          "sent k' = sent k @ take (i + b) out"
          "i + b < length out \<longrightarrow> (\<exists>k1. wr dl (drop (i + b) out) k1 = Some (Inr 0, k'))"
        by (force simp: write_outcome_def take)
      with Some z Inr show ?thesis by (auto simp: write_outcome_def)
    qed
  qed
qed

lemma write_all_sink:
  assumes law: "writes_sink wr sent"
  shows "write_outcome wr dl sent out m k (write_all wr dl out m k)"
proof (induction "length out" arbitrary: out m k rule: less_induct)
  case less
  show ?case
  proof (cases "out = []")
    case True
    then show ?thesis by (simp add: write_all.simps write_outcome_def)
  next
    case False
    note unfold = write_all.simps [of wr dl out m k]
    have pos: "0 < length out" using False by simp
    show ?thesis
    proof (cases "wr dl out k")
      case None
      with pos False show ?thesis by (auto simp: unfold write_outcome_def intro!: exI [of _ 0])
    next
      case (Some z)
      obtain q k1 where w: "wr dl out k = Some (q, k1)" using Some by (cases z) auto
      show ?thesis
      proof (cases q)
        case (Inl e)
        moreover have "sent k1 = sent k" using law w Inl unfolding writes_sink_def by blast
        ultimately show ?thesis
          using pos w False by (auto simp: unfold write_outcome_def intro!: exI [of _ 0])
      next
        case (Inr b)
        have b: "b \<le> length out" "sent k1 = sent k @ take b out"
          using law w Inr unfolding writes_sink_def by blast+
        show ?thesis
        proof (cases "b = 0")
          case True
          with w Inr False b show ?thesis by (auto simp: unfold write_outcome_def)
        next
          case b0: False
          have "write_all wr dl out m k = write_all wr dl (drop b out) (m + b) k1"
            using w Inr False b b0 by (simp add: unfold)
          moreover have "length (drop b out) < length out" using pos b0 by simp
          ultimately show ?thesis using less.hyps write_outcome_step b by metis
        qed
      qed
    qed
  qed
qed

context byte_writer
begin

lemma sink_writer:
  assumes "\<And>dl bs k n k'. wr dl bs k = Some (Inr n, k') \<Longrightarrow> sent k' = sent k @ take n bs"
    and "\<And>dl bs k e k'. wr dl bs k = Some (Inl e, k') \<Longrightarrow> sent k' = sent k"
  shows "writes_sink wr sent"
  unfolding writes_sink_def using assms wr_bound by blast

end

text \<open>The decimal digits \<open>std::to_string\<close> gives.\<close>

fun to_digits :: "nat \<Rightarrow> string" where
  "to_digits n =
     (if n < 10 then [char_of (n + 48)] else to_digits (n div 10) @ [char_of (n mod 10 + 48)])"

declare to_digits.simps [simp del]

definition write_some_now :: "'k posix_os \<Rightarrow> fd \<Rightarrow> byte list \<Rightarrow> 'k \<Rightarrow> (exn + nat) \<times> 'k" where
  "write_some_now os sock data k =
     (let (r, k1) = sys_write os sock data k in
      if r \<ge> 0 then (Inr (nat r), k1)
      else (Inl (SystemError (get_error os k1)
              (''Writing to socket'' @ [CHR 0x0A] @ to_digits (length data))), k1))"

subsection \<open>The stream of accepted connections\<close>

text \<open>What the stream does with the result of one awaited \<open>accept\<close>.\<close>

datatype accept_event = Yield fd | Throw exn | EndOfStream

definition accept_next :: "exn + int \<Rightarrow> accept_event" where
  "accept_next r =
     (case r of
        Inl e \<Rightarrow> Throw e
      | Inr s \<Rightarrow>
          if s \<ge> 0 then Yield s
          else if s \<noteq> - EBADF then Throw (SystemError (- s) ''accept'')
          else EndOfStream)"

fun accepted :: "completion \<Rightarrow> exn + int" where
  "accepted x =
     (case iop_value x of
        Inl e \<Rightarrow> Inl e
      | Inr (Some (RFd s)) \<Rightarrow> Inr s
      | Inr _ \<Rightarrow> Inl (Undefined ''accept''))"

subsection \<open>Look-up and connect\<close>

definition addrinfo ::
  "'k posix_os \<Rightarrow> string \<Rightarrow> 16 word \<Rightarrow> 'k \<Rightarrow> (exn + sockaddr list) \<times> 'k" where
  "addrinfo os hostname port k =
     (let (r, addresses, k1) = os_getaddrinfo os hostname k in
      if r \<noteq> 0 then (Inl (RuntimeError (''getaddrinfo error looking up '' @ hostname)), k1)
      else (Inr (map (\<lambda>a. set_port a port) addresses), k1))"

text \<open>\<open>co_await\<close> of a connect: the initial call, then the follow-ups.\<close>

definition poll_connect ::
  "'k posix_os \<Rightarrow> 'k park \<Rightarrow> fd \<Rightarrow> sockaddr \<Rightarrow> ns option \<Rightarrow> ('k, unit) io" where
  "poll_connect os park f a dl k =
     (let x = fresh_completion (Connect f a) dl;
          (h, w) = connect_await_suspend os f a 0 x (Coro 0) (start_warden k);
          r = (if h \<noteq> NoopCoro then Some (the (heap w 0), kern w)
               else (case park (kern w) of
                       None \<Rightarrow> None
                     | Some (None, k2) \<Rightarrow> Some (fail ETIME ''IOP timed out'' x, k2)
                     | Some (Some u, k2) \<Rightarrow> await_iop os park (Connect f a) dl k2))
      in case r of
           None \<Rightarrow> None
         | Some (y, k1) \<Rightarrow>
             (case iop_value y of Inl e \<Rightarrow> Some (Inl e, k1) | Inr v \<Rightarrow> Some (Inr (), k1)))"

text \<open>The body of the loop: the socket is closed when the connect throws.\<close>

definition connect_address ::
  "'k posix_os \<Rightarrow> 'k park \<Rightarrow> ns option \<Rightarrow> sockaddr \<Rightarrow> ('k, fd) io" where
  "connect_address os park dl a k =
     (case create_socket os (do_prepare_socket os) (sa_family a) SOCK_STREAM 0 k of
        (Inl e, k1) \<Rightarrow> Some (Inl e, k1)
      | (Inr s, k1) \<Rightarrow>
          (case poll_connect os park s a dl k1 of
             None \<Rightarrow> None
           | Some (Inl e, k2) \<Rightarrow> Some (Inl e, snd (os_close os s k2))
           | Some (Inr u, k2) \<Rightarrow> Some (Inr s, k2)))"

fun connect_hosts ::
  "(sockaddr \<Rightarrow> ('k, 'a) io) \<Rightarrow> string \<Rightarrow> sockaddr list \<Rightarrow> exn option \<Rightarrow> ('k, 'a) io" where
  "connect_hosts tr hostname [] (Some e) k = Some (Inl e, k)"
| "connect_hosts tr hostname [] None k =
     Some (Inl (RuntimeError (''No host found for '' @ hostname)), k)"
| "connect_hosts tr hostname (a # as) eptr k =
     (case tr a k of
        None \<Rightarrow> None
      | Some (Inr x, k1) \<Rightarrow> Some (Inr x, k1)
      | Some (Inl e, k1) \<Rightarrow> connect_hosts tr hostname as (Some e) k1)"

definition connect_by_name ::
  "'k posix_os \<Rightarrow> 'k park \<Rightarrow> string \<Rightarrow> 16 word \<Rightarrow> ns option \<Rightarrow> ('k, fd) io" where
  "connect_by_name os park hostname port dl k =
     (case addrinfo os hostname port k of
        (Inl e, k1) \<Rightarrow> Some (Inl e, k1)
      | (Inr as, k1) \<Rightarrow> connect_hosts (connect_address os park dl) hostname as None k1)"

subsection \<open>The forms with a time out\<close>

text \<open>
  Every call that takes a deadline has a form that takes a time out, counted from the call, and
  so once for the whole task however many IOPs it needs.
\<close>

definition read_exactly_within ::
  "'k posix_os \<Rightarrow> (ns option \<Rightarrow> nat \<Rightarrow> ('k, byte list) io) \<Rightarrow> ns \<Rightarrow> nat \<Rightarrow> ('k, byte list) io" where
  "read_exactly_within os rd timeout n k =
     (let (d, k1) = deadline_from os timeout k in read_exactly rd (Some d) n [] k1)"

definition buffer_do_read_some_within ::
  "'k posix_os \<Rightarrow> (ns option \<Rightarrow> nat \<Rightarrow> ('k, byte list) io) \<Rightarrow> ns \<Rightarrow> read_buffer \<Rightarrow> 'k
    \<Rightarrow> (((exn + nat) \<times> read_buffer) \<times> 'k) option" where
  "buffer_do_read_some_within os rd timeout b k =
     (let (d, k1) = deadline_from os timeout k in buffer_do_read_some rd (Some d) b k1)"

definition read_until_lf_strip_cr_within ::
  "'k posix_os \<Rightarrow> (ns option \<Rightarrow> nat \<Rightarrow> ('k, byte list) io) \<Rightarrow> ns \<Rightarrow> read_buffer \<Rightarrow> 'k
    \<Rightarrow> (((exn + span) \<times> read_buffer) \<times> 'k) option" where
  "read_until_lf_strip_cr_within os rd timeout b k =
     (let (d, k1) = deadline_from os timeout k in read_until_lf_strip_cr rd (Some d) b k1)"

definition write_all_within ::
  "'k posix_os \<Rightarrow> (ns option \<Rightarrow> byte list \<Rightarrow> ('k, nat) io) \<Rightarrow> ns \<Rightarrow> byte list \<Rightarrow> ('k, nat) io" where
  "write_all_within os wr timeout out k =
     (let (d, k1) = deadline_from os timeout k in write_all wr (Some d) out 0 k1)"

definition connect_by_name_within ::
  "'k posix_os \<Rightarrow> 'k park \<Rightarrow> string \<Rightarrow> 16 word \<Rightarrow> ns \<Rightarrow> ('k, fd) io" where
  "connect_by_name_within os park hostname port timeout k =
     (let (d, k1) = deadline_from os timeout k
      in connect_by_name os park hostname port (Some d) k1)"

text \<open>The errors of a run of attempts that all fail.\<close>

fun failures :: "(sockaddr \<Rightarrow> ('k, 'a) io) \<Rightarrow> sockaddr list \<Rightarrow> 'k \<Rightarrow> (exn list \<times> 'k) option" where
  "failures tr [] k = Some ([], k)"
| "failures tr (a # as) k =
     (case tr a k of
        Some (Inl e, k1) \<Rightarrow> map_option (\<lambda>(es, k2). (e # es, k2)) (failures tr as k1)
      | _ \<Rightarrow> None)"

lemma connect_hosts_result:
  "connect_hosts tr hostname as ep k = Some (r, k') \<Longrightarrow>
   case r of
     Inr x \<Rightarrow> \<exists>pre a post es k1. as = pre @ a # post \<and> failures tr pre k = Some (es, k1) \<and>
       tr a k1 = Some (Inr x, k')
   | Inl e \<Rightarrow> \<exists>es. failures tr as k = Some (es, k') \<and>
       e = (if es \<noteq> [] then last es else (case ep of Some e0 \<Rightarrow> e0
              | None \<Rightarrow> RuntimeError (''No host found for '' @ hostname)))"
proof (induction tr hostname as ep k rule: connect_hosts.induct)
  case (3 tr hostname a as eptr k)
  from "3.prems" obtain q k1 where t: "tr a k = Some (q, k1)" by (auto split: option.splits)
  show ?case
  proof (cases q)
    case (Inr x)
    with "3.prems" t have "r = Inr x" "k' = k1" by auto
    moreover have "a # as = [] @ a # as \<and> failures tr [] k = Some ([], k) \<and> tr a k = Some (Inr x, k1)"
      using t Inr by simp
    ultimately show ?thesis by (simp only: sum.case) blast
  next
    case (Inl e)
    with "3.prems" t have rec: "connect_hosts tr hostname as (Some e) k1 = Some (r, k')" by simp
    note IH = "3.IH" [OF t refl Inl rec]
    show ?thesis
    proof (cases r)
      case (Inr x)
      with IH obtain pre a' post es k2 where p: "as = pre @ a' # post"
          "failures tr pre k1 = Some (es, k2)" "tr a' k2 = Some (Inr x, k')" by auto
      then have "a # as = (a # pre) @ a' # post \<and> failures tr (a # pre) k = Some (e # es, k2) \<and>
          tr a' k2 = Some (Inr x, k')" using t Inl by simp
      with Inr show ?thesis by (simp only: sum.case) blast
    next
      case (Inl e')
      with IH \<open>q = Inl e\<close> t show ?thesis by auto
    qed
  qed
qed auto

end
