(* ===== verification/UringWrites.thy ===== *)
theory UringWrites
  imports UringTasks Streams
begin

text \<open>
  \<open>write_all\<close> over the io_uring warden: the coroutine of \<open>write.hpp\<close> as a task of writes, what the ring
  is documented to do with the bytes of a write (\<open>ring_takes\<close>), and what a run of the loop then sends.
\<close>

subsection \<open>The coroutine\<close>

definition written_bytes :: "exn + ret option \<Rightarrow> exn + nat" where
  "written_bytes v =
     (case v of
        Inl e \<Rightarrow> Inl e
      | Inr (Some (RSize n)) \<Rightarrow> Inr n
      | Inr _ \<Rightarrow> Inl (Undefined ''write_some''))"

function ring_write :: "fd \<Rightarrow> ns option \<Rightarrow> byte list \<Rightarrow> nat \<Rightarrow> (exn + nat) ring_task" where
  "ring_write f dl out written =
     (if out = [] then RingReturn (Inr written)
      else RingAwait (WriteSome f out) dl
        (\<lambda>v. case written_bytes v of
               Inl e \<Rightarrow> RingReturn (Inl e)
             | Inr bytes \<Rightarrow>
                 if bytes = 0 then RingReturn (Inr written)
                 else if length out < bytes then RingReturn (Inl (Undefined ''subspan''))
                 else ring_write f dl (drop bytes out) (written + bytes)))"
  by pat_completeness auto
termination
  by (relation "measure (\<lambda>(f, dl, out, written). length out)") auto

declare ring_write.simps [simp del]

text \<open>It is \<open>write_all\<close>: both end with the same for the same results of their writes.\<close>

definition answers :: "ns option \<Rightarrow> byte list \<Rightarrow> ((exn + ret option) list, nat) io" where
  "answers dl bs vs = (case vs of [] \<Rightarrow> None | v # rest \<Rightarrow> Some (written_bytes v, rest))"

lemma answers_simps: "answers dl bs [] = None" "answers dl bs (v # rest) = Some (written_bytes v, rest)"
  by (simp_all add: answers_def)

lemma ring_write_answers:
  "ring_left (ring_write f dl out written) vs = RingReturn q \<longleftrightarrow>
   (\<exists>rest. write_all answers dl out written vs = Some (q, rest))"
proof (induction f dl out written arbitrary: vs rule: ring_write.induct)
  case (1 f dl out written)
  show ?case
    by (subst ring_write.simps, subst write_all.simps)
      (use 1 in \<open>cases vs; auto simp: answers_simps split: sum.split\<close>)
qed

subsection \<open>What the ring does with the bytes\<close>

text \<open>
  The writes to one descriptor that the ring has been given, in order: the completion each belongs to,
  its bytes, and how many of these have gone out once it has been performed.
\<close>

type_synonym write_log = "(cid \<times> byte list \<times> nat option) list"

definition logged :: "fd \<Rightarrow> sqe \<Rightarrow> write_log" where
  "logged f q =
     (case (op q, user_data q) of
        (PrepWrite g bs, Some i) \<Rightarrow> if g = f then [(i, bs, None)] else []
      | _ \<Rightarrow> [])"

definition performed :: "cid \<times> byte list \<times> nat option \<Rightarrow> cid \<times> byte list \<times> nat option \<Rightarrow> bool" where
  "performed a b \<longleftrightarrow>
     b = a \<or> (\<exists>i bs n. a = (i, bs, None) \<and> b = (i, bs, Some n) \<and> n \<le> length bs)"

definition reports :: "cqe \<Rightarrow> write_log \<Rightarrow> bool" where
  "reports cq ws \<longleftrightarrow>
     (\<forall>i bs r. cqe_data cq = Some i \<and> 0 \<le> res cq \<and> map_of (rev ws) i = Some (bs, r) \<longrightarrow>
        r = Some (nat (res cq)))"

definition ring_takes ::
  "'k liburing \<Rightarrow> (exn + ret option \<Rightarrow> 'k \<Rightarrow> 'k) \<Rightarrow> fd \<Rightarrow> ('k \<Rightarrow> write_log) \<Rightarrow> bool" where
  "ring_takes ur note f ws \<longleftrightarrow>
     (\<forall>v k. ws (note v k) = ws k) \<and> (\<forall>k. ws (snd (ur_get_sqe ur k)) = ws k) \<and>
     (\<forall>cq k. ws (ur_seen ur cq k) = ws k) \<and> (\<forall>k. ws (snd (os_now (ur_os ur) k)) = ws k) \<and>
     (\<forall>s q k. ws (ur_fill ur s q k) = ws k @ logged f q) \<and>
     (\<forall>k. list_all2 performed (ws k) (ws (ur_submit ur k))) \<and>
     (\<forall>k ret cq k'. ur_wait ur k = (ret, cq, k') \<longrightarrow>
        list_all2 performed (ws k) (ws k') \<and> (0 \<le> ret \<longrightarrow> reports cq (ws k'))) \<and>
     (\<forall>k y k'. ur_peek ur k = (y, k') \<longrightarrow>
        list_all2 performed (ws k) (ws k') \<and> (\<forall>cq. y = Some cq \<longrightarrow> reports cq (ws k')))"

text \<open>The bytes that have gone out.\<close>

definition gone_out :: "write_log \<Rightarrow> byte list" where
  "gone_out ws = concat (map (\<lambda>(i, bs, r). case r of None \<Rightarrow> [] | Some n \<Rightarrow> take n bs) ws)"

lemma ring_takesD:
  assumes "ring_takes ur note f ws"
  shows "ws (note v k) = ws k" "ws (ur_seen ur cq k) = ws k" "ws (ur_fill ur s q k) = ws k @ logged f q"
    "list_all2 performed (ws k) (ws (ur_submit ur k))"
  using assms by (simp_all add: ring_takes_def)

lemma ring_takes_steps:
  assumes "ring_takes ur note f ws"
  shows "ur_get_sqe ur k = (x, k1) \<Longrightarrow> ws k1 = ws k" "os_now (ur_os ur) k = (t, k1) \<Longrightarrow> ws k1 = ws k"
    "ur_wait ur k = (ret, cq, k1) \<Longrightarrow> list_all2 performed (ws k) (ws k1) \<and> (0 \<le> ret \<longrightarrow> reports cq (ws k1))"
    "ur_peek ur k = (y, k1) \<Longrightarrow> list_all2 performed (ws k) (ws k1) \<and> (\<forall>cq. y = Some cq \<longrightarrow> reports cq (ws k1))"
proof -
  have "ws (snd (ur_get_sqe ur k)) = ws k" "ws (snd (os_now (ur_os ur) k)) = ws k"
    using assms by (simp_all add: ring_takes_def)
  then show "ur_get_sqe ur k = (x, k1) \<Longrightarrow> ws k1 = ws k" "os_now (ur_os ur) k = (t, k1) \<Longrightarrow> ws k1 = ws k"
    by simp_all
qed (use assms in \<open>simp_all add: ring_takes_def\<close>)

subsection \<open>Reading the ring keeps an invariant\<close>

definition ring_keeps ::
  "'k liburing \<Rightarrow> (exn + ret option \<Rightarrow> 'k \<Rightarrow> 'k) \<Rightarrow> ('a ring_phase \<Rightarrow> 'k \<Rightarrow> bool) \<Rightarrow> (cqe \<Rightarrow> 'k \<Rightarrow> bool) \<Rightarrow> bool" where
  "ring_keeps ur note I shown \<longleftrightarrow>
     (\<forall>ph k ret cq k'. I ph k \<and> ur_wait ur (ur_submit ur k) = (ret, cq, k') \<longrightarrow>
        I ph k' \<and> (0 \<le> ret \<longrightarrow> shown cq k')) \<and>
     (\<forall>ph k y k'. I ph k \<and> ur_peek ur k = (y, k') \<longrightarrow> I ph k' \<and> (\<forall>cq. y = Some cq \<longrightarrow> shown cq k')) \<and>
     (\<forall>ph k cq. I ph k \<and> shown cq k \<longrightarrow> (let (ph', k') = take_entry ur note cq (ph, k) in I ph' k'))"

lemma ring_keepsD:
  assumes "ring_keeps ur note I shown" "I ph k"
  shows "ur_wait ur (ur_submit ur k) = (ret, cq, k') \<Longrightarrow> I ph k' \<and> (0 \<le> ret \<longrightarrow> shown cq k')"
    "ur_peek ur k = (y, k') \<Longrightarrow> I ph k' \<and> (\<forall>cq. y = Some cq \<longrightarrow> shown cq k')"
proof -
  have a: "\<forall>ph k ret cq k'. I ph k \<and> ur_wait ur (ur_submit ur k) = (ret, cq, k') \<longrightarrow>
        I ph k' \<and> (0 \<le> ret \<longrightarrow> shown cq k')"
    and b: "\<forall>ph k y k'. I ph k \<and> ur_peek ur k = (y, k') \<longrightarrow> I ph k' \<and> (\<forall>cq. y = Some cq \<longrightarrow> shown cq k')"
    by (rule assms(1) [unfolded ring_keeps_def, THEN conjunct1],
      rule assms(1) [unfolded ring_keeps_def, THEN conjunct2, THEN conjunct1])
  show "ur_wait ur (ur_submit ur k) = (ret, cq, k') \<Longrightarrow> I ph k' \<and> (0 \<le> ret \<longrightarrow> shown cq k')"
    by (rule a [rule_format, OF conjI [OF assms(2)]])
  show "ur_peek ur k = (y, k') \<Longrightarrow> I ph k' \<and> (\<forall>cq. y = Some cq \<longrightarrow> shown cq k')"
    by (rule b [rule_format, OF conjI [OF assms(2)]])
qed

lemma ring_keeps_entry:
  assumes "ring_keeps ur note I shown" "I ph k" "shown cq k" "take_entry ur note cq (ph, k) = s"
  shows "I (fst s) (snd s)"
proof -
  have "\<forall>ph k cq. I ph k \<and> shown cq k \<longrightarrow> (let (ph', k') = take_entry ur note cq (ph, k) in I ph' k')"
    by (rule assms(1) [unfolded ring_keeps_def, THEN conjunct2, THEN conjunct2])
  from this [rule_format, OF conjI [OF assms(2,3)]] assms(4) show ?thesis
    by (simp add: split_beta Let_def)
qed

lemma take_ready_keeps:
  assumes run: "take_ready ur note s = Some s'" and "ring_keeps ur note I shown" "I (fst s) (snd s)"
  shows "I (fst s') (snd s')"
proof -
  let ?P = "\<lambda>ur note s s'. ring_keeps ur note I shown \<longrightarrow> I (fst s) (snd s) \<longrightarrow> I (fst s') (snd s')"
  have "?P ur note s s'"
  proof (rule take_ready.raw_induct [where P = ?P, OF _ run], intro impI)
    fix g and ur :: "'b liburing" and "note" and s s' :: "'a ring_phase \<times> 'b"
    assume IH: "\<And>(ur :: 'b liburing) note s s'. g ur note s = Some s' \<Longrightarrow> ?P ur note s s'"
      and eq: "(case ur_peek ur (snd s) of
          (None, k) \<Rightarrow> Some (fst s, k)
        | (Some cq, k) \<Rightarrow> g ur note (take_entry ur note cq (fst s, k))) = Some s'"
      and keeps: "ring_keeps ur note I shown" and i: "I (fst s) (snd s)"
    obtain y k where y: "ur_peek ur (snd s) = (y, k)" by (cases "ur_peek ur (snd s)")
    note i1 = ring_keepsD(2) [OF keeps i y]
    show "I (fst s') (snd s')"
    proof (cases y)
      case None
      with eq y i1 show ?thesis by auto
    next
      case (Some cq)
      with eq y have "g ur note (take_entry ur note cq (fst s, k)) = Some s'" by simp
      from IH [OF this] keeps ring_keeps_entry [OF keeps _ _ refl] i1 Some show ?thesis by simp
    qed
  qed
  with assms show ?thesis by blast
qed

lemma await_entries_keeps:
  assumes run: "await_entries ur note s = Some q" and "ring_keeps ur note I shown" "I (fst s) (snd s)"
  shows "\<exists>ph. I ph (snd q) \<and> (\<forall>a. fst q = Inr a \<longrightarrow> ph = Over a)"
proof -
  let ?P = "\<lambda>ur note s q. ring_keeps ur note I shown \<longrightarrow> I (fst s) (snd s) \<longrightarrow>
    (\<exists>ph. I ph (snd q) \<and> (\<forall>a. fst q = Inr a \<longrightarrow> ph = Over a))"
  have "?P ur note s q"
  proof (rule await_entries.raw_induct [where P = ?P, OF _ run], intro impI)
    fix g and ur :: "'b liburing" and "note" and s :: "'a ring_phase \<times> 'b" and q
    assume IH: "\<And>(ur :: 'b liburing) note (s :: 'a ring_phase \<times> 'b) q. g ur note s = Some q \<Longrightarrow> ?P ur note s q"
      and eq: "(case fst s of
          Over a \<Rightarrow> Some (Inr a, snd s)
        | Waiting i d c \<Rightarrow>
            let (ret, cq, k) = ur_wait ur (ur_submit ur (snd s))
            in if ret = - EINTR then g ur note (fst s, k)
               else if ret < 0 then Some (Inl (SystemError (- ret) ''uring_wait_cqe''), k)
               else case take_ready ur note (take_entry ur note cq (fst s, k)) of None \<Rightarrow> None
                 | Some s2 \<Rightarrow> g ur note s2) = Some q"
      and keeps: "ring_keeps ur note I shown" and i: "I (fst s) (snd s)"
    show "\<exists>ph. I ph (snd q) \<and> (\<forall>a. fst q = Inr a \<longrightarrow> ph = Over a)"
    proof (cases "fst s")
      case (Over a)
      with eq i show ?thesis by (intro exI [of _ "Over a"]) auto
    next
      case (Waiting j d c)
      obtain ret cq k where wt: "ur_wait ur (ur_submit ur (snd s)) = (ret, cq, k)"
        by (metis prod_cases3)
      note i1 = ring_keepsD(1) [OF keeps i wt]
      note eq1 = eq [unfolded wt Let_def, simplified Waiting ring_phase.case prod.case]
      consider "ret = - EINTR" | "ret \<noteq> - EINTR" "ret < 0" | "ret \<noteq> - EINTR" "0 \<le> ret" by linarith
      then show ?thesis
      proof cases
        case 1
        with eq1 Waiting have "g ur note (fst s, k) = Some q" by simp
        from IH [OF this] keeps i1 show ?thesis by simp
      next
        case 2
        with eq1 have "snd q = k" "\<forall>a. fst q \<noteq> Inr a" by auto
        with i1 show ?thesis by auto
      next
        case 3
        with eq1 Waiting obtain s2 where s2: "take_ready ur note (take_entry ur note cq (fst s, k)) = Some s2"
            "g ur note s2 = Some q"
          by (auto split: option.splits)
        from ring_keeps_entry [OF keeps _ _ refl] i1 3(2)
        have "I (fst (take_entry ur note cq (fst s, k))) (snd (take_entry ur note cq (fst s, k)))" by simp
        from IH [OF s2(2)] keeps take_ready_keeps [OF s2(1) keeps this] show ?thesis by simp
      qed
    qed
  qed
  with assms show ?thesis by blast
qed

subsection \<open>The writes of \<open>write_all\<close>\<close>

text \<open>The first \<open>m\<close> bytes have gone out, and none is on its way.\<close>

definition wrote :: "byte list \<Rightarrow> write_log \<Rightarrow> nat \<Rightarrow> bool" where
  "wrote out ws m \<longleftrightarrow> m \<le> length out \<and> gone_out ws = take m out \<and> (\<forall>a\<in>set ws. snd (snd a) \<noteq> None)"

text \<open>The write of the rest has been given to the ring.\<close>

definition writing_rest :: "byte list \<Rightarrow> nat \<Rightarrow> cid \<Rightarrow> nat option \<Rightarrow> write_log \<Rightarrow> bool" where
  "writing_rest out m i r ws \<longleftrightarrow>
     (\<exists>ws0. wrote out ws0 m \<and> ws = ws0 @ [(i, drop m out, r)]) \<and> (\<forall>n. r = Some n \<longrightarrow> m + n \<le> length out)"

definition writing ::
  "fd \<Rightarrow> ns option \<Rightarrow> byte list \<Rightarrow> (exn + nat) ring_phase \<Rightarrow> write_log \<Rightarrow> bool" where
  "writing f dl out ph ws \<longleftrightarrow>
     (case ph of
        Waiting i d c \<Rightarrow>
          (\<exists>m r. writing_rest out m i r ws \<and> u_kind d = WriteSome f (drop m out) \<and>
             ring_write f dl (drop m out) m = RingAwait (WriteSome f (drop m out)) dl c)
      | Over (Inl e) \<Rightarrow> (\<exists>m. wrote out ws m) \<or> (\<exists>m i r. writing_rest out m i r ws)
      | Over (Inr n) \<Rightarrow> wrote out ws n \<and> (n < length out \<longrightarrow> (\<exists>i. (i, drop n out, Some 0) \<in> set ws)))"

lemma gone_out_append: "gone_out (ws @ [(i, bs, r)]) = gone_out ws @ (case r of None \<Rightarrow> [] | Some n \<Rightarrow> take n bs)"
  by (simp add: gone_out_def)

lemma writing_rest_gone_out:
  assumes "writing_rest out m i r ws"
  shows "\<exists>n\<le>length out. gone_out ws = take n out"
proof (cases r)
  case None
  with assms show ?thesis
    by (intro exI [of _ m]) (auto simp: writing_rest_def wrote_def gone_out_append)
next
  case (Some n)
  with assms show ?thesis
    by (intro exI [of _ "m + n"]) (auto simp: writing_rest_def wrote_def gone_out_append take_add)
qed

lemma writing_rest_done: "writing_rest out m i (Some n) ws \<Longrightarrow> wrote out ws (m + n)"
  by (auto simp: writing_rest_def wrote_def gone_out_append take_add)

lemma writing_prefix:
  assumes "writing f dl out ph ws"
  shows "\<exists>m\<le>length out. gone_out ws = take m out \<and> (\<forall>n. ph = Over (Inr n) \<longrightarrow> m = n)"
  using assms writing_rest_gone_out
  by (cases ph) (fastforce simp: writing_def wrote_def split: sum.splits)+

text \<open>The ring goes on with what it has been given.\<close>

lemma performed_done: "list_all2 performed ws ws' \<Longrightarrow> \<forall>a\<in>set ws. snd (snd a) \<noteq> None \<Longrightarrow> ws' = ws"
  by (induction rule: list_all2_induct) (auto simp: performed_def)

lemma wrote_performed: "wrote out ws m \<Longrightarrow> list_all2 performed ws ws' \<Longrightarrow> ws' = ws"
  by (rule performed_done) (simp_all add: wrote_def)

lemma writing_rest_performed:
  assumes "writing_rest out m i r ws" "list_all2 performed ws ws'"
  shows "\<exists>r'. writing_rest out m i r' ws'"
proof -
  obtain ws0 where ws0: "wrote out ws0 m" "ws = ws0 @ [(i, drop m out, r)]"
      and r: "\<forall>n. r = Some n \<longrightarrow> m + n \<le> length out"
    using assms(1) by (auto simp: writing_rest_def)
  obtain ws1 b where ws': "ws' = ws1 @ [b]" "list_all2 performed ws0 ws1" "performed (i, drop m out, r) b"
    using assms(2) ws0(2) by (auto simp: list_all2_append1 list_all2_Cons1)
  have "ws1 = ws0" by (rule wrote_performed [OF ws0(1) ws'(2)])
  moreover obtain r' where "b = (i, drop m out, r')" "\<forall>n. r' = Some n \<longrightarrow> m + n \<le> length out"
    using ws'(3) r ws0(1) by (auto simp: performed_def wrote_def)
  ultimately show ?thesis using ws0(1) ws'(1) by (auto simp: writing_rest_def)
qed

lemma writing_performed:
  assumes "writing f dl out ph ws" "list_all2 performed ws ws'"
  shows "writing f dl out ph ws'"
proof (cases ph)
  case (Waiting i d c)
  with assms writing_rest_performed [OF _ assms(2)] show ?thesis
    by (simp add: writing_def) blast
next
  case (Over q)
  with assms(1) writing_rest_performed [OF _ assms(2)] wrote_performed [OF _ assms(2)] show ?thesis
    by (cases q; simp add: writing_def; blast)
qed

text \<open>Submitting a write gives it to the ring; if that throws, the ring may have it all the same.\<close>

lemma submits_write:
  assumes laws: "ring_takes ur note f ws" and "submits ur (WriteSome f bs) dl i k = (q, k1)"
  shows "case q of
      Inr d \<Rightarrow> u_kind d = WriteSome f bs \<and> ws k1 = ws k @ [(i, bs, None)]
    | Inl e \<Rightarrow> ws k1 = ws k \<or> ws k1 = ws k @ [(i, bs, None)]"
proof -
  have log: "logged f \<lparr>op = PrepWrite f bs, user_data = Some i, io_link = l\<rparr> = [(i, bs, None)]"
    "logged f \<lparr>op = PrepLinkTimeout t, user_data = Some i, io_link = l\<rparr> = []" for l t
    by (simp_all add: logged_def)
  obtain x k2 where g: "ur_get_sqe ur k = (x, k2)" by (cases "ur_get_sqe ur k")
  note keeps = ring_takesD(3) [OF laws] ring_takes_steps(1,2) [OF laws]
  from g assms(2) show ?thesis
    by (cases x; cases dl)
      (auto simp: submits_def bare_uring_def new_delivery_def u_store_def uring_await_suspend_def
        submit_iop_def setup_submission_def next_sqe_def setup_timeout_def fill_sqe_def Let_def
        keeps(1) log dest!: keeps(2,3) split: prod.splits option.splits)
qed

lemma goes_on_write:
  assumes laws: "ring_takes ur note f ws" and "wrote out (ws k) m"
    and "goes_on ur note (ring_write f dl (drop m out) m) i k = (ph, k')"
  shows "writing f dl out ph (ws k')"
proof (cases "drop m out = []")
  case True
  with assms(2,3) show ?thesis by (auto simp: ring_write.simps writing_def wrote_def)
next
  case False
  obtain q k1 where q: "submits ur (WriteSome f (drop m out)) dl i k = (q, k1)" by (meson surj_pair)
  obtain c where c: "ring_write f dl (drop m out) m = RingAwait (WriteSome f (drop m out)) dl c"
      "\<And>e. c (Inl e) = RingReturn (Inl e)"
    using False by (simp add: ring_write.simps written_bytes_def)
  have rest: "writing_rest out m i None (ws k @ [(i, drop m out, None)])"
    using assms(2) by (simp add: writing_rest_def)
  show ?thesis
  proof (cases q)
    case (Inl e)
    then have "ph = Over (Inl e)" "ws k' = ws k1" using assms(3) c q ring_takesD(1) [OF laws] by auto
    with submits_write [OF laws q] Inl assms(2) rest show ?thesis by (auto simp: writing_def)
  next
    case (Inr d)
    then have "ph = Waiting i d c" "k' = k1" using assms(3) c(1) q by simp_all
    with submits_write [OF laws q] Inr rest c(1) show ?thesis by (auto simp: writing_def)
  qed
qed

lemma delivered_write:
  assumes "deliver_result rc d = Some d1" "u_kind d = WriteSome f bs"
  shows "rc < 0 \<and> (\<exists>e. written_bytes (u_value d1) = Inl e) \<or> 0 \<le> rc \<and> written_bytes (u_value d1) = Inr (nat rc)"
  using assms by (auto simp: deliver_result_def deliver_value_def u_value_fail u_value_succeed written_bytes_def
      split: if_splits)

lemma entry_writing:
  assumes laws: "ring_takes ur note f ws" and w: "writing f dl out ph (ws k)" and shown: "reports cq (ws k)"
    and e: "take_entry ur note cq (ph, k) = (ph', k')"
  shows "writing f dl out ph' (ws k')"
proof -
  note keeps = ring_takesD(1,2) [OF laws]
  have same: ?thesis if "ph' = ph" "k' = ur_seen ur cq k" using that w keeps by simp
  show ?thesis
  proof (cases ph)
    case (Over q)
    with same e show ?thesis by (simp add: take_entry_def)
  next
    case (Waiting i d c)
    show ?thesis
    proof (cases "cqe_data cq = Some i \<and> deliver_result (res cq) d \<noteq> None")
      case False
      with same e Waiting show ?thesis by (auto simp: take_entry_def Let_def split: if_splits)
    next
      case True
      then obtain d1 where d1: "deliver_result (res cq) d = Some d1" and cq: "cqe_data cq = Some i" by auto
      from w Waiting obtain m r where rest: "writing_rest out m i r (ws k)" "u_kind d = WriteSome f (drop m out)"
          "ring_write f dl (drop m out) m = RingAwait (WriteSome f (drop m out)) dl c"
        by (auto simp: writing_def)
      let ?k = "note (u_value d1) (ur_seen ur cq k)"
      have k: "ws ?k = ws k" using keeps by simp
      have on: "goes_on ur note (c (u_value d1)) (Suc i) ?k = (ph', k')"
        using e Waiting cq d1 by (simp add: take_entry_def)
      have c: "c v = (case written_bytes v of
               Inl e \<Rightarrow> RingReturn (Inl e)
             | Inr bytes \<Rightarrow>
                 if bytes = 0 then RingReturn (Inr m)
                 else if length (drop m out) < bytes then RingReturn (Inl (Undefined ''subspan''))
                 else ring_write f dl (drop bytes (drop m out)) (m + bytes))" for v
        using rest(3) by (subst (asm) ring_write.simps) (auto split: if_splits)
      from delivered_write [OF d1 rest(2)] show ?thesis
      proof (elim disjE conjE exE)
        fix x
        assume "written_bytes (u_value d1) = Inl x"
        with on c k rest(1) show ?thesis by (auto simp: writing_def)
      next
        assume pos: "0 \<le> res cq" and n: "written_bytes (u_value d1) = Inr (nat (res cq))"
        let ?n = "nat (res cq)"
        have "map_of (rev (ws k)) i = Some (drop m out, r)" using rest(1) by (auto simp: writing_rest_def)
        with shown cq pos have r: "r = Some ?n" by (auto simp: reports_def)
        have le: "m + ?n \<le> length out" using rest(1) r by (simp add: writing_rest_def)
        have fin: "wrote out (ws ?k) (m + ?n)" using writing_rest_done rest(1) r k by simp
        show ?thesis
        proof (cases "?n = 0")
          case True
          with on c n have "ph' = Over (Inr m)" "k' = ?k" by simp_all
          moreover have "(i, drop m out, Some 0) \<in> set (ws ?k)"
            using rest(1) r True k by (auto simp: writing_rest_def)
          ultimately show ?thesis using fin True by (auto simp: writing_def)
        next
          case False
          have "\<not> length (drop m out) < ?n" using le unfolding length_drop by arith
          with c n False have "c (u_value d1) = ring_write f dl (drop (m + ?n) out) (m + ?n)"
            by (simp only: sum.case if_False drop_drop add.commute)
          with on goes_on_write [OF laws fin] show ?thesis by simp
        qed
      qed
    qed
  qed
qed

lemma writing_kept:
  assumes "ring_takes ur note f ws"
  shows "ring_keeps ur note (\<lambda>ph k. writing f dl out ph (ws k)) (\<lambda>cq k. reports cq (ws k))"
  unfolding ring_keeps_def Let_def split_beta
proof (intro conjI allI impI)
  fix ph k ret cq k'
  assume a: "writing f dl out ph (ws k) \<and> ur_wait ur (ur_submit ur k) = (ret, cq, k')"
  note wt = ring_takes_steps(3) [OF assms conjunct2 [OF a]]
  have "writing f dl out ph (ws (ur_submit ur k))"
    using writing_performed ring_takesD(4) [OF assms] a by blast
  with wt show "writing f dl out ph (ws k')" using writing_performed by blast
  show "0 \<le> ret \<Longrightarrow> reports cq (ws k')" using wt by blast
next
  fix ph k y k'
  assume a: "writing f dl out ph (ws k) \<and> ur_peek ur k = (y, k')"
  note pk = ring_takes_steps(4) [OF assms conjunct2 [OF a]]
  then show "writing f dl out ph (ws k')" using a writing_performed by blast
  show "y = Some cq \<Longrightarrow> reports cq (ws k')" for cq using pk by blast
next
  fix ph k cq
  assume "writing f dl out ph (ws k) \<and> reports cq (ws k)"
  then show "writing f dl out (fst (take_entry ur note cq (ph, k))) (ws (snd (take_entry ur note cq (ph, k))))"
    using entry_writing [OF assms] by (metis prod.collapse)
qed

text \<open>C8: \<open>write_all\<close> over the io_uring warden, from the coroutine down to the ring. However the loop's run
  ends, a prefix of the buffer has gone out, in order and with no byte twice. If \<open>run_until\<close> returns,
  the coroutine has what \<open>write_all\<close> gives for the results its writes had; a number of bytes among
  these is the length of that prefix, and less than the whole buffer only if a write of the rest
  took no byte. Short writes, interrupted waits, deadlines with their cancellations and late entries,
  and a ring without room may end it early but do not change this.\<close>

theorem uring_write_all_prefix:
  assumes "new_uring_warden ur entries flags k0 = Inr w" "keeps_frame ur note notes" "notes (u_kern w) = []"
    and "ring_takes ur note f ws" "ws (u_kern w) = []"
    and "uring_run_until ur (ring_coroutine ur note notes (ring_write f dl out 0)) 0 w = Some (r, w')"
  shows "\<exists>m\<le>length out. gone_out (ws (u_kern w')) = take m out \<and>
    (r = Inr () \<longrightarrow> (\<exists>q. ring_returned notes (ring_write f dl out 0) w' = Some q \<and>
      (\<exists>rest. write_all answers dl out 0 (notes (u_kern w')) = Some (q, rest)) \<and>
      (\<forall>n. q = Inr n \<longrightarrow> n = m \<and> (n < length out \<longrightarrow>
        (\<exists>i. (i, drop n out, Some 0) \<in> set (ws (u_kern w')))))))"
proof -
  let ?p = "ring_write f dl out 0"
  let ?s = "goes_on ur note ?p 0 (u_kern w)"
  have "wrote out (ws (u_kern w)) 0" using assms(5) by (simp add: wrote_def gone_out_def)
  from goes_on_write [OF assms(4) this, of dl 0] have i: "writing f dl out (fst ?s) (ws (snd ?s))" by simp
  have run: "uring_run_loop ur (ring_coroutine ur note notes ?p) 0
      (uring_resume ur (ring_coroutine ur note notes ?p) (Coro 0) w) = Some (r, w')"
    using assms(6) by (simp add: uring_run_until_def)
  note ends = run_awaited [OF run assms(2) refl start_tracks [OF assms(1-3)]]
  then obtain z where z: "await_entries ur note ?s = Some (z, u_kern w')"
      "r = Inr () \<Longrightarrow> \<exists>q. z = Inr q \<and> ring_returned notes ?p w' = Some q"
    by (cases r) auto
  from await_entries_keeps [OF z(1) writing_kept [OF assms(4)] i] obtain ph where
    ph: "writing f dl out ph (ws (u_kern w'))" "\<And>q. z = Inr q \<Longrightarrow> ph = Over q" by auto
  from writing_prefix [OF ph(1)] obtain m where m: "m \<le> length out" "gone_out (ws (u_kern w')) = take m out"
      "\<And>n. ph = Over (Inr n) \<Longrightarrow> m = n" by auto
  have a: "\<exists>rest. write_all answers dl out 0 (notes (u_kern w')) = Some (q, rest)"
    if "ring_returned notes ?p w' = Some q" for q
    using that ring_write_answers [of f dl out 0 "notes (u_kern w')" q]
    by (auto simp: ring_returned_def split: ring_task.splits)
  have b: "n = m \<and> (n < length out \<longrightarrow> (\<exists>i. (i, drop n out, Some 0) \<in> set (ws (u_kern w'))))"
    if "z = Inr (Inr n)" for n
    using ph m(3) that by (auto simp: writing_def)
  show ?thesis
  proof (intro exI [of _ m] conjI m(1,2) impI)
    assume "r = Inr ()"
    from z(2) [OF this] obtain q where q: "z = Inr q" "ring_returned notes ?p w' = Some q" by blast
    have "\<forall>n. q = Inr n \<longrightarrow> n = m \<and> (n < length out \<longrightarrow> (\<exists>i. (i, drop n out, Some 0) \<in> set (ws (u_kern w'))))"
      using b q(1) by simp
    with a [OF q(2)] q(2) show "\<exists>q. ring_returned notes ?p w' = Some q \<and>
      (\<exists>rest. write_all answers dl out 0 (notes (u_kern w')) = Some (q, rest)) \<and>
      (\<forall>n. q = Inr n \<longrightarrow> n = m \<and> (n < length out \<longrightarrow>
        (\<exists>i. (i, drop n out, Some 0) \<in> set (ws (u_kern w')))))" by blast
  qed
qed

text \<open>A ring that takes three bytes at most of a write.\<close>

type_synonym sips = "(exn + ret option) list \<times> write_log \<times> bool"

definition sip :: "cid \<times> byte list \<times> nat option \<Rightarrow> cid \<times> byte list \<times> nat option" where
  "sip a = (case a of (i, bs, None) \<Rightarrow> (i, bs, Some (min 3 (length bs))) | _ \<Rightarrow> a)"

definition sip_entry :: "sips \<Rightarrow> cqe option" where
  "sip_entry k =
     (case k of (ns, log, unseen) \<Rightarrow>
        (case rev log of
           (i, bs, Some n) # _ \<Rightarrow> if unseen then Some \<lparr>cqe_data = Some i, res = int n\<rparr> else None
         | _ \<Rightarrow> None))"

definition sip_ring :: "sips liburing" where
  "sip_ring = \<lparr>
     ur_os = quiet_os, ur_queue_init = (\<lambda>n f k. (0, k)), ur_get_sqe = (\<lambda>k. (Some 0, k)),
     ur_fill = (\<lambda>s q (ns, log, unseen). (ns, log @ logged 7 q, True)),
     ur_submit = (\<lambda>(ns, log, unseen). (ns, map sip log, unseen)),
     ur_wait = (\<lambda>k. case sip_entry k of
        None \<Rightarrow> (- EINTR, \<lparr>cqe_data = None, res = 0\<rparr>, k) | Some cq \<Rightarrow> (0, cq, k)),
     ur_peek = (\<lambda>k. (sip_entry k, k)),
     ur_seen = (\<lambda>cq (ns, log, unseen). (ns, log, False))\<rparr>"

definition sip_note :: "exn + ret option \<Rightarrow> sips \<Rightarrow> sips" where
  "sip_note v k = (fst k @ [v], snd k)"

lemma sip_ring_keeps_frame: "keeps_frame sip_ring sip_note fst"
  by (auto simp: keeps_frame_def sip_ring_def sip_note_def quiet_os_def split: option.split)

lemma sip_entry_reports: "sip_entry (ns, log, unseen) = Some cq \<Longrightarrow> reports cq log"
  by (auto simp: sip_entry_def reports_def split: prod.splits list.splits option.splits if_splits)

lemma sip_ring_takes: "ring_takes sip_ring sip_note 7 (\<lambda>k. fst (snd k))"
proof -
  have [simp]: "list_all2 performed ws ws" for ws
    by (simp add: list_all2_same performed_def)
  have "list_all2 performed log (map sip log)" for log
    by (auto simp: list_all2_conv_all_nth performed_def sip_def split: option.split prod.split)
  then show ?thesis
    by (auto simp: ring_takes_def sip_ring_def sip_note_def quiet_os_def sip_entry_reports split: option.splits)
qed

lemma await_step:
  assumes "ur_wait ur (ur_submit ur k) = (0, cq, k1)" "take_entry ur note cq (Waiting i d c, k1) = (ph, k2)"
    and "ur_peek ur k2 = (None, k2)"
  shows "await_entries ur note (Waiting i d c, k) = await_entries ur note (ph, k2)"
  using assms by (simp add: await_entries.simps [of ur "note" "(Waiting i d c, k)"] take_ready.simps)

lemma sip_submits:
  "\<exists>d. submits sip_ring (WriteSome 7 bs) None i (ns, log, u) = (Inr d, ns, log @ [(i, bs, None)], True) \<and>
     u_kind d = WriteSome 7 bs \<and> u_deadline d = None"
  by (simp add: submits_def bare_uring_def new_delivery_def u_store_def logged_def uring_await_suspend_def
      submit_iop_def setup_submission_def next_sqe_def setup_timeout_def fill_sqe_def sip_ring_def Let_def)

lemma sip_goes_on:
  assumes "bs \<noteq> []"
  shows "\<exists>d. goes_on sip_ring sip_note (ring_write 7 None bs m) i (ns, log, u) =
      (Waiting i d (\<lambda>v. case written_bytes v of
               Inl e \<Rightarrow> RingReturn (Inl e)
             | Inr bytes \<Rightarrow>
                 if bytes = 0 then RingReturn (Inr m)
                 else if length bs < bytes then RingReturn (Inl (Undefined ''subspan''))
                 else ring_write 7 None (drop bytes bs) (m + bytes)), ns, log @ [(i, bs, None)], True) \<and>
    u_kind d = WriteSome 7 bs \<and> u_deadline d = None"
  using assms sip_submits [of bs i ns log u] by (subst ring_write.simps) auto

text \<open>A write of a non-empty rest takes up to three bytes of it, and the loop goes on with what is left.\<close>

lemma sip_write_step:
  assumes "bs \<noteq> []" "\<forall>a\<in>set log. snd (snd a) \<noteq> None"
  shows "await_entries sip_ring sip_note (goes_on sip_ring sip_note (ring_write 7 None bs m) i (ns, log, u)) =
    await_entries sip_ring sip_note
      (goes_on sip_ring sip_note (ring_write 7 None (drop 3 bs) (m + min 3 (length bs))) (Suc i)
        (ns @ [Inr (Some (RSize (min 3 (length bs))))], log @ [(i, bs, Some (min 3 (length bs)))], False))"
proof -
  let ?n = "min 3 (length bs)"
  let ?k1 = "(ns, log @ [(i, bs, Some ?n)], True)"
  let ?cq = "\<lparr>cqe_data = Some i, res = int ?n\<rparr>"
  have n: "?n \<noteq> 0" "\<not> length bs < ?n" using assms(1) by (auto simp: min_def)
  obtain d c where g: "goes_on sip_ring sip_note (ring_write 7 None bs m) i (ns, log, u) =
        (Waiting i d c, ns, log @ [(i, bs, None)], True)"
      and d: "u_kind d = WriteSome 7 bs" "u_deadline d = None"
      and cv: "c = (\<lambda>v. case written_bytes v of
               Inl e \<Rightarrow> RingReturn (Inl e)
             | Inr bytes \<Rightarrow>
                 if bytes = 0 then RingReturn (Inr m)
                 else if length bs < bytes then RingReturn (Inl (Undefined ''subspan''))
                 else ring_write 7 None (drop bytes bs) (m + bytes))"
    using sip_goes_on [OF assms(1), of m i ns log u] by blast
  have c: "c (Inr (Some (RSize ?n))) = ring_write 7 None (drop ?n bs) (m + ?n)"
    unfolding cv written_bytes_def using n by (simp only: sum.case option.case ret.case if_False)
  have "map sip log = log"
    using assms(2) by (auto simp: sip_def intro!: map_idI split: option.split)
  then have wt: "ur_wait sip_ring (ur_submit sip_ring (ns, log @ [(i, bs, None)], True)) = (0, ?cq, ?k1)"
    by (simp add: sip_ring_def sip_def sip_entry_def)
  have seen: "ur_seen sip_ring cq k = (fst k, fst (snd k), False)" for cq k
    by (cases k) (simp add: sip_ring_def)
  have "drop ?n bs = drop 3 bs" by (simp add: min_def)
  with c d have te: "take_entry sip_ring sip_note ?cq (Waiting i d c, ?k1) =
      goes_on sip_ring sip_note (ring_write 7 None (drop 3 bs) (m + ?n)) (Suc i)
        (ns @ [Inr (Some (RSize ?n))], log @ [(i, bs, Some ?n)], False)"
    by (simp add: take_entry_def seen sip_note_def deliver_result_def deliver_value_def u_value_succeed)
  obtain ph k2 where k2: "goes_on sip_ring sip_note (ring_write 7 None (drop 3 bs) (m + ?n)) (Suc i)
        (ns @ [Inr (Some (RSize ?n))], log @ [(i, bs, Some ?n)], False) = (ph, k2)" by (meson surj_pair)
  have "ur_peek sip_ring k2 = (None, k2)"
  proof (cases "drop 3 bs = []")
    case True
    with k2 show ?thesis by (auto simp: ring_write.simps sip_ring_def sip_entry_def)
  next
    case False
    from sip_goes_on [OF this, of "m + ?n" "Suc i" "ns @ [Inr (Some (RSize ?n))]" "log @ [(i, bs, Some ?n)]" False]
    obtain e where "k2 = (ns @ [Inr (Some (RSize ?n))], (log @ [(i, bs, Some ?n)]) @ [(e, drop 3 bs, None)], True)"
      unfolding k2 by blast
    then show ?thesis by (simp add: sip_ring_def sip_entry_def)
  qed
  from await_step [OF wt te [unfolded k2] this] show ?thesis by (simp only: g k2)
qed

theorem uring_write_all_prefix_witness:
  "\<exists>w'. uring_run_until sip_ring (ring_coroutine sip_ring sip_note fst (ring_write 7 None [1, 2, 3, 4, 5] 0)) 0
        (bare_uring ([], [], False)) = Some (Inr (), w') \<and>
      ring_returned fst (ring_write 7 None [1, 2, 3, 4, 5] 0) w' = Some (Inr 5) \<and>
      gone_out (fst (snd (u_kern w'))) = [1, 2, 3, 4, 5]"
proof -
  let ?p = "ring_write 7 None [1, 2, 3, 4, 5] 0"
  let ?k = "([], [], False) :: sips"
  have new: "new_uring_warden sip_ring 4 0 ?k = Inr (bare_uring ?k)"
    by (simp add: new_uring_warden_def sip_ring_def bare_uring_def)
  let ?k2 = "([Inr (Some (RSize 3)), Inr (Some (RSize 2))], [(0, [1, 2, 3, 4, 5], Some 3), (Suc 0, [4, 5], Some 2)],
    False) :: sips"
  have "await_entries sip_ring sip_note (goes_on sip_ring sip_note ?p 0 ?k) =
      await_entries sip_ring sip_note (goes_on sip_ring sip_note (ring_write 7 None [] 5) 2 ?k2)"
    by (simp add: sip_write_step eval_nat_numeral)
  also have "\<dots> = Some (Inr (Inr 5), ?k2)" by (simp add: ring_write.simps await_entries.simps)
  finally have ring: "ring_run sip_ring sip_note ?p ?k = Some (Inr (Inr 5), ?k2)" by (simp add: ring_run_def)
  have t: "tracks fst ?p (goes_on sip_ring sip_note ?p 0 ?k)
      (uring_resume sip_ring (ring_coroutine sip_ring sip_note fst ?p) (Coro 0) (bare_uring ?k))"
    using start_tracks [OF new sip_ring_keeps_frame, of ?p] by (simp add: bare_uring_def)
  obtain r w' where run: "uring_run_until sip_ring (ring_coroutine sip_ring sip_note fst ?p) 0 (bare_uring ?k) = Some (r, w')"
    using awaited_run [OF ring [unfolded ring_run_def] sip_ring_keeps_frame] t
    by (fastforce simp: uring_run_until_def bare_uring_def)
  from run_awaited [OF run [unfolded uring_run_until_def] sip_ring_keeps_frame refl t] ring
  have r: "r = Inr ()" "ring_returned fst ?p w' = Some (Inr 5)"
    by (auto simp: ring_run_def split: sum.splits)
  from uring_write_all_prefix [OF new sip_ring_keeps_frame _ sip_ring_takes _ run] r
  have "gone_out (fst (snd (u_kern w'))) = [1, 2, 3, 4, 5]" by (auto simp: bare_uring_def)
  with run r show ?thesis by blast
qed

end
