(* ===== verification/TaskRefinement.thy ===== *)
theory TaskRefinement
  imports Tasks PollTimeouts
begin

unbundle bit_operations_syntax

text \<open>
  The task model refines to the event loop. In \<open>Tasks\<close> a coroutine that awaits an IOP is a
  function of the kernel state, with a parameter for what happens while it is parked. Here that
  parameter is computed: \<open>poll_wait\<close> is what the loop of the poll warden does to the kernel
  between two attempts of the one IOP that waits. A coroutine that awaits IOPs one after the other is
  a value of type \<open>steps\<close>; a run of \<open>run_until\<close> with it has the outcome \<open>run_steps\<close> gives it.
  This holds for the IOPs that wait for one descriptor, whether they are tried at once (reading,
  writing, accepting), make a call of their own first (connecting, without a deadline: with one
  the time out is put in again at every follow-up), or only wait (readiness). The descriptor is the
  same throughout, since the map keeps an entry of every descriptor it has seen in the poll set.
\<close>

subsection \<open>The specification\<close>

fun can_block :: "iop_kind \<Rightarrow> bool" where
  "can_block (ReadSome f n) = True"
| "can_block (WriteSome f bs) = True"
| "can_block (Accept f) = True"
| "can_block _ = False"

fun loop_kind :: "iop_kind \<Rightarrow> ns option \<Rightarrow> bool" where
  "loop_kind (Connect f a) dl \<longleftrightarrow> dl = None"
| "loop_kind (ReadReady f) dl = True"
| "loop_kind (WriteReady f) dl = True"
| "loop_kind kd dl = can_block kd"

fun waits_on :: "iop_kind \<Rightarrow> fd" where
  "waits_on (ReadSome f n) = f"
| "waits_on (WriteSome f bs) = f"
| "waits_on (Accept f) = f"
| "waits_on (Connect f a) = f"
| "waits_on (ReadReady f) = f"
| "waits_on (WriteReady f) = f"
| "waits_on _ = -1"

definition wanted :: "cid \<Rightarrow> iop_kind \<Rightarrow> request" where
  "wanted i kd = (if read_side kd \<noteq> None then \<lparr>reads = [i], writes = []\<rparr> else \<lparr>reads = [], writes = [i]\<rparr>)"

definition wakes :: "iop_kind \<Rightarrow> 16 word \<Rightarrow> bool" where
  "wakes kd revs \<longleftrightarrow>
     (if read_side kd \<noteq> None then has_flag revs (POLLIN OR POLLHUP OR POLLERR OR POLLNVAL)
      else has_flag revs (POLLOUT OR POLLERR OR POLLNVAL))"

datatype round = TimedOut | PollFails exn | Again | Ready

text \<open>One pass of the loop, as the kernel sees it: the clock, then \<open>poll\<close>.\<close>

definition poll_round ::
  "'k posix_os \<Rightarrow> fd \<Rightarrow> iop_kind \<Rightarrow> int \<Rightarrow> 'k \<Rightarrow> (round \<times> 'k) option" where
  "poll_round os rfd kd t k =
     (let (pr, rv, k2) = os_poll os
        [\<lparr>pfd = rfd, events = POLLIN, revents = 0\<rparr>,
         \<lparr>pfd = waits_on kd, events = req_flags (wanted 0 kd), revents = 0\<rparr>] t k
      in if pr < 0 then
           (if get_error os k2 = EINTR then Some (Again, k2)
            else Some (PollFails (SystemError (get_error os k2) ''poll''), k2))
         else if pr = 0 then Some (Again, k2)
         else
           (case (if has_flag (rv 0) POLLIN then drain os rfd k2 else Some k2) of
              None \<Rightarrow> None
            | Some k3 \<Rightarrow> Some (if wakes kd (rv 1) then Ready else Again, k3)))"

definition wait_round ::
  "'k posix_os \<Rightarrow> fd \<Rightarrow> iop_kind \<Rightarrow> ns option \<Rightarrow> 'k \<Rightarrow> (round \<times> 'k) option" where
  "wait_round os rfd kd dl k =
     (case dl of
        None \<Rightarrow> poll_round os rfd kd (-1) k
      | Some d \<Rightarrow>
          (let (now, k1) = os_now os k
           in if d - now < 1000000 then Some (TimedOut, k1)
              else poll_round os rfd kd (poll_timeout (d - now)) k1))"

partial_function (option) poll_wait :: "'k posix_os \<Rightarrow> fd \<Rightarrow> iop_kind \<Rightarrow> ns option \<Rightarrow> 'k park" where
  "poll_wait os rfd kd dl k =
     (case wait_round os rfd kd dl k of
        None \<Rightarrow> None
      | Some (TimedOut, k1) \<Rightarrow> Some (None, k1)
      | Some (PollFails e, k1) \<Rightarrow> None
      | Some (Again, k1) \<Rightarrow> poll_wait os rfd kd dl k1
      | Some (Ready, k1) \<Rightarrow> Some (Some (), k1))"

text \<open>
  The call that comes first: the attempt itself, the initial \<open>connect\<close>, or none. \<open>await_any\<close> is
  \<open>co_await\<close> of any of these IOPs.
\<close>

definition first_call ::
  "'k posix_os \<Rightarrow> iop_kind \<Rightarrow> ns option \<Rightarrow> 'k \<Rightarrow> completion option \<times> 'k" where
  "first_call os kd dl k =
     (case kd of
        Connect f a \<Rightarrow>
          (let (h, w) = connect_await_suspend os f a 0 (fresh_completion kd dl) (Coro 0) (start_warden k)
           in (if h = NoopCoro then None else heap w 0, kern w))
      | ReadReady f \<Rightarrow> (None, k)
      | WriteReady f \<Rightarrow> (None, k)
      | _ \<Rightarrow> attempt os kd dl k)"

definition await_any ::
  "'k posix_os \<Rightarrow> 'k park \<Rightarrow> iop_kind \<Rightarrow> ns option \<Rightarrow> 'k \<Rightarrow> (completion \<times> 'k) option" where
  "await_any os park kd dl k =
     (case first_call os kd dl k of
        (Some x, k1) \<Rightarrow> Some (x, k1)
      | (None, k1) \<Rightarrow>
          (case park k1 of
             None \<Rightarrow> None
           | Some (None, k2) \<Rightarrow> Some (fail ETIME ''IOP timed out'' (fresh_completion kd dl), k2)
           | Some (Some u, k2) \<Rightarrow> await_iop os park kd dl k2))"

lemma await_any_blocking: "can_block kd \<Longrightarrow> await_any os park kd dl = await_iop os park kd dl"
  by (cases kd) (simp_all add: fun_eq_iff await_any_def first_call_def await_iop.simps)

subsection \<open>The application\<close>

text \<open>
  A coroutine that awaits IOPs one after the other: what it does next depends on the completion it
  gets back. \<open>run_steps\<close> is what it does according to the task model.
\<close>

datatype 'a steps = Return 'a | AwaitIop iop_kind "ns option" "completion \<Rightarrow> 'a steps"

primrec run_steps :: "'k posix_os \<Rightarrow> fd \<Rightarrow> 'a steps \<Rightarrow> 'k \<Rightarrow> ('a \<times> 'k) option" where
  "run_steps os rfd (Return a) k = Some (a, k)"
| "run_steps os rfd (AwaitIop kd dl c) k =
     (case await_any os (poll_wait os rfd kd dl) kd dl k of
        None \<Rightarrow> None
      | Some (x, k1) \<Rightarrow> run_steps os rfd (c x) k1)"

text \<open>The IOPs are of a kind covered here, and all wait for one descriptor.\<close>

primrec steps_on :: "fd \<Rightarrow> 'a steps \<Rightarrow> bool" where
  "steps_on f (Return a) = True"
| "steps_on f (AwaitIop kd dl c) = (loop_kind kd dl \<and> waits_on kd = f \<and> (\<forall>x. steps_on f (c x)))"

text \<open>
  The same coroutine in the event loop. It keeps its IOPs until it finishes: their completions are at
  the addresses in the order of their making, and where the coroutine has got to is read off them.
\<close>

primrec steps_left :: "'a steps \<Rightarrow> (cid \<Rightarrow> completion option) \<Rightarrow> cid \<Rightarrow> cid \<Rightarrow> 'a steps" where
  "steps_left (Return a) hp j i = Return a"
| "steps_left (AwaitIop kd dl c) hp j i =
     (if j < i then steps_left (c (the (hp j))) hp (Suc j) i else AwaitIop kd dl c)"

primrec calls_of :: "'k posix_os \<Rightarrow> nat \<Rightarrow> 'a steps \<Rightarrow> cid \<Rightarrow> 'k poll_warden \<Rightarrow> 'k act list" where
  "calls_of os h (Return a) i w = [Finish h]"
| "calls_of os h (AwaitIop kd dl c) i w =
     (let (h1, w1) = await_suspend os i (Coro h) (snd (new_iop os kd dl w))
      in [NewIop kd dl, Await i h] @
         (if h1 = Coro h then calls_of os h (c (the (heap w1 i))) (Suc i) w1 else []))"

definition coroutine :: "'k posix_os \<Rightarrow> 'a steps \<Rightarrow> 'k user" where
  "coroutine os p h w = calls_of os h (steps_left p (heap w) 0 (next_cid w)) (next_cid w) w"

definition returned :: "'a steps \<Rightarrow> 'k poll_warden \<Rightarrow> 'a option" where
  "returned p w = (case steps_left p (heap w) 0 (next_cid w) of Return a \<Rightarrow> Some a | _ \<Rightarrow> None)"

lemma steps_left_none: "steps_left q hp i i = q"
  by (cases q) simp_all

lemma steps_left_next:
  "steps_left p hp j i = AwaitIop kd dl c \<Longrightarrow> j \<le> i \<Longrightarrow> steps_left p (hp(i \<mapsto> x)) j (Suc i) = c x"
  by (induction p arbitrary: j) (auto simp: steps_left_none split: if_splits)

lemma steps_left_done:
  "steps_left p hp j i = Return a \<Longrightarrow> j \<le> i \<Longrightarrow> i \<le> i' \<Longrightarrow> (\<And>n. n < i \<Longrightarrow> hp' n = hp n) \<Longrightarrow>
   steps_left p hp' j i' = Return a"
  by (induction p arbitrary: j) (auto split: if_splits)

subsection \<open>The states of such a run\<close>

text \<open>The coroutine waits for its IOP number \<open>i\<close>, has finished, or is running with \<open>i\<close> IOPs made.\<close>

definition parked ::
  "fd \<Rightarrow> iop_kind \<Rightarrow> ns option \<Rightarrow> (cid \<Rightarrow> completion option) \<Rightarrow> cid \<Rightarrow> 'k \<Rightarrow> 'k poll_warden \<Rightarrow> bool" where
  "parked rfd kd dl hp i k w \<longleftrightarrow>
     requests w = [(waits_on kd, wanted i kd)] \<and>
     timeouts w = (case dl of None \<Rightarrow> [] | Some d \<Rightarrow> [(d, i)]) \<and>
     wakeup_read w = rfd \<and> resumer w = no_requests \<and>
     heap w = hp(i \<mapsto> fresh_completion kd dl) \<and> next_cid w = Suc i \<and> finished w = [] \<and> kern w = k"

definition ended :: "(cid \<Rightarrow> completion option) \<Rightarrow> cid \<Rightarrow> 'k \<Rightarrow> 'k poll_warden \<Rightarrow> bool" where
  "ended hp i k w \<longleftrightarrow>
     heap w = hp \<and> next_cid w = i \<and> kern w = k \<and> finished w = [0] \<and> timeouts w = [] \<and>
     resumer w = no_requests"

definition running ::
  "fd \<Rightarrow> fd \<Rightarrow> (cid \<Rightarrow> completion option) \<Rightarrow> cid \<Rightarrow> 'k \<Rightarrow> 'k poll_warden \<Rightarrow> bool" where
  "running rfd f hp i k w \<longleftrightarrow>
     (requests w = [] \<or> requests w = [(f, no_request)]) \<and> timeouts w = [] \<and> wakeup_read w = rfd \<and>
     resumer w = no_requests \<and> heap w = hp \<and> next_cid w = i \<and> finished w = [] \<and> kern w = k"

text \<open>Where the coroutine is when it has run on from a point of its program.\<close>

primrec got_to ::
  "'k posix_os \<Rightarrow> fd \<Rightarrow> 'a steps \<Rightarrow> (cid \<Rightarrow> completion option) \<Rightarrow> cid \<Rightarrow> 'k \<Rightarrow> 'k poll_warden \<Rightarrow> bool" where
  "got_to os rfd (Return a) hp i k w = ended hp i k w"
| "got_to os rfd (AwaitIop kd dl c) hp i k w =
     (case first_call os kd dl k of
        (None, k1) \<Rightarrow> parked rfd kd dl hp i k1 w
      | (Some x, k1) \<Rightarrow> got_to os rfd (c x) (hp(i \<mapsto> x)) (Suc i) k1 w)"

lemma got_to_loop_data:
  "got_to os rfd q hp i k (w\<lparr>to_visit := cs\<rparr>) = got_to os rfd q hp i k w"
  by (induction q arbitrary: hp i k) (auto simp: ended_def parked_def split: prod.splits option.splits)

lemma got_to_resumer: "got_to os rfd q hp i k w \<Longrightarrow> resumer w = no_requests"
  by (induction q arbitrary: hp i k)
    (simp_all add: ended_def parked_def split: prod.splits option.splits, blast)

definition push_wait :: "cid \<Rightarrow> iop_kind \<Rightarrow> 'k poll_warden \<Rightarrow> 'k poll_warden" where
  "push_wait i kd w =
     (if read_side kd \<noteq> None then push_read (waits_on kd) i w else push_write (waits_on kd) i w)"

lemma try_attempt:
  assumes "loop_kind kd dl" "heap w i = Some (fresh_completion kd dl)"
  shows "try_or_resume_obj os i (fresh_completion kd dl) w =
    (case attempt os kd dl (kern w) of
       (None, k1) \<Rightarrow> (NoopCoro, push_wait i kd (w\<lparr>kern := k1\<rparr>))
     | (Some x, k1) \<Rightarrow> (Coro 0, cancel_timeout i x (store i x (w\<lparr>kern := k1\<rparr>))))"
proof -
  have same: "store i (fresh_completion kd dl) (w\<lparr>kern := k\<rparr>) = w\<lparr>kern := k\<rparr>" for k
    using assms(2) by (simp add: store_def fun_upd_idem)
  show ?thesis
  proof (cases "can_block kd")
    case True
    then show ?thesis
      by (cases kd)
        (auto simp: attempt_def fresh_completion_def try_or_resume_obj_def read_some_try_or_resume_def
          write_some_try_or_resume_def accept_try_or_resume_def cancel_timeout_then_resume_def
          succeed_def fail_def get_error_def store_def cancel_timeout_def start_warden_def
          push_wait_def push_read_def push_write_def req_upd_def Let_def split: prod.splits option.splits)
  next
    case False
    with assms(1) consider (connect) f a where "kd = Connect f a" "dl = None"
      | (ready) f where "kd = ReadReady f \<or> kd = WriteReady f"
      by (cases kd) auto
    then show ?thesis
    proof cases
      case connect
      obtain r e k1 where so: "os_so_error os f (kern w) = (r, e, k1)" by (cases "os_so_error os f (kern w)")
      with connect same [of k1] show ?thesis
        by (simp add: attempt_def fresh_completion_def try_or_resume_obj_def connect_try_or_resume_def
            cancel_timeout_then_resume_def fail_def get_error_def store_def cancel_timeout_def
            start_warden_def push_wait_def push_write_def req_upd_def insert_timeout_def Let_def)
    next
      case ready
      with same [of "kern w"] show ?thesis
        by (auto simp: attempt_def fresh_completion_def try_or_resume_obj_def
            cancel_timeout_then_resume_def store_def cancel_timeout_def start_warden_def Let_def
            split: option.split)
    qed
  qed
qed

lemma attempt_deadline:
  "attempt os kd dl k = (Some x, k1) \<Longrightarrow> loop_kind kd dl \<Longrightarrow> deadline x = dl"
  by (cases kd)
    (auto simp: attempt_def fresh_completion_def try_or_resume_obj_def read_some_try_or_resume_def
      write_some_try_or_resume_def accept_try_or_resume_def connect_try_or_resume_def
      cancel_timeout_then_resume_def
      succeed_def fail_def get_error_def store_def cancel_timeout_def start_warden_def
      push_read_def push_write_def req_upd_def Let_def split: prod.splits option.splits if_splits)

lemma req_flags_wanted: "req_flags (wanted i kd) = req_flags (wanted 0 kd)"
  by (simp add: wanted_def req_flags_def)

subsection \<open>Running on\<close>

text \<open>The first call of an IOP and what it leaves.\<close>

lemma new_iop_stored:
  "loop_kind kd dl \<Longrightarrow>
   snd (new_iop os kd dl w) =
     store (next_cid w) ((fresh_completion kd dl)\<lparr>handle := NullCoro\<rparr>) (w\<lparr>next_cid := Suc (next_cid w)\<rparr>)"
  by (cases kd) (simp_all add: do_read_some_def do_write_some_def do_accept_def do_connect_def
      do_read_ready_def do_write_ready_def new_completion_def store_def fresh_completion_def Let_def)

lemma await_first:
  assumes "can_block kd"
  shows "await_suspend os (next_cid w) (Coro 0) (snd (new_iop os kd dl w)) =
    (let i = next_cid w; x = fresh_completion kd dl
     in try_or_resume_obj os i x (insert_timeout i x (store i x (w\<lparr>next_cid := Suc i\<rparr>))))"
  using assms
  by (cases kd)
    (auto simp: do_read_some_def do_write_some_def do_accept_def new_completion_def store_def
      await_suspend_def completion_await_suspend_def fresh_completion_def Let_def)

lemma start_iop:
  assumes r: "running rfd (waits_on kd) hp i k w" and kd: "loop_kind kd dl"
    and hv: "await_suspend os i (Coro 0) (snd (new_iop os kd dl w)) = (h, v)"
  shows "case first_call os kd dl k of
      (None, k1) \<Rightarrow> h = NoopCoro \<and> parked rfd kd dl hp i k1 v
    | (Some x, k1) \<Rightarrow> h = Coro 0 \<and> running rfd (waits_on kd) (hp(i \<mapsto> x)) (Suc i) k1 v"
proof -
  have w: "requests w = [] \<or> requests w = [(waits_on kd, no_request)]" "timeouts w = []"
      "resumer w = no_requests" "next_cid w = i" "finished w = []" "heap w = hp" "kern w = k"
      "wakeup_read w = rfd"
    using r by (simp_all add: running_def)
  let ?x = "fresh_completion kd dl"
  show ?thesis
  proof (cases "can_block kd")
    case True
    let ?v = "insert_timeout i ?x (store i ?x (w\<lparr>next_cid := Suc i\<rparr>))"
    have v: "kern ?v = k" "requests ?v = requests w" "resumer ?v = no_requests" "next_cid ?v = Suc i"
        "finished ?v = []" "wakeup_read ?v = rfd" "heap ?v = hp(i \<mapsto> ?x)"
        "timeouts ?v = (case dl of None \<Rightarrow> [] | Some d \<Rightarrow> [(d, i)])" "heap ?v i = Some ?x"
      using w by (auto simp: insert_timeout_def store_def fresh_completion_def split: option.splits)
    obtain a k1 where a: "attempt os kd dl k = (a, k1)" by (cases "attempt os kd dl k")
    have first: "first_call os kd dl k = (a, k1)"
      using True a by (cases kd) (simp_all add: first_call_def)
    have tried: "try_or_resume_obj os i ?x ?v = (h, v)"
      using hv await_first [OF True, of os w dl] w(4) by (simp add: Let_def)
    show ?thesis
    proof (cases a)
      case None
      then have "h = NoopCoro" "v = push_wait i kd (?v\<lparr>kern := k1\<rparr>)"
        using tried try_attempt [OF kd v(9), of os] a v(1) by simp_all
      then show ?thesis
        using v w(1) None True first
        by (cases kd) (auto simp: parked_def push_wait_def push_read_def push_write_def
            req_upd_def req_at_def no_request_def wanted_def)
    next
      case (Some x)
      then have "h = Coro 0" "v = cancel_timeout i x (store i x (?v\<lparr>kern := k1\<rparr>))"
        using tried try_attempt [OF kd v(9), of os] a v(1) by simp_all
      then show ?thesis
        using v w Some first attempt_deadline [OF _ kd, of os k x k1] a
        by (auto simp: running_def cancel_timeout_def store_def split: option.splits)
    qed
  next
    case False
    with kd consider (connect) f a where "kd = Connect f a" "dl = None"
      | (rready) f where "kd = ReadReady f" | (wready) f where "kd = WriteReady f"
      by (cases kd) auto
    then show ?thesis
    proof cases
      case connect
      obtain r k1 where c: "os_connect os f a k = (r, k1)" by (cases "os_connect os f a k")
      show ?thesis
        using connect c hv w new_iop_stored [OF kd, of os w]
        by (auto simp: await_suspend_def connect_await_suspend_def store_def insert_timeout_def
            push_write_def req_upd_def req_at_def no_request_def wanted_def fresh_completion_def
            first_call_def start_warden_def parked_def running_def fail_def Let_def split: if_splits)
    next
      case rready
      then show ?thesis
        using hv w new_iop_stored [OF kd, of os w]
        by (auto simp: await_suspend_def read_ready_await_suspend_def store_def insert_timeout_def
            push_read_def req_upd_def req_at_def no_request_def wanted_def fresh_completion_def
            first_call_def parked_def Let_def split: option.splits)
    next
      case wready
      then show ?thesis
        using hv w new_iop_stored [OF kd, of os w]
        by (auto simp: await_suspend_def write_ready_await_suspend_def store_def insert_timeout_def
            push_write_def req_upd_def req_at_def no_request_def wanted_def fresh_completion_def
            first_call_def parked_def Let_def split: option.splits)
    qed
  qed
qed

lemma calls_run:
  "running rfd f hp i k w \<Longrightarrow> steps_on f q \<Longrightarrow>
   got_to os rfd q hp i k (fold (exec os) (calls_of os 0 q i w) w)"
proof (induction q arbitrary: hp i k w)
  case (Return a)
  then show ?case by (simp add: running_def ended_def)
next
  case (AwaitIop kd dl c)
  obtain h v where hv: "await_suspend os i (Coro 0) (snd (new_iop os kd dl w)) = (h, v)"
    by (cases "await_suspend os i (Coro 0) (snd (new_iop os kd dl w))")
  obtain a k1 where a: "first_call os kd dl k = (a, k1)" by (cases "first_call os kd dl k")
  from AwaitIop.prems have kd: "loop_kind kd dl" and r: "running rfd (waits_on kd) hp i k w"
      and c: "steps_on f (c x)" and f: "waits_on kd = f" for x
    by auto
  note start = start_iop [OF r kd hv]
  show ?case
  proof (cases a)
    case None
    with start a hv show ?thesis by simp
  next
    case (Some x)
    with start a have h: "h = Coro 0" and v: "running rfd f (hp(i \<mapsto> x)) (Suc i) k1 v" by (auto simp: f)
    have "heap v i = Some x" using v by (simp add: running_def)
    with AwaitIop.IH [OF _ v c, of x] h hv a Some show ?thesis by (simp add: fun_upd_def)
  qed
qed

lemma resume_coroutine:
  assumes "steps_left p hp 0 i = q" "running rfd f hp i k w" "steps_on f q"
  shows "got_to os rfd q hp i k (resume os (coroutine os p) (Coro 0) w)"
  using calls_run [OF assms(2,3), of os] assms(1,2) by (simp add: coroutine_def running_def)

subsection \<open>One pass of the loop\<close>

text \<open>The state after one more attempt.\<close>

definition after_attempt ::
  "'k posix_os \<Rightarrow> fd \<Rightarrow> iop_kind \<Rightarrow> ns option \<Rightarrow> (completion \<Rightarrow> 'a steps) \<Rightarrow>
   (cid \<Rightarrow> completion option) \<Rightarrow> cid \<Rightarrow> 'k \<Rightarrow> 'k poll_warden \<Rightarrow> bool" where
  "after_attempt os rfd kd dl c hp i k w \<longleftrightarrow>
     (case attempt os kd dl k of
        (None, k1) \<Rightarrow> parked rfd kd dl hp i k1 w
      | (Some x, k1) \<Rightarrow> got_to os rfd (c x) (hp(i \<mapsto> x)) (Suc i) k1 w)"

lemma after_attempt_resumer: "after_attempt os rfd kd dl c hp i k w \<Longrightarrow> resumer w = no_requests"
  by (auto simp: after_attempt_def parked_def split: prod.splits option.splits dest: got_to_resumer)

definition loop_body ::
  "('k poll_warden \<Rightarrow> ((exn + unit) \<times> 'k poll_warden) option) \<Rightarrow> 'k posix_os \<Rightarrow> 'k user \<Rightarrow>
   'k poll_warden \<Rightarrow> ((exn + unit) \<times> 'k poll_warden) option" where
  "loop_body again os user w =
     (case clear_timeouts os user w of
        None \<Rightarrow> None
      | Some tw \<Rightarrow>
          (if 0 \<in> set (finished (snd tw)) then Some (Inr (), snd tw)
           else (case do_poll os user (fst tw) (snd tw) of
                   None \<Rightarrow> None
                 | Some rw \<Rightarrow>
                     (case fst rw of
                        Inl e \<Rightarrow> Some (Inl e, snd rw)
                      | Inr u \<Rightarrow> again (resume_queued os user (snd rw))))))"

lemma run_loop_body: "run_loop os user 0 w = loop_body (run_loop os user 0) os user w"
  by (subst run_loop.simps) (simp add: loop_body_def)

text \<open>An IOP is parked at a point of the program.\<close>

definition parked_at ::
  "'a steps \<Rightarrow> fd \<Rightarrow> iop_kind \<Rightarrow> ns option \<Rightarrow> (completion \<Rightarrow> 'a steps) \<Rightarrow>
   (cid \<Rightarrow> completion option) \<Rightarrow> cid \<Rightarrow> 'k \<Rightarrow> 'k poll_warden \<Rightarrow> bool" where
  "parked_at p rfd kd dl c hp i k w \<longleftrightarrow>
     parked rfd kd dl hp i k w \<and> steps_left p hp 0 i = AwaitIop kd dl c \<and> waits_on kd \<noteq> rfd \<and>
     steps_on (waits_on kd) (AwaitIop kd dl c)"

lemma parked_atD:
  assumes "parked_at p rfd kd dl c hp i k w"
  shows "parked rfd kd dl hp i k w" "loop_kind kd dl" "waits_on kd \<noteq> rfd"
    "steps_left p (hp(i \<mapsto> x)) 0 (Suc i) = c x" "steps_on (waits_on kd) (c x)"
  using assms by (auto simp: parked_at_def intro: steps_left_next)

text \<open>What a parked coroutine does when its IOP has completed.\<close>

lemma resume_parked:
  assumes p: "parked_at p rfd kd dl c hp i k w"
    and v: "running rfd (waits_on kd) (hp(i \<mapsto> x)) (Suc i) k1 v"
  shows "got_to os rfd (c x) (hp(i \<mapsto> x)) (Suc i) k1 (resume os (coroutine os p) (Coro 0) v)"
  by (rule resume_coroutine [OF _ v]) (use parked_atD [OF p] in simp_all)

definition round_result ::
  "('k poll_warden \<Rightarrow> ((exn + unit) \<times> 'k poll_warden) option) \<Rightarrow> 'k posix_os \<Rightarrow> 'a steps \<Rightarrow> fd \<Rightarrow>
   iop_kind \<Rightarrow> ns option \<Rightarrow> (completion \<Rightarrow> 'a steps) \<Rightarrow> (cid \<Rightarrow> completion option) \<Rightarrow> cid \<Rightarrow> 'k \<Rightarrow>
   ((exn + unit) \<times> 'k poll_warden) option \<Rightarrow> bool" where
  "round_result again os p rfd kd dl c hp i k r \<longleftrightarrow>
     (case wait_round os rfd kd dl k of
        None \<Rightarrow> r = None
      | Some (TimedOut, k1) \<Rightarrow>
          let x = fail ETIME ''IOP timed out'' (fresh_completion kd dl)
          in \<exists>w'. got_to os rfd (c x) (hp(i \<mapsto> x)) (Suc i) k1 w' \<and>
               r = loop_body again os (coroutine os p) w'
      | Some (PollFails e, k1) \<Rightarrow> \<exists>w'. r = Some (Inl e, w')
      | Some (Again, k1) \<Rightarrow> \<exists>w'. parked rfd kd dl hp i k1 w' \<and> r = again w'
      | Some (Ready, k1) \<Rightarrow> \<exists>w'. after_attempt os rfd kd dl c hp i k1 w' \<and> r = again w')"

lemma ended_loop: "ended hp i k w \<Longrightarrow> loop_body again os user w = Some (Inr (), w)"
  by (simp add: loop_body_def ended_def clear_timeouts_unfold)

lemma resume_queued_none: "resumer w = no_requests \<Longrightarrow> resume_queued os user w = w"
  by (simp add: resume_queued_def resume_all_def swap_queues_def no_requests_def)

lemma iop_timedout_parked:
  assumes "heap w i = Some (fresh_completion kd dl)" "loop_kind kd dl"
  shows "iop_timedout i w =
    (Coro 0, store i (fail ETIME ''IOP timed out'' (fresh_completion kd dl)) (cancel_iop i kd w))"
  using assms by (cases kd) (simp_all add: iop_timedout_def, simp_all add: fresh_completion_def)

lemma cancel_iop_fields:
  "kern (cancel_iop c kd w) = kern w" "finished (cancel_iop c kd w) = finished w"
  "timeouts (cancel_iop c kd w) = timeouts w" "resumer (cancel_iop c kd w) = resumer w"
  "next_cid (cancel_iop c kd w) = next_cid w" "heap (cancel_iop c kd w) = heap w"
  "wakeup_read (cancel_iop c kd w) = wakeup_read w"
  by (cases kd; simp add: erase_read_def erase_write_def req_upd_def)+

lemma cancel_iop_parked:
  "requests w = [(waits_on kd, wanted i kd)] \<Longrightarrow> loop_kind kd dl \<Longrightarrow>
   requests (cancel_iop i kd w) = [(waits_on kd, no_request)]"
  by (cases kd) (simp_all add: erase_read_def erase_write_def req_upd_def req_at_def wanted_def no_request_def)

lemma fire_parked:
  assumes p: "parked_at p rfd kd dl c hp i k w" and v: "v = w\<lparr>kern := k1, timeouts := []\<rparr>"
  shows "let x = fail ETIME ''IOP timed out'' (fresh_completion kd dl)
    in got_to os rfd (c x) (hp(i \<mapsto> x)) (Suc i) k1 (fire_timeout os (coroutine os p) i v)"
proof -
  note D = parked_atD [OF p]
  let ?x = "fail ETIME ''IOP timed out'' (fresh_completion kd dl)"
  let ?v = "store i ?x (cancel_iop i kd v)"
  have "heap v i = Some (fresh_completion kd dl)" "requests v = [(waits_on kd, wanted i kd)]"
    using D(1) v by (simp_all add: parked_def)
  then have "iop_timedout i v = (Coro 0, ?v)" "requests ?v = [(waits_on kd, no_request)]"
    using iop_timedout_parked [OF _ D(2)] cancel_iop_parked [OF _ D(2)] by (simp_all add: store_def)
  moreover from this have "running rfd (waits_on kd) (hp(i \<mapsto> ?x)) (Suc i) k1 ?v"
    using D(1) v by (simp add: running_def parked_def store_def cancel_iop_fields)
  ultimately show ?thesis
    using resume_parked [OF p] by (simp add: fire_timeout_def Let_def del: resume.simps)
qed

lemma clear_timeouts_parked:
  assumes p: "parked_at p rfd kd dl c hp i k w"
  shows "case dl of
      None \<Rightarrow> clear_timeouts os (coroutine os p) w = Some (-1, w)
    | Some d \<Rightarrow>
        (let (now, k0) = os_now os k; x = fail ETIME ''IOP timed out'' (fresh_completion kd dl)
         in if d - now < 1000000
            then \<exists>w'. got_to os rfd (c x) (hp(i \<mapsto> x)) (Suc i) k0 w' \<and>
              clear_timeouts os (coroutine os p) w = clear_timeouts os (coroutine os p) w'
            else clear_timeouts os (coroutine os p) w = Some (poll_timeout (d - now), w\<lparr>kern := k0\<rparr>))"
proof (cases dl)
  case None
  with parked_atD(1) [OF p] show ?thesis by (simp add: parked_def clear_timeouts_unfold)
next
  case (Some d)
  obtain now k0 where now: "os_now os k = (now, k0)" by (cases "os_now os k")
  let ?v = "w\<lparr>kern := k0, timeouts := []\<rparr>"
  have "clear_timeouts os (coroutine os p) w =
      (if d - now < 1000000
       then clear_timeouts os (coroutine os p) (fire_timeout os (coroutine os p) i ?v)
       else Some (poll_timeout (d - now), w\<lparr>kern := k0\<rparr>))"
    by (subst clear_timeouts_unfold) (use parked_atD(1) [OF p] Some now in \<open>simp add: parked_def\<close>)
  with fire_parked [OF p refl, of os k0] Some now show ?thesis
    by (auto simp: Let_def split: if_split)
qed

lemma parked_kern: "parked_at p rfd kd dl c hp i k w \<Longrightarrow> parked_at p rfd kd dl c hp i k' (w\<lparr>kern := k'\<rparr>)"
  by (simp add: parked_at_def parked_def)

lemma parked_loop_data:
  "parked rfd kd dl hp i k (w\<lparr>iops := ps, continuations := cs\<rparr>) = parked rfd kd dl hp i k w"
  "parked rfd kd dl hp i k (w\<lparr>iops := ps\<rparr>) = parked rfd kd dl hp i k w"
  "parked rfd kd dl hp i k (w\<lparr>continuations := cs\<rparr>) = parked rfd kd dl hp i k w"
  "parked rfd kd dl hp i k (w\<lparr>to_visit := cs\<rparr>) = parked rfd kd dl hp i k w"
  by (simp_all add: parked_def)

text \<open>What the descriptor's entry of the poll result does to the request map.\<close>

lemma collect_wait:
  assumes p: "parked rfd kd dl hp i k w" and kd: "loop_kind kd dl" and f: "waits_on kd \<noteq> rfd"
    and c: "continuations w = []"
  shows "\<exists>w'. collect_one os \<lparr>pfd = waits_on kd, events = ev, revents = rv\<rparr> w = Some w' \<and>
    (if wakes kd rv
     then continuations w' = [i] \<and> requests w' = [(waits_on kd, no_request)] \<and>
       w' = w\<lparr>requests := requests w', continuations := [i]\<rparr>
     else continuations w' = [] \<and> parked rfd kd dl hp i k w')"
  using assms
  by (cases kd)
    (auto simp: parked_def collect_one_def wakes_def collect_reads_def collect_writes_def
      req_upd_def req_at_def wanted_def no_request_def Let_def)

lemma dispatch_wait:
  assumes p: "parked_at p rfd kd dl c hp i k0 w0"
    and w: "parked rfd kd dl hp i k (w\<lparr>requests := [(waits_on kd, wanted i kd)]\<rparr>)"
      "requests w = [(waits_on kd, no_request)]"
  shows "after_attempt os rfd kd dl c hp i k (dispatch os (coroutine os p) [i] w)"
proof -
  note kd = parked_atD(2) [OF p]
  have w': "timeouts w = (case dl of None \<Rightarrow> [] | Some d \<Rightarrow> [(d, i)])" "wakeup_read w = rfd"
      "resumer w = no_requests" "heap w = hp(i \<mapsto> fresh_completion kd dl)" "next_cid w = Suc i"
      "finished w = []" "kern w = k"
    using w(1) by (simp_all add: parked_def)
  obtain a k1 where a: "attempt os kd dl k = (a, k1)" by (cases "attempt os kd dl k")
  have h: "heap (w\<lparr>to_visit := []\<rparr>) i = Some (fresh_completion kd dl)" using w'(4) by simp
  note tried = try_attempt [OF kd h, of os]
  show ?thesis
  proof (cases a)
    case None
    then have "dispatch os (coroutine os p) [i] w =
        (push_wait i kd (w\<lparr>to_visit := [], kern := k1\<rparr>))\<lparr>to_visit := []\<rparr>"
      using tried a w' by (simp add: try_or_resume_def)
    then show ?thesis
      using a None w(2) w' kd
      by (cases kd) (auto simp: after_attempt_def parked_def push_wait_def push_read_def
          push_write_def req_upd_def req_at_def no_request_def wanted_def)
  next
    case (Some x)
    let ?v = "cancel_timeout i x (store i x (w\<lparr>to_visit := [], kern := k1\<rparr>))"
    have "running rfd (waits_on kd) (hp(i \<mapsto> x)) (Suc i) k1 ?v"
      using w(2) w' a Some attempt_deadline [OF _ kd, of os k x k1]
      by (auto simp: running_def cancel_timeout_def store_def split: option.splits)
    moreover have "dispatch os (coroutine os p) [i] w =
        (resume os (coroutine os p) (Coro 0) ?v)\<lparr>to_visit := []\<rparr>"
      using tried a w' Some by (simp add: try_or_resume_def del: resume.simps)
    ultimately show ?thesis
      using resume_parked [OF p] a Some by (simp add: after_attempt_def got_to_loop_data del: resume.simps)
  qed
qed

definition polled ::
  "'k posix_os \<Rightarrow> fd \<Rightarrow> iop_kind \<Rightarrow> ns option \<Rightarrow> (completion \<Rightarrow> 'a steps) \<Rightarrow>
   (cid \<Rightarrow> completion option) \<Rightarrow> cid \<Rightarrow> (round \<times> 'k) option
    \<Rightarrow> ((exn + unit) \<times> 'k poll_warden) option \<Rightarrow> bool" where
  "polled os rfd kd dl c hp i r q \<longleftrightarrow>
     (case r of
        None \<Rightarrow> q = None
      | Some (TimedOut, k1) \<Rightarrow> False
      | Some (PollFails e, k1) \<Rightarrow> \<exists>w'. q = Some (Inl e, w')
      | Some (Again, k1) \<Rightarrow> \<exists>w'. q = Some (Inr (), w') \<and> parked rfd kd dl hp i k1 w'
      | Some (Ready, k1) \<Rightarrow>
          \<exists>w'. q = Some (Inr (), w') \<and> after_attempt os rfd kd dl c hp i k1 w')"

lemma do_poll_parked:
  assumes p: "parked_at p rfd kd dl c hp i k w"
  shows "polled os rfd kd dl c hp i (poll_round os rfd kd t k) (do_poll os (coroutine os p) t w)"
proof -
  note D = parked_atD [OF p]
  let ?u = "coroutine os p"
  let ?p0 = "\<lambda>rv. \<lparr>pfd = rfd, events = POLLIN, revents = rv\<rparr>"
  let ?p1 = "\<lambda>rv. \<lparr>pfd = waits_on kd, events = req_flags (wanted 0 kd), revents = rv\<rparr>"
  have ps: "poll_set w = [?p0 0, ?p1 0]" and k: "kern w = k"
    using D(1) by (simp_all add: parked_def poll_set_def req_flags_wanted [of i])
  obtain pr rv k2 where pl: "os_poll os [?p0 0, ?p1 0] t k = (pr, rv, k2)"
    by (cases "os_poll os [?p0 0, ?p1 0] t k")
  let ?w1 = "w\<lparr>kern := k2, iops := [?p0 (rv 0), ?p1 (rv 1)]\<rparr>"
  have dp: "do_poll os ?u t w =
      (if pr < 0 then
         (if get_error os k2 = EINTR then Some (Inr (), ?w1)
          else Some (Inl (SystemError (get_error os k2) ''poll''), ?w1))
       else if pr > 0 then
         (case collect os [?p0 (rv 0), ?p1 (rv 1)] (?w1\<lparr>continuations := []\<rparr>) of
            None \<Rightarrow> None
          | Some w2 \<Rightarrow> Some (Inr (), dispatch os ?u (continuations w2) w2))
       else Some (Inr (), ?w1))"
    using pl k by (simp add: do_poll_def ps Let_def)
  have parked1: "parked rfd kd dl hp i k2 ?w1"
    using D(1) by (simp add: parked_def)
  show ?thesis
  proof (cases "pr > 0")
    case False
    then show ?thesis
      using pl dp parked1 by (auto simp: poll_round_def polled_def)
  next
    case True
    let ?d = "if has_flag (rv 0) POLLIN then drain os rfd k2 else Some k2"
    have c0: "collect_one os (?p0 (rv 0)) (?w1\<lparr>continuations := []\<rparr>) =
        map_option (\<lambda>k3. w\<lparr>iops := [?p0 (rv 0), ?p1 (rv 1)], kern := k3, continuations := []\<rparr>) ?d"
      using D(1) by (auto simp: parked_def collect_one_def drain_wakeup_def split: option.splits)
    show ?thesis
    proof (cases ?d)
      case None
      with True pl dp c0 show ?thesis by (simp add: poll_round_def polled_def)
    next
      case (Some k3)
      let ?w3 = "w\<lparr>iops := [?p0 (rv 0), ?p1 (rv 1)], kern := k3, continuations := []\<rparr>"
      have p3: "parked rfd kd dl hp i k3 ?w3" using D(1) by (simp add: parked_def)
      from collect_wait [OF p3 D(2,3)] obtain w4 where c1: "collect_one os (?p1 (rv 1)) ?w3 = Some w4"
        and w4: "if wakes kd (rv 1)
          then continuations w4 = [i] \<and> requests w4 = [(waits_on kd, no_request)] \<and>
            w4 = ?w3\<lparr>requests := requests w4, continuations := [i]\<rparr>
          else continuations w4 = [] \<and> parked rfd kd dl hp i k3 w4"
        by fastforce
      have dp': "do_poll os ?u t w = Some (Inr (), dispatch os ?u (continuations w4) w4)"
        using dp True c0 c1 Some by simp
      have pr': "poll_round os rfd kd t k = Some (if wakes kd (rv 1) then Ready else Again, k3)"
        using pl True Some by (simp add: poll_round_def)
      show ?thesis
      proof (cases "wakes kd (rv 1)")
        case True
        have "requests w4 = [(waits_on kd, no_request)] \<and> continuations w4 = [i] \<and>
            w4 = ?w3\<lparr>requests := requests w4, continuations := [i]\<rparr>"
          using w4 unfolding if_P [OF True] by blast
        then have "requests w4 = [(waits_on kd, no_request)]" "continuations w4 = [i]"
          and eq: "w4 = ?w3\<lparr>requests := requests w4, continuations := [i]\<rparr>"
          by (rule conjunct1, blast, blast)
        moreover have "parked rfd kd dl hp i k3 (w4\<lparr>requests := [(waits_on kd, wanted i kd)]\<rparr>)"
          using p3 by (subst eq) (simp add: parked_def)
        ultimately show ?thesis
          using dispatch_wait [OF p, of k3 w4 os] dp' pr' True by (simp add: polled_def)
      next
        case False
        with w4 dp' pr' show ?thesis by (simp add: polled_def parked_loop_data)
      qed
    qed
  qed
qed

lemma round_parked:
  assumes p: "parked_at p rfd kd dl c hp i k w"
  shows "round_result again os p rfd kd dl c hp i k (loop_body again os (coroutine os p) w)"
proof -
  let ?u = "coroutine os p"
  have k: "kern w = k" and fin: "finished w = []" and res: "resumer w = no_requests"
    using parked_atD(1) [OF p] by (simp_all add: parked_def)
  have loop: "round_result again os p rfd kd dl c hp i k (loop_body again os ?u w)"
    if ct: "clear_timeouts os ?u w = Some (t, w\<lparr>kern := k1\<rparr>)"
      and wr: "wait_round os rfd kd dl k = poll_round os rfd kd t k1" for t k1
  proof -
    have eq: "loop_body again os ?u w = (case do_poll os ?u t (w\<lparr>kern := k1\<rparr>) of
          None \<Rightarrow> None
        | Some rw \<Rightarrow> (case fst rw of Inl e \<Rightarrow> Some (Inl e, snd rw)
            | Inr u \<Rightarrow> again (resume_queued os ?u (snd rw))))"
      by (simp add: loop_body_def ct fin)
    from do_poll_parked [OF parked_kern [OF p, of k1], of os t]
    have polled: "polled os rfd kd dl c hp i (poll_round os rfd kd t k1) (do_poll os ?u t (w\<lparr>kern := k1\<rparr>))" .
    show ?thesis
    proof (cases "poll_round os rfd kd t k1")
      case None
      with polled show ?thesis by (simp add: polled_def round_result_def k wr eq)
    next
      case (Some z)
      obtain rd k2 where z: "z = (rd, k2)" by (cases z)
      show ?thesis
      proof (cases rd)
        case Again
        with polled Some z obtain w' where "do_poll os ?u t (w\<lparr>kern := k1\<rparr>) = Some (Inr (), w')"
          "parked rfd kd dl hp i k2 w'" by (auto simp: polled_def)
        with Again Some z show ?thesis
          by (auto simp: round_result_def k wr eq parked_def resume_queued_none)
      next
        case Ready
        with polled Some z obtain w' where "do_poll os ?u t (w\<lparr>kern := k1\<rparr>) = Some (Inr (), w')"
          "after_attempt os rfd kd dl c hp i k2 w'" by (auto simp: polled_def)
        with Ready Some z after_attempt_resumer [of os rfd kd dl c hp i k2 w'] show ?thesis
          by (auto simp: round_result_def k wr eq resume_queued_none)
      qed (use polled Some z in \<open>auto simp: polled_def round_result_def k wr eq\<close>)
    qed
  qed
  show ?thesis
  proof (cases dl)
    case None
    with clear_timeouts_parked [OF p, of os] have "clear_timeouts os ?u w = Some (-1, w\<lparr>kern := k\<rparr>)"
      using k by simp
    then show ?thesis by (rule loop) (simp add: wait_round_def None)
  next
    case (Some d)
    obtain now k1 where now: "os_now os k = (now, k1)" by (cases "os_now os k")
    let ?x = "fail ETIME ''IOP timed out'' (fresh_completion kd dl)"
    show ?thesis
    proof (cases "d - now < 1000000")
      case True
      with clear_timeouts_parked [OF p, of os] Some now obtain w' where
          g: "got_to os rfd (c ?x) (hp(i \<mapsto> ?x)) (Suc i) k1 w'"
          and ct: "clear_timeouts os ?u w = clear_timeouts os ?u w'" by (auto simp: Let_def)
      have "loop_body again os ?u w = loop_body again os ?u w'"
        unfolding loop_body_def ct ..
      with g Some now True k show ?thesis by (auto simp: round_result_def wait_round_def Let_def)
    next
      case False
      with clear_timeouts_parked [OF p, of os] Some now
      have "clear_timeouts os ?u w = Some (poll_timeout (d - now), w\<lparr>kern := k1\<rparr>)"
        by (simp add: Let_def)
      then show ?thesis by (rule loop) (simp add: wait_round_def Some now False)
    qed
  qed
qed

lemma parked_again: "parked_at p rfd kd dl c hp i k w \<Longrightarrow> parked rfd kd dl hp i k' w' \<Longrightarrow>
  parked_at p rfd kd dl c hp i k' w'"
  by (simp add: parked_at_def)

subsection \<open>From the task to the loop\<close>

text \<open>What \<open>await_iop\<close> does from where it is parked, and the program after it.\<close>

definition await_parked ::
  "'k posix_os \<Rightarrow> fd \<Rightarrow> iop_kind \<Rightarrow> ns option \<Rightarrow> 'k \<Rightarrow> (completion \<times> 'k) option" where
  "await_parked os rfd kd dl k =
     (case poll_wait os rfd kd dl k of
        None \<Rightarrow> None
      | Some (None, k1) \<Rightarrow> Some (fail ETIME ''IOP timed out'' (fresh_completion kd dl), k1)
      | Some (Some u, k1) \<Rightarrow> await_iop os (poll_wait os rfd kd dl) kd dl k1)"

definition steps_parked ::
  "'k posix_os \<Rightarrow> fd \<Rightarrow> iop_kind \<Rightarrow> ns option \<Rightarrow> (completion \<Rightarrow> 'a steps) \<Rightarrow> 'k \<Rightarrow> ('a \<times> 'k) option" where
  "steps_parked os rfd kd dl c k =
     (case await_parked os rfd kd dl k of
        None \<Rightarrow> None
      | Some (x, k1) \<Rightarrow> run_steps os rfd (c x) k1)"

lemma await_iop_attempt:
  "await_iop os (poll_wait os rfd kd dl) kd dl k =
     (case attempt os kd dl k of
        (Some x, k1) \<Rightarrow> Some (x, k1)
      | (None, k1) \<Rightarrow> await_parked os rfd kd dl k1)"
  unfolding await_parked_def by (rule await_iop.simps)

lemma await_parked_round:
  "await_parked os rfd kd dl k =
     (case wait_round os rfd kd dl k of
        None \<Rightarrow> None
      | Some (TimedOut, k1) \<Rightarrow> Some (fail ETIME ''IOP timed out'' (fresh_completion kd dl), k1)
      | Some (PollFails e, k1) \<Rightarrow> None
      | Some (Again, k1) \<Rightarrow> await_parked os rfd kd dl k1
      | Some (Ready, k1) \<Rightarrow> await_iop os (poll_wait os rfd kd dl) kd dl k1)"
  unfolding await_parked_def
  by (subst poll_wait.simps) (simp split: option.splits round.splits)

lemma run_steps_first:
  "run_steps os rfd (AwaitIop kd dl c) k =
     (case first_call os kd dl k of
        (Some x, k1) \<Rightarrow> run_steps os rfd (c x) k1
      | (None, k1) \<Rightarrow> steps_parked os rfd kd dl c k1)"
  by (simp add: await_any_def await_parked_def steps_parked_def split: prod.split option.split)

lemma steps_parked_round:
  "steps_parked os rfd kd dl c k =
     (case wait_round os rfd kd dl k of
        None \<Rightarrow> None
      | Some (TimedOut, k1) \<Rightarrow> run_steps os rfd (c (fail ETIME ''IOP timed out'' (fresh_completion kd dl))) k1
      | Some (PollFails e, k1) \<Rightarrow> None
      | Some (Again, k1) \<Rightarrow> steps_parked os rfd kd dl c k1
      | Some (Ready, k1) \<Rightarrow>
          (case attempt os kd dl k1 of
             (Some x, k2) \<Rightarrow> run_steps os rfd (c x) k2
           | (None, k2) \<Rightarrow> steps_parked os rfd kd dl c k2))"
  unfolding steps_parked_def
  by (subst await_parked_round) (simp add: await_iop_attempt split: option.split round.split prod.split)

text \<open>The loop gets to where the wait gets to.\<close>

lemma poll_wait_runs:
  fixes os :: "'k posix_os"
  assumes run: "poll_wait os rfd kd dl k = Some (q, k')" and p: "parked_at p rfd kd dl c hp i k w"
  shows "\<exists>w'. run_loop os (coroutine os p) 0 w = run_loop os (coroutine os p) 0 w' \<and>
    (case q of
       None \<Rightarrow> let x = fail ETIME ''IOP timed out'' (fresh_completion kd dl)
               in got_to os rfd (c x) (hp(i \<mapsto> x)) (Suc i) k' w'
     | Some u \<Rightarrow> after_attempt os rfd kd dl c hp i k' w')"
proof -
  let ?u = "coroutine os p"
  let ?R = "\<lambda>w. run_loop os ?u 0 w" and ?x = "fail ETIME ''IOP timed out'' (fresh_completion kd dl)"
  let ?Q = "\<lambda>(r :: unit option \<times> 'k) w. \<exists>w'. ?R w = ?R w' \<and>
      (case fst r of
         None \<Rightarrow> got_to os rfd (c ?x) (hp(i \<mapsto> ?x)) (Suc i) (snd r) w'
       | Some u \<Rightarrow> after_attempt os rfd kd dl c hp i (snd r) w')"
  let ?P = "\<lambda>(os' :: 'k posix_os) rfd' kd' dl' k r. os' = os \<longrightarrow> rfd' = rfd \<longrightarrow> kd' = kd \<longrightarrow> dl' = dl \<longrightarrow>
      (\<forall>w. parked_at p rfd kd dl c hp i k w \<longrightarrow> ?Q r w)"
  have "?P os rfd kd dl k (q, k')"
  proof (rule poll_wait.raw_induct [where P = ?P, OF _ run])
    fix g and os' :: "'k posix_os" and rfd' kd' dl' k r
    assume IH: "\<And>os' rfd' kd' dl' k r. g os' rfd' kd' dl' k = Some r \<Longrightarrow> ?P os' rfd' kd' dl' k r"
      and eq: "(case wait_round os' rfd' kd' dl' k of
        None \<Rightarrow> None
      | Some (TimedOut, k1) \<Rightarrow> Some (None, k1)
      | Some (PollFails e, k1) \<Rightarrow> None
      | Some (Again, k1) \<Rightarrow> g os' rfd' kd' dl' k1
      | Some (Ready, k1) \<Rightarrow> Some (Some (), k1)) = Some r"
    show "?P os' rfd' kd' dl' k r"
    proof (intro impI allI)
      fix w assume same: "os' = os" "rfd' = rfd" "kd' = kd" "dl' = dl"
        and p: "parked_at p rfd kd dl c hp i k w"
      have rr: "round_result ?R os p rfd kd dl c hp i k (?R w)"
        using round_parked [OF p, of ?R os] by (simp add: run_loop_body [symmetric])
      from eq same obtain rd k1 where z: "wait_round os rfd kd dl k = Some (rd, k1)"
        by (auto split: option.splits)
      show "?Q r w"
      proof (cases rd)
        case Again
        with rr z obtain w1 where w1: "parked rfd kd dl hp i k1 w1" "?R w = ?R w1"
          by (auto simp: round_result_def)
        have "g os rfd kd dl k1 = Some r" using eq same z Again by simp
        from IH [OF this] parked_again [OF p w1(1)] have "?Q r w1" by blast
        then show ?thesis unfolding w1(2) .
      next
        case TimedOut
        with rr z eq same show ?thesis
          by (auto simp: round_result_def run_loop_body [symmetric] Let_def)
      qed (use eq same z rr in \<open>auto simp: round_result_def\<close>)
    qed
  qed
  then have "?Q (q, k') w" using p by blast
  then show ?thesis by (simp only: Let_def fst_conv snd_conv)
qed

lemma await_runs:
  fixes os :: "'k posix_os"
  assumes run: "await_iop os (poll_wait os rfd kd dl) kd dl k = Some (x, k')"
    and p: "parked_at p rfd kd dl c hp i k0 w0" and aw: "after_attempt os rfd kd dl c hp i k w"
  shows "\<exists>w'. run_loop os (coroutine os p) 0 w = run_loop os (coroutine os p) 0 w' \<and>
    got_to os rfd (c x) (hp(i \<mapsto> x)) (Suc i) k' w'"
proof -
  let ?R = "\<lambda>w. run_loop os (coroutine os p) 0 w"
  let ?Q = "\<lambda>(r :: completion \<times> 'k) w. \<exists>w'. ?R w = ?R w' \<and>
      got_to os rfd (c (fst r)) (hp(i \<mapsto> fst r)) (Suc i) (snd r) w'"
  let ?P = "\<lambda>(os' :: 'k posix_os) park kd' dl' k (r :: completion \<times> 'k).
      os' = os \<longrightarrow> park = poll_wait os rfd kd dl \<longrightarrow> kd' = kd \<longrightarrow> dl' = dl \<longrightarrow>
      (\<forall>w. after_attempt os rfd kd dl c hp i k w \<longrightarrow> ?Q r w)"
  have "?P os (poll_wait os rfd kd dl) kd dl k (x, k')"
  proof (rule await_iop.raw_induct [where P = ?P, OF _ run])
    fix g and os' :: "'k posix_os" and park kd' dl' k r
    assume IH: "\<And>os' park kd' dl' k r. g os' park kd' dl' k = Some r \<Longrightarrow> ?P os' park kd' dl' k r"
      and eq: "(case attempt os' kd' dl' k of
          (Some x, k1) \<Rightarrow> Some (x, k1)
        | (None, k1) \<Rightarrow> (case park k1 of
            None \<Rightarrow> None
          | Some (None, k2) \<Rightarrow> Some (fail ETIME ''IOP timed out'' (fresh_completion kd' dl'), k2)
          | Some (Some u, k2) \<Rightarrow> g os' park kd' dl' k2)) = Some r"
    show "?P os' park kd' dl' k r"
    proof (intro impI allI)
      fix w assume same: "os' = os" "park = poll_wait os rfd kd dl" "kd' = kd" "dl' = dl"
        and aw: "after_attempt os rfd kd dl c hp i k w"
      obtain a k1 where a: "attempt os kd dl k = (a, k1)" by (cases "attempt os kd dl k")
      show "?Q r w"
      proof (cases a)
        case (Some y)
        with aw a eq same show ?thesis by (auto simp: after_attempt_def)
      next
        case None
        with aw a have "parked rfd kd dl hp i k1 w" by (simp add: after_attempt_def)
        note p1 = parked_again [OF p this]
        from eq same a None obtain q k2 where q: "poll_wait os rfd kd dl k1 = Some (q, k2)"
          by (auto split: option.splits)
        from poll_wait_runs [OF q p1] obtain w1 where w1: "?R w = ?R w1"
          "case q of
             None \<Rightarrow> let x = fail ETIME ''IOP timed out'' (fresh_completion kd dl)
               in got_to os rfd (c x) (hp(i \<mapsto> x)) (Suc i) k2 w1
           | Some u \<Rightarrow> after_attempt os rfd kd dl c hp i k2 w1" by blast
        show ?thesis
        proof (cases q)
          case N: None
          with eq same a None q
          have "r = (fail ETIME ''IOP timed out'' (fresh_completion kd dl), k2)" by simp
          with w1 N show ?thesis by (auto simp: Let_def)
        next
          case (Some u)
          with eq same a None q have "g os (poll_wait os rfd kd dl) kd dl k2 = Some r" by simp
          from IH [OF this] w1 Some show ?thesis by simp
        qed
      qed
    qed
  qed
  with aw show ?thesis by simp
qed

lemma await_parked_runs:
  assumes run: "await_parked os rfd kd dl k = Some (x, k')" and p: "parked_at p rfd kd dl c hp i k w"
  shows "\<exists>w'. run_loop os (coroutine os p) 0 w = run_loop os (coroutine os p) 0 w' \<and>
    got_to os rfd (c x) (hp(i \<mapsto> x)) (Suc i) k' w'"
proof -
  obtain q k1 where q: "poll_wait os rfd kd dl k = Some (q, k1)"
    using run by (auto simp: await_parked_def split: option.splits)
  note wait = poll_wait_runs [OF q p]
  show ?thesis
  proof (cases q)
    case None
    with run q wait show ?thesis by (simp add: await_parked_def Let_def)
  next
    case (Some u)
    with run q have "await_iop os (poll_wait os rfd kd dl) kd dl k1 = Some (x, k')"
      by (simp add: await_parked_def)
    with wait Some await_runs [OF this p] show ?thesis by fastforce
  qed
qed

definition tells :: "'a steps \<Rightarrow> 'k poll_warden \<Rightarrow> ('a \<times> 'k) option \<Rightarrow> bool" where
  "tells p w' r \<longleftrightarrow> (\<exists>a. r = Some (a, kern w') \<and> returned p w' = Some a)"

lemma ended_tells: "ended hp i k w \<Longrightarrow> steps_left p hp 0 i = Return a \<Longrightarrow> tells p w (Some (a, k))"
  by (simp add: ended_def tells_def returned_def)

lemma steps_run:
  assumes "run_steps os rfd q k = Some r" "got_to os rfd q hp i k w"
    and "steps_left p hp 0 i = q" "steps_on f q" "f \<noteq> rfd"
  shows "\<exists>w'. run_loop os (coroutine os p) 0 w = Some (Inr (), w') \<and> tells p w' (Some r)"
  using assms
proof (induction q arbitrary: k hp i w)
  case (Return a)
  then have "ended hp i k w" "r = (a, k)" by simp_all
  moreover from this have "run_loop os (coroutine os p) 0 w = Some (Inr (), w)"
    by (subst run_loop_body) (rule ended_loop)
  ultimately show ?case using ended_tells [OF _ Return.prems(3)] by metis
next
  case (AwaitIop kd dl c)
  obtain a k1 where a: "first_call os kd dl k = (a, k1)" by (cases "first_call os kd dl k")
  have on: "steps_on f (c x)" for x using AwaitIop.prems(4) by simp
  show ?case
  proof (cases a)
    case (Some x)
    have "run_steps os rfd (c x) k1 = Some r" "got_to os rfd (c x) (hp(i \<mapsto> x)) (Suc i) k1 w"
      using AwaitIop.prems(1,2) a Some by (simp_all add: run_steps_first del: run_steps.simps)
    from AwaitIop.IH [OF _ this steps_left_next [OF AwaitIop.prems(3)] on AwaitIop.prems(5)]
    show ?thesis by simp
  next
    case None
    with a AwaitIop.prems have p: "parked_at p rfd kd dl c hp i k1 w" by (auto simp: parked_at_def)
    from AwaitIop.prems(1) a None obtain x k2 where x: "await_parked os rfd kd dl k1 = Some (x, k2)"
        "run_steps os rfd (c x) k2 = Some r"
      by (auto simp: run_steps_first steps_parked_def simp del: run_steps.simps split: option.splits)
    from await_parked_runs [OF x(1) p] obtain w1 where w1:
        "run_loop os (coroutine os p) 0 w = run_loop os (coroutine os p) 0 w1"
        "got_to os rfd (c x) (hp(i \<mapsto> x)) (Suc i) k2 w1" by blast
    from AwaitIop.IH [OF _ x(2) w1(2) steps_left_next [OF AwaitIop.prems(3)] on AwaitIop.prems(5)]
    show ?thesis by (simp add: w1(1))
  qed
qed

subsection \<open>From the loop to the task\<close>

text \<open>
  \<open>told q\<close>: from a state at the point \<open>q\<close> of the program the task model ends with what the coroutine
  has returned in \<open>w'\<close>. \<open>told_parked\<close> is the same for a parked IOP. The states meant are those from
  which \<open>go\<close> ends in \<open>w'\<close>.
\<close>

definition told ::
  "'k posix_os \<Rightarrow> 'a steps \<Rightarrow> fd \<Rightarrow> fd \<Rightarrow> 'k poll_warden \<Rightarrow> 'k poll_warden \<Rightarrow> 'a steps \<Rightarrow> bool" where
  "told os p rfd f w' w q \<longleftrightarrow>
     (\<forall>hp i k. steps_left p hp 0 i = q \<longrightarrow> steps_on f q \<longrightarrow> got_to os rfd q hp i k w \<longrightarrow>
        tells p w' (run_steps os rfd q k))"

definition told_parked ::
  "'k posix_os \<Rightarrow> 'a steps \<Rightarrow> fd \<Rightarrow> fd \<Rightarrow> 'k poll_warden \<Rightarrow> 'k poll_warden \<Rightarrow>
   iop_kind \<Rightarrow> ns option \<Rightarrow> (completion \<Rightarrow> 'a steps) \<Rightarrow> bool" where
  "told_parked os p rfd f w' w kd dl c \<longleftrightarrow>
     (\<forall>hp i k. parked_at p rfd kd dl c hp i k w \<longrightarrow> waits_on kd = f \<longrightarrow>
        tells p w' (steps_parked os rfd kd dl c k))"

lemma toldD:
  "told os p rfd f w' w (c x) \<Longrightarrow> parked_at p rfd kd dl c hp i k0 w0 \<Longrightarrow> waits_on kd = f \<Longrightarrow>
   got_to os rfd (c x) (hp(i \<mapsto> x)) (Suc i) k w \<Longrightarrow> tells p w' (run_steps os rfd (c x) k)"
  using parked_atD(4,5) unfolding told_def by metis

lemma body_parked:
  assumes told: "\<And>w x. go w = Some (Inr (), w') \<Longrightarrow> told os p rfd f w' w (c x)"
      "\<And>w. go w = Some (Inr (), w') \<Longrightarrow> told_parked os p rfd f w' w kd dl c"
    and body: "\<And>w x. loop_body go os (coroutine os p) w = Some (Inr (), w') \<Longrightarrow> told os p rfd f w' w (c x)"
    and run: "loop_body go os (coroutine os p) w = Some (Inr (), w')"
  shows "told_parked os p rfd f w' w kd dl c"
  unfolding told_parked_def
proof (intro allI impI)
  fix hp i k
  assume p: "parked_at p rfd kd dl c hp i k w" and f: "waits_on kd = f"
  have rr: "round_result go os p rfd kd dl c hp i k (Some (Inr (), w'))"
    using round_parked [OF p, of go os] run by simp
  have park: "tells p w' (steps_parked os rfd kd dl c k1)"
    if "go w1 = Some (Inr (), w')" "parked rfd kd dl hp i k1 w1" for k1 w1
    using told(2) [OF that(1)] parked_again [OF p that(2)] f unfolding told_parked_def by blast
  show "tells p w' (steps_parked os rfd kd dl c k)"
  proof (cases "wait_round os rfd kd dl k")
    case None
    with rr show ?thesis by (simp add: round_result_def)
  next
    case (Some z)
    obtain rd k1 where z: "z = (rd, k1)" by (cases z)
    note unfold = steps_parked_round [of os rfd kd dl c k]
    show ?thesis
    proof (cases rd)
      case TimedOut
      let ?x = "fail ETIME ''IOP timed out'' (fresh_completion kd dl)"
      from TimedOut rr Some z obtain w1 where w1: "got_to os rfd (c ?x) (hp(i \<mapsto> ?x)) (Suc i) k1 w1"
          "loop_body go os (coroutine os p) w1 = Some (Inr (), w')"
        by (auto simp: round_result_def Let_def)
      with toldD [OF body [OF w1(2)] p f w1(1)] TimedOut Some z show ?thesis by (simp add: unfold)
    next
      case (PollFails e)
      with rr Some z show ?thesis by (simp add: round_result_def)
    next
      case Again
      with rr Some z park show ?thesis by (auto simp: round_result_def unfold)
    next
      case Ready
      with rr Some z obtain w1 where w1: "after_attempt os rfd kd dl c hp i k1 w1" "go w1 = Some (Inr (), w')"
        by (auto simp: round_result_def)
      with Ready Some z park [OF w1(2)] toldD [OF told(1) [OF w1(2)] p f] show ?thesis
        by (auto simp: unfold after_attempt_def split: prod.splits option.splits)
    qed
  qed
qed

lemma body_told:
  assumes told: "\<And>w q. go w = Some (Inr (), w') \<Longrightarrow> told os p rfd f w' w q"
      "\<And>w kd dl c. go w = Some (Inr (), w') \<Longrightarrow> told_parked os p rfd f w' w kd dl c"
    and f: "f \<noteq> rfd"
  shows "loop_body go os (coroutine os p) w = Some (Inr (), w') \<Longrightarrow> told os p rfd f w' w q"
proof (induction q arbitrary: w)
  case (Return a)
  then show ?case
    unfolding told_def using ended_loop ended_tells by (fastforce simp: tells_def)
next
  case (AwaitIop kd dl c)
  let ?go = "loop_body go os (coroutine os p)"
  have c: "told os p rfd f w' w (c x)" if "?go w = Some (Inr (), w')" for w x
    by (rule AwaitIop.IH [OF _ that]) simp
  have park: "told_parked os p rfd f w' w kd dl c"
    by (rule body_parked [OF told c AwaitIop.prems])
  show ?case
    unfolding told_def
  proof (intro allI impI)
    fix hp i k
    assume left: "steps_left p hp 0 i = AwaitIop kd dl c"
      and on: "steps_on f (AwaitIop kd dl c)" and g: "got_to os rfd (AwaitIop kd dl c) hp i k w"
    obtain a k1 where a: "first_call os kd dl k = (a, k1)" by (cases "first_call os kd dl k")
    show "tells p w' (run_steps os rfd (AwaitIop kd dl c) k)"
    proof (cases a)
      case None
      with a g left on f have "parked_at p rfd kd dl c hp i k1 w" by (auto simp: parked_at_def)
      with park on have "tells p w' (steps_parked os rfd kd dl c k1)"
        unfolding told_parked_def by auto
      with a None show ?thesis by (simp add: run_steps_first del: run_steps.simps)
    next
      case (Some x)
      with a g have "got_to os rfd (c x) (hp(i \<mapsto> x)) (Suc i) k1 w" by simp
      moreover have "steps_left p (hp(i \<mapsto> x)) 0 (Suc i) = c x" "steps_on f (c x)"
        using steps_left_next [OF left] on by simp_all
      ultimately have "tells p w' (run_steps os rfd (c x) k1)"
        using c [OF AwaitIop.prems, of x] unfolding told_def by blast
      with a Some show ?thesis by (simp add: run_steps_first del: run_steps.simps)
    qed
  qed
qed

lemma run_loop_told:
  fixes os :: "'k posix_os"
  assumes run: "run_loop os (coroutine os p) 0 w = Some (Inr (), w')" and f: "f \<noteq> rfd"
    and start: "steps_left p hp 0 i = q" "steps_on f q" "got_to os rfd q hp i k w"
  shows "tells p w' (run_steps os rfd q k)"
proof -
  let ?u = "coroutine os p"
  let ?P = "\<lambda>(os' :: 'k posix_os) user (coro :: nat) w (r :: (exn + unit) \<times> 'k poll_warden).
    os' = os \<longrightarrow> user = ?u \<longrightarrow> coro = 0 \<longrightarrow> r = (Inr (), w') \<longrightarrow>
    (\<forall>q. told os p rfd f w' w q) \<and> (\<forall>kd dl c. told_parked os p rfd f w' w kd dl c)"
  have "?P os ?u 0 w (Inr (), w')"
  proof (rule run_loop.raw_induct [where P = ?P, OF _ run])
    fix g and os' :: "'k posix_os" and user coro w r
    assume IH: "\<And>os' user coro w r. g os' user coro w = Some r \<Longrightarrow> ?P os' user coro w r"
      and eq: "(case clear_timeouts os' user w of None \<Rightarrow> None
        | Some tw \<Rightarrow>
            if coro \<in> set (finished (snd tw)) then Some (Inr (), snd tw)
            else case do_poll os' user (fst tw) (snd tw) of None \<Rightarrow> None
              | Some rw \<Rightarrow>
                  (case fst rw of Inl e \<Rightarrow> Some (Inl e, snd rw)
                   | Inr u \<Rightarrow> g os' user coro (resume_queued os' user (snd rw)))) = Some r"
    show "?P os' user coro w r"
    proof (intro impI)
      assume same: "os' = os" "user = ?u" "coro = 0" and r: "r = (Inr (), w')"
      let ?g = "g os ?u 0"
      have body: "loop_body ?g os ?u w = Some (Inr (), w')"
        using eq unfolding r by (simp only: same loop_body_def)
      have told: "told os p rfd f w' w1 q" "told_parked os p rfd f w' w1 kd dl c"
        if "?g w1 = Some (Inr (), w')" for w1 q kd dl c
        using IH [OF that] by blast+
      have B: "told os p rfd f w' w1 q" if "loop_body ?g os ?u w1 = Some (Inr (), w')" for w1 q
        by (rule body_told [OF told f that])
      have "told_parked os p rfd f w' w kd dl c" for kd dl c
        by (rule body_parked [of ?g, OF told B body])
      with B [OF body] show "(\<forall>q. told os p rfd f w' w q) \<and> (\<forall>kd dl c. told_parked os p rfd f w' w kd dl c)"
        by blast
    qed
  qed
  with start show ?thesis unfolding told_def by blast
qed

subsection \<open>The refinement\<close>

lemma steps_event_loop:
  assumes new: "new_poll_warden os k0 = Inr w" and on: "steps_on f p" and f: "f \<noteq> wakeup_read w"
  shows "run_steps os (wakeup_read w) p (kern w) =
    (case run_until os (coroutine os p) 0 w of
       Some (Inr u, w') \<Rightarrow> Some (the (returned p w'), kern w')
     | _ \<Rightarrow> None)"
proof -
  let ?u = "coroutine os p" and ?rfd = "wakeup_read w"
  let ?w1 = "resume os ?u (Coro 0) w"
  have w: "running ?rfd f (\<lambda>_. None) 0 (kern w) w"
    using new by (auto simp: new_poll_warden_def running_def split: prod.splits sum.splits)
  have g: "got_to os ?rfd p (\<lambda>_. None) 0 (kern w) ?w1"
    by (rule resume_coroutine [OF steps_left_none w on])
  have ru: "run_until os ?u 0 w = run_loop os ?u 0 ?w1" by (simp add: run_until_def)
  show ?thesis
  proof (cases "run_steps os ?rfd p (kern w)")
    case (Some r)
    from steps_run [OF Some g steps_left_none on f] Some ru show ?thesis
      by (auto simp: tells_def simp del: resume.simps)
  next
    case None
    have "run_loop os ?u 0 ?w1 \<noteq> Some (Inr (), w')" for w'
      using run_loop_told [OF _ f steps_left_none on g, of w'] None by (auto simp: tells_def)
    with None show ?thesis
      by (auto simp: ru simp del: resume.simps split: option.split sum.split)
  qed
qed

lemma run_until_returns:
  assumes new: "new_poll_warden os k0 = Inr w" and on: "steps_on f p" and f: "f \<noteq> wakeup_read w"
    and run: "run_until os (coroutine os p) 0 w = Some (Inr (), w')"
  shows "returned p w' \<noteq> None"
proof -
  have w: "running (wakeup_read w) f (\<lambda>_. None) 0 (kern w) w"
    using new by (auto simp: new_poll_warden_def running_def split: prod.splits sum.splits)
  from run have "run_loop os (coroutine os p) 0 (resume os (coroutine os p) (Coro 0) w) = Some (Inr (), w')"
    unfolding run_until_def .
  from run_loop_told [OF this f steps_left_none on resume_coroutine [OF steps_left_none w on]]
  show ?thesis by (auto simp: tells_def)
qed

text \<open>One IOP.\<close>

lemma await_any_event_loop:
  assumes "new_poll_warden os k0 = Inr w" "loop_kind kd dl" "waits_on kd \<noteq> wakeup_read w"
  shows "await_any os (poll_wait os (wakeup_read w) kd dl) kd dl (kern w) =
    (case run_until os (coroutine os (AwaitIop kd dl Return)) 0 w of
       Some (Inr u, w') \<Rightarrow> Some (the (heap w' 0), kern w')
     | _ \<Rightarrow> None)"
proof -
  let ?p = "AwaitIop kd dl Return"
  have on: "steps_on (waits_on kd) ?p" using assms(2) by simp
  have "the (returned ?p w') = the (heap w' 0)"
    if "run_until os (coroutine os ?p) 0 w = Some (Inr (), w')" for w'
    using run_until_returns [OF assms(1) on assms(3) that] by (simp add: returned_def split: if_splits)
  moreover have "await_any os (poll_wait os (wakeup_read w) kd dl) kd dl (kern w) =
      run_steps os (wakeup_read w) ?p (kern w)" by (simp split: option.split)
  ultimately show ?thesis
    using steps_event_loop [OF assms(1) on assms(3)] by (auto split: option.split sum.split)
qed


text \<open>A kernel with nothing to read until \<open>poll\<close> has been called once, and two reads.\<close>

definition nap_os :: "nat posix_os" where
  "nap_os = quiet_os\<lparr>
     os_read := (\<lambda>f n k. (if k = 0 then None else Some [65], k)),
     os_poll := (\<lambda>ps t k. (1, (\<lambda>i. if i = 1 then 1 else 0), 1))\<rparr>"

definition two_reads :: "byte list steps" where
  "two_reads = AwaitIop (ReadSome 7 8) None
     (\<lambda>x. AwaitIop (ReadSome 7 1) None (\<lambda>y. Return (filled x @ filled y)))"

lemma nap_runs: "run_steps nap_os 3 two_reads 0 = Some ([65, 65], 1)"
proof -
  have wr: "wait_round nap_os 3 (ReadSome 7 8) None 0 = Some (Ready, 1)"
    by (simp add: wait_round_def poll_round_def nap_os_def quiet_os_def wakes_def has_flag_def)
  have "attempt nap_os (ReadSome 7 8) None 0 = (None, 0)"
    "attempt nap_os (ReadSome 7 8) None 1 =
      (Some (succeed (RSize 1) ((fresh_completion (ReadSome 7 8) None)\<lparr>filled := [65]\<rparr>)), 1)"
    "attempt nap_os (ReadSome 7 1) None 1 =
      (Some (succeed (RSize 1) ((fresh_completion (ReadSome 7 1) None)\<lparr>filled := [65]\<rparr>)), 1)"
    by (simp_all add: attempt_read_eq nap_os_def quiet_os_def would_block_def)
  with wr show ?thesis
    by (simp add: two_reads_def await_any_blocking await_iop_attempt await_parked_round succeed_def)
qed


text \<open>
  What the system calls of the wait keep, \<open>poll_wait\<close> keeps: the laws about peers in
  \<open>Conveniences\<close> then speak about the kernel only.
\<close>

lemma drain_keeps:
  assumes "drain os rfd k = Some k'" "Q k"
    and "\<And>k n bs k'. Q k \<Longrightarrow> os_read os rfd n k = (bs, k') \<Longrightarrow> Q k'"
  shows "Q k'"
proof -
  let ?P = "\<lambda>(os' :: 'a posix_os) f k k'. os' = os \<longrightarrow> f = rfd \<longrightarrow> Q k \<longrightarrow> Q k'"
  have "?P os rfd k k'"
  proof (rule drain.raw_induct [where P = ?P, OF _ assms(1)])
    fix g and os' :: "'a posix_os" and f k k'
    assume IH: "\<And>os' f k k'. g os' f k = Some k' \<Longrightarrow> ?P os' f k k'"
      and eq: "(let (r, bs, k1) = sys_read os' f 64 k in if r > 0 then g os' f k1 else Some k1) = Some k'"
    show "?P os' f k k'"
    proof (intro impI)
      assume same: "os' = os" "f = rfd" and Q: "Q k"
      obtain r bs k1 where r: "sys_read os rfd 64 k = (r, bs, k1)" by (cases "sys_read os rfd 64 k")
      then have "Q k1" using assms(3) [OF Q] by (auto simp: sys_read_def split: prod.splits option.splits)
      with eq r same show "Q k'" by (auto split: if_splits dest: IH)
    qed
  qed
  with assms(2) show ?thesis by simp
qed

lemma poll_wait_keeps:
  assumes "poll_wait os rfd kd dl k = Some (q, k')" "Q k"
    and now: "\<And>k t k'. Q k \<Longrightarrow> os_now os k = (t, k') \<Longrightarrow> Q k'"
    and poll: "\<And>k ps t pr rv k'. Q k \<Longrightarrow> os_poll os ps t k = (pr, rv, k') \<Longrightarrow> Q k'"
    and read: "\<And>k n bs k'. Q k \<Longrightarrow> os_read os rfd n k = (bs, k') \<Longrightarrow> Q k'"
  shows "Q k'"
proof -
  have pr: "Q k2" if "poll_round os rfd kd t k1 = Some (r, k2)" "Q k1" for t k1 r k2
  proof -
    let ?ps = "[\<lparr>pfd = rfd, events = POLLIN, revents = 0\<rparr>,
        \<lparr>pfd = waits_on kd, events = req_flags (wanted 0 kd), revents = 0\<rparr>]"
    obtain p rv k3 where pl: "os_poll os ?ps t k1 = (p, rv, k3)" by (cases "os_poll os ?ps t k1")
    have Q3: "Q k3" by (rule poll [OF that(2) pl])
    then have "Q k4" if "drain os rfd k3 = Some k4" for k4
      by (rule drain_keeps [OF that]) (rule read)
    with that(1) pl Q3 show ?thesis
      by (simp add: poll_round_def split: if_split_asm option.split_asm)
  qed
  have wr: "Q k2" if "wait_round os rfd kd dl k1 = Some (r, k2)" "Q k1" for k1 r k2
  proof (cases dl)
    case None
    with that pr show ?thesis by (simp add: wait_round_def)
  next
    case (Some d)
    obtain t k3 where t: "os_now os k1 = (t, k3)" by (cases "os_now os k1")
    with now that(2) have "Q k3" by blast
    with that(1) Some t pr show ?thesis by (auto simp: wait_round_def split: if_splits)
  qed
  let ?P = "\<lambda>(os' :: 'a posix_os) rfd' kd' dl' k r.
    os' = os \<longrightarrow> rfd' = rfd \<longrightarrow> kd' = kd \<longrightarrow> dl' = dl \<longrightarrow> Q k \<longrightarrow> Q (snd (r :: unit option \<times> 'a))"
  have "?P os rfd kd dl k (q, k')"
  proof (rule poll_wait.raw_induct [where P = ?P, OF _ assms(1)])
    fix g and os' :: "'a posix_os" and rfd' kd' dl' k r
    assume IH: "\<And>os' rfd' kd' dl' k r. g os' rfd' kd' dl' k = Some r \<Longrightarrow> ?P os' rfd' kd' dl' k r"
      and eq: "(case wait_round os' rfd' kd' dl' k of
        None \<Rightarrow> None
      | Some (TimedOut, k1) \<Rightarrow> Some (None, k1)
      | Some (PollFails e, k1) \<Rightarrow> None
      | Some (Again, k1) \<Rightarrow> g os' rfd' kd' dl' k1
      | Some (Ready, k1) \<Rightarrow> Some (Some (), k1)) = Some r"
    show "?P os' rfd' kd' dl' k r"
    proof (intro impI)
      assume same: "os' = os" "rfd' = rfd" "kd' = kd" "dl' = dl" and Q: "Q k"
      from eq same obtain rd k1 where z: "wait_round os rfd kd dl k = Some (rd, k1)"
        by (auto split: option.splits)
      have "Q k1" by (rule wr [OF z Q])
      with eq same z show "Q (snd r)" by (cases rd) (auto dest: IH)
    qed
  qed
  with assms(2) show ?thesis by simp
qed

end
