(* ===== verification/ConnectTask.thy ===== *)
theory ConnectTask
  imports TaskRefinement Streams
begin

text \<open>
  Connecting as a task: \<open>poll_connect\<close>, on which \<open>connect\<close> by name and TLS are built, is what the event
  loop makes of an awaited connect without a deadline.
\<close>

lemma poll_connect_awaits:
  "poll_connect os park f a dl k =
     (case await_any os park (Connect f a) dl k of
        None \<Rightarrow> None
      | Some (y, k1) \<Rightarrow> (case iop_value y of Inl e \<Rightarrow> Some (Inl e, k1) | Inr v \<Rightarrow> Some (Inr (), k1)))"
proof -
  let ?x = "fresh_completion (Connect f a) dl"
  obtain h w where hw: "connect_await_suspend os f a 0 ?x (Coro 0) (start_warden k) = (h, w)"
    by (cases "connect_await_suspend os f a 0 ?x (Coro 0) (start_warden k)")
  have "heap w 0 \<noteq> None"
    using hw by (auto simp: connect_await_suspend_def store_def insert_timeout_def push_write_def
        req_upd_def Let_def split: prod.splits option.splits if_splits)
  then obtain y where "heap w 0 = Some y" by auto
  with hw show ?thesis
    by (simp add: poll_connect_def await_any_def first_call_def Let_def split: option.split)
qed

definition connect_value :: "completion \<Rightarrow> exn + unit" where
  "connect_value x = (case iop_value x of Inl e \<Rightarrow> Inl e | Inr v \<Rightarrow> Inr ())"

lemma connect_event_loop:
  assumes "new_poll_warden os k0 = Inr w" "f \<noteq> wakeup_read w"
  shows "poll_connect os (poll_wait os (wakeup_read w) (Connect f a) None) f a None (kern w) =
    (case run_until os (coroutine os (AwaitIop (Connect f a) None Return)) 0 w of
       Some (Inr u, w') \<Rightarrow> Some (connect_value (the (heap w' 0)), kern w')
     | _ \<Rightarrow> None)"
proof -
  let ?await = "await_any os (poll_wait os (wakeup_read w) (Connect f a) None) (Connect f a) None (kern w)"
  have "poll_connect os (poll_wait os (wakeup_read w) (Connect f a) None) f a None (kern w) =
      map_option (\<lambda>(x, k1). (connect_value x, k1)) ?await"
    by (auto simp: poll_connect_awaits connect_value_def split: option.split sum.split)
  moreover have "?await = (case run_until os (coroutine os (AwaitIop (Connect f a) None Return)) 0 w of
       Some (Inr u, w') \<Rightarrow> Some (the (heap w' 0), kern w')
     | _ \<Rightarrow> None)"
    by (rule await_any_event_loop [OF assms(1)]) (use assms(2) in simp_all)
  ultimately show ?thesis by (auto split: option.split sum.split)
qed

end
