(* ===== verification/Tls.thy ===== *)
theory Tls
  imports Streams
begin

text \<open>
  TLS over a socket (\<open>include/felspar/io/tls.hpp\<close>, \<open>src/tls.cpp\<close>). OpenSSL is not code of the
  repository: \<open>openssl\<close> is a record of functions over the kernel state, which also holds the
  BIO pair. The socket is a byte reader and a byte writer.
\<close>

record 'k openssl =
  ssl_new :: "fd \<Rightarrow> 'k \<Rightarrow> 'k"              \<comment> \<open>the objects of \<open>impl\<close>\<close>
  ssl_free :: "'k \<Rightarrow> 'k"
  ssl_set_host :: "string \<Rightarrow> 'k \<Rightarrow> 'k"
  ssl_connect :: "'k \<Rightarrow> int \<times> 'k"
  ssl_read :: "nat \<Rightarrow> 'k \<Rightarrow> byte list option \<times> int \<times> 'k"
  ssl_write :: "byte list \<Rightarrow> 'k \<Rightarrow> int \<times> 'k"
  ssl_get_error :: "int \<Rightarrow> 'k \<Rightarrow> int"
  bio_pending :: "'k \<Rightarrow> nat"
  bio_take :: "nat \<Rightarrow> 'k \<Rightarrow> int \<times> byte list \<times> 'k"   \<comment> \<open>\<open>BIO_read\<close>\<close>
  bio_put :: "byte list \<Rightarrow> 'k \<Rightarrow> int \<times> 'k"           \<comment> \<open>\<open>BIO_write\<close>\<close>

definition SSL_ERROR_NONE :: int where [simp]: "SSL_ERROR_NONE = 0"
definition SSL_ERROR_WANT_READ :: int where [simp]: "SSL_ERROR_WANT_READ = 2"
definition SSL_ERROR_WANT_WRITE :: int where [simp]: "SSL_ERROR_WANT_WRITE = 3"
definition SSL_ERROR_ZERO_RETURN :: int where [simp]: "SSL_ERROR_ZERO_RETURN = 6"

definition buffer_size :: nat where "buffer_size = 17408"

text \<open>
  \<open>SSL_read\<close> as the code sees it: a positive result is the number of bytes it put into the
  buffer, which it does not overrun; otherwise the result is the code to ask \<open>SSL_get_error\<close>
  about.
\<close>

definition sys_ssl_read :: "'k openssl \<Rightarrow> nat \<Rightarrow> 'k \<Rightarrow> (int \<times> byte list) \<times> 'k" where
  "sys_ssl_read ssl n k =
     (case ssl_read ssl n k of
        (Some bs, r, k1) \<Rightarrow> ((int (length (take n bs)), take n bs), k1)
      | (None, r, k1) \<Rightarrow> ((min r 0, []), k1))"

subsection \<open>Moving bytes between the BIO pair and the socket\<close>

definition bio_read ::
  "'k openssl \<Rightarrow> (ns option \<Rightarrow> byte list \<Rightarrow> ('k, nat) io) \<Rightarrow> ns option \<Rightarrow> ('k, unit) io" where
  "bio_read ssl wr dl k =
     (let bytes = bio_pending ssl k in
      if bytes > buffer_size
      then Some (Inl (LogicError ''Pending read BIO buffer too small''), k)
      else if bytes \<noteq> 0 then
        (let (read_int, bs, k1) = bio_take ssl bytes k in
         if read_int \<le> 0 then Some (Inl (RuntimeError ''Error reading from BIO''), k1)
         else if read_int \<noteq> int bytes
         then Some (Inl (RuntimeError ''Reading BIO read bytes mismatch''), k1)
         else io_bind (write_all wr dl (take bytes bs) 0) (\<lambda>n k2. Some (Inr (), k2)) k1)
      else Some (Inr (), k))"

definition bio_write ::
  "'k openssl \<Rightarrow> (ns option \<Rightarrow> nat \<Rightarrow> ('k, byte list) io) \<Rightarrow> ns option \<Rightarrow> ('k, nat) io" where
  "bio_write ssl rd dl =
     io_bind (rd dl buffer_size)
       (\<lambda>bs k1.
          if bs = [] then Some (Inr 0, k1)
          else
            (let (written_int, k2) = bio_put ssl bs k1 in
             if written_int < 0 then Some (Inl (RuntimeError ''Error writing to BIO''), k2)
             else if written_int \<noteq> int (length bs)
             then Some (Inl (RuntimeError ''Not all bytes written to BIO''), k2)
             else Some (Inr (nat written_int), k2)))"

subsection \<open>\<open>service_operation\<close>\<close>

text \<open>The operation gives its result and, for a read, the bytes it filled in.\<close>

partial_function (option) service_operation ::
  "'k openssl \<Rightarrow> (ns option \<Rightarrow> nat \<Rightarrow> ('k, byte list) io) \<Rightarrow>
   (ns option \<Rightarrow> byte list \<Rightarrow> ('k, nat) io) \<Rightarrow> ns option \<Rightarrow> ('k \<Rightarrow> (int \<times> byte list) \<times> 'k) \<Rightarrow>
   'k \<Rightarrow> ((exn + int \<times> byte list) \<times> 'k) option"
where
  "service_operation ssl rd wr dl oper k =
     (let (r, k1) = oper k; err = ssl_get_error ssl (fst r) k1 in
      if err = SSL_ERROR_NONE then Some (Inr r, k1)
      else if err = SSL_ERROR_WANT_READ then
        (case bio_read ssl wr dl k1 of
           None \<Rightarrow> None
         | Some f \<Rightarrow>
             (case fst f of
                Inl e \<Rightarrow> Some (Inl e, snd f)
              | Inr u \<Rightarrow>
                  (case bio_write ssl rd dl (snd f) of
                     None \<Rightarrow> None
                   | Some g \<Rightarrow>
                       (case fst g of
                          Inl e \<Rightarrow> Some (Inl e, snd g)
                        | Inr n \<Rightarrow>
                            if n = 0 then Some (Inr (0, []), snd g)
                            else service_operation ssl rd wr dl oper (snd g)))))
      else if err = SSL_ERROR_WANT_WRITE then
        (case bio_read ssl wr dl k1 of
           None \<Rightarrow> None
         | Some f \<Rightarrow>
             (case fst f of
                Inl e \<Rightarrow> Some (Inl e, snd f)
              | Inr u \<Rightarrow> service_operation ssl rd wr dl oper (snd f)))
      else if err = SSL_ERROR_ZERO_RETURN then Some (Inr (0, []), k1)
      else Some (Inl (RuntimeError (''Unknown openssl error '' @ to_digits (nat err))), k1))"

subsection \<open>Reading, writing and connecting\<close>

definition ssl_error :: "int \<Rightarrow> string" where
  "ssl_error err = ''Unknown error '' @ to_digits (nat err)"

definition tls_read_some ::
  "'k openssl \<Rightarrow> (ns option \<Rightarrow> nat \<Rightarrow> ('k, byte list) io) \<Rightarrow>
   (ns option \<Rightarrow> byte list \<Rightarrow> ('k, nat) io) \<Rightarrow> ns option \<Rightarrow> nat \<Rightarrow> ('k, byte list) io" where
  "tls_read_some ssl rd wr dl n =
     io_bind (service_operation ssl rd wr dl (sys_ssl_read ssl n))
       (\<lambda>r k1. if fst r < 0
          then Some (Inl (RuntimeError (''Error performing SSL_read: '' @
                 ssl_error (ssl_get_error ssl (fst r) k1))), k1)
          else Some (Inr (snd r), k1))"

definition tls_write_some ::
  "'k openssl \<Rightarrow> (ns option \<Rightarrow> nat \<Rightarrow> ('k, byte list) io) \<Rightarrow>
   (ns option \<Rightarrow> byte list \<Rightarrow> ('k, nat) io) \<Rightarrow> ns option \<Rightarrow> byte list \<Rightarrow> ('k, nat) io" where
  "tls_write_some ssl rd wr dl bs =
     io_bind (service_operation ssl rd wr dl
                (\<lambda>k. let (r, k1) = ssl_write ssl bs k in ((r, []), k1)))
       (\<lambda>r k1. if fst r \<le> 0 then Some (Inl (RuntimeError ''Error performing SSL_write''), k1)
          else Some (Inr (nat (fst r)), k1))"

definition tls_connect ::
  "'k posix_os \<Rightarrow> 'k park \<Rightarrow> 'k openssl \<Rightarrow> string \<Rightarrow> ns option \<Rightarrow> sockaddr
    \<Rightarrow> ('k, fd) io" where
  "tls_connect os park ssl sni_hostname dl a =
     io_bind (connect_address os park dl a)
       (\<lambda>f k1.
          case service_operation ssl (poll_read os park f) (poll_write os park f) dl
                 (\<lambda>k. let (r, k2) = ssl_connect ssl k in ((r, []), k2))
                 (ssl_set_host ssl sni_hostname (ssl_new ssl f k1)) of
            None \<Rightarrow> None
          | Some (Inl e, k2) \<Rightarrow> Some (Inl e, snd (os_close os f (ssl_free ssl k2)))
          | Some (Inr r, k2) \<Rightarrow> Some (Inr f, k2))"

definition tls_connect_by_name ::
  "'k posix_os \<Rightarrow> 'k park \<Rightarrow> 'k openssl \<Rightarrow> string \<Rightarrow> 16 word \<Rightarrow> ns option
    \<Rightarrow> ('k, fd) io" where
  "tls_connect_by_name os park ssl hostname port dl k =
     (case addrinfo os hostname port k of
        (Inl e, k1) \<Rightarrow> Some (Inl e, k1)
      | (Inr as, k1) \<Rightarrow> connect_hosts (tls_connect os park ssl hostname dl) hostname as None k1)"

text \<open>The forms with a time out in place of a deadline.\<close>

definition tls_read_some_within ::
  "'k posix_os \<Rightarrow> 'k openssl \<Rightarrow> (ns option \<Rightarrow> nat \<Rightarrow> ('k, byte list) io) \<Rightarrow>
   (ns option \<Rightarrow> byte list \<Rightarrow> ('k, nat) io) \<Rightarrow> ns \<Rightarrow> nat \<Rightarrow> ('k, byte list) io" where
  "tls_read_some_within os ssl rd wr timeout n k =
     (let (d, k1) = deadline_from os timeout k in tls_read_some ssl rd wr (Some d) n k1)"

definition tls_write_some_within ::
  "'k posix_os \<Rightarrow> 'k openssl \<Rightarrow> (ns option \<Rightarrow> nat \<Rightarrow> ('k, byte list) io) \<Rightarrow>
   (ns option \<Rightarrow> byte list \<Rightarrow> ('k, nat) io) \<Rightarrow> ns \<Rightarrow> byte list \<Rightarrow> ('k, nat) io" where
  "tls_write_some_within os ssl rd wr timeout bs k =
     (let (d, k1) = deadline_from os timeout k in tls_write_some ssl rd wr (Some d) bs k1)"

definition tls_connect_within ::
  "'k posix_os \<Rightarrow> 'k park \<Rightarrow> 'k openssl \<Rightarrow> string \<Rightarrow> ns \<Rightarrow> sockaddr
    \<Rightarrow> ('k, fd) io" where
  "tls_connect_within os park ssl sni_hostname timeout a k =
     (let (d, k1) = deadline_from os timeout k in tls_connect os park ssl sni_hostname (Some d) a k1)"

definition tls_connect_by_name_within ::
  "'k posix_os \<Rightarrow> 'k park \<Rightarrow> 'k openssl \<Rightarrow> string \<Rightarrow> 16 word \<Rightarrow> ns
    \<Rightarrow> ('k, fd) io" where
  "tls_connect_by_name_within os park ssl hostname port timeout k =
     (let (d, k1) = deadline_from os timeout k
      in tls_connect_by_name os park ssl hostname port (Some d) k1)"

subsection \<open>A TLS connection is a byte reader\<close>

lemma service_operation_from_op:
  fixes ssl :: "'k openssl"
  assumes "service_operation ssl rd wr dl oper k = Some (Inr r, k')"
  shows "r = (0, []) \<or> (\<exists>k1 k2. oper k1 = (r, k2))"
proof -
  let ?P = "\<lambda>(oper :: 'k \<Rightarrow> (int \<times> byte list) \<times> 'k) (q :: (exn + int \<times> byte list) \<times> 'k).
    \<forall>r. fst q = Inr r \<longrightarrow> r = (0, []) \<or> (\<exists>k1 k2. oper k1 = (r, k2))"
  have "?P oper (Inr r, k')"
  proof (rule service_operation.raw_induct
      [where P = "\<lambda>ssl rd wr dl oper k q. ?P oper q", OF _ assms])
    fix f and ssl :: "'k openssl" and rd wr dl oper k q
    assume IH: "\<And>(ssl :: 'k openssl) rd wr dl oper k q. f ssl rd wr dl oper k = Some q \<Longrightarrow> ?P oper q"
      and eq: "(let (r, k1) = oper k; err = ssl_get_error ssl (fst r) k1 in
      if err = SSL_ERROR_NONE then Some (Inr r, k1)
      else if err = SSL_ERROR_WANT_READ then
        (case bio_read ssl wr dl k1 of
           None \<Rightarrow> None
         | Some fl \<Rightarrow>
             (case fst fl of
                Inl e \<Rightarrow> Some (Inl e, snd fl)
              | Inr u \<Rightarrow>
                  (case bio_write ssl rd dl (snd fl) of
                     None \<Rightarrow> None
                   | Some g \<Rightarrow>
                       (case fst g of
                          Inl e \<Rightarrow> Some (Inl e, snd g)
                        | Inr n \<Rightarrow>
                            if n = 0 then Some (Inr (0, []), snd g)
                            else f ssl rd wr dl oper (snd g)))))
      else if err = SSL_ERROR_WANT_WRITE then
        (case bio_read ssl wr dl k1 of
           None \<Rightarrow> None
         | Some fl \<Rightarrow>
             (case fst fl of
                Inl e \<Rightarrow> Some (Inl e, snd fl)
              | Inr u \<Rightarrow> f ssl rd wr dl oper (snd fl)))
      else if err = SSL_ERROR_ZERO_RETURN then Some (Inr (0, []), k1)
      else Some (Inl (RuntimeError (''Unknown openssl error '' @ to_digits (nat err))), k1)) = Some q"
    obtain r k1 where op: "oper k = (r, k1)" by (cases "oper k")
    show "?P oper q"
      using eq op
      by (auto simp: Let_def split: if_splits option.splits sum.splits dest: IH)
  qed
  then show ?thesis by simp
qed

lemma tls_read_bound:
  "tls_read_some ssl rd wr dl n k = Some (Inr bs, k') \<Longrightarrow> length bs \<le> n"
  by (auto simp: tls_read_some_def io_bind_def sys_ssl_read_def
      dest!: service_operation_from_op split: option.splits prod.splits sum.splits if_splits)

interpretation tls_reader: byte_reader "tls_read_some ssl rd wr"
  by unfold_locales (rule tls_read_bound)

end
