(* ===== verification/Conveniences.thy ===== *)
theory Conveniences
  imports Tls
begin

text \<open>
  What the convenience layer gives on top of the poll warden: exact reads, lines, complete
  writes, connecting by name, the stream of accepted connections, and a write through TLS.
  The other side of a socket is described by \<open>peer_sends\<close> and \<open>peer_takes\<close>: what the kernel
  is documented to do with the bytes of a connection, whatever happens while a task waits.
\<close>

subsection \<open>The peer of a socket\<close>

definition peer_sends ::
  "'k posix_os \<Rightarrow> 'k park \<Rightarrow> fd \<Rightarrow> ('k \<Rightarrow> byte list) \<Rightarrow> bool" where
  "peer_sends os park f pending \<longleftrightarrow>
     (\<forall>n k bs k'. os_read os f n k = (Some bs, k') \<longrightarrow>
        pending k = take n bs @ pending k' \<and> (0 < n \<and> bs = [] \<longrightarrow> pending k = [])) \<and>
     (\<forall>n k k'. os_read os f n k = (None, k') \<longrightarrow> pending k' = pending k) \<and>
     (\<forall>k r k'. park k = Some (r, k') \<longrightarrow> pending k' = pending k)"

definition peer_takes ::
  "'k posix_os \<Rightarrow> 'k park \<Rightarrow> fd \<Rightarrow> ('k \<Rightarrow> byte list) \<Rightarrow> bool" where
  "peer_takes os park f sent \<longleftrightarrow>
     (\<forall>bs k n k'. os_write os f bs k = (Some n, k') \<longrightarrow> sent k' = sent k @ take n bs) \<and>
     (\<forall>bs k k'. os_write os f bs k = (None, k') \<longrightarrow> sent k' = sent k) \<and>
     (\<forall>k r k'. park k = Some (r, k') \<longrightarrow> sent k' = sent k)"

lemma await_read_keeps:
  assumes law: "peer_sends os park f pending"
    and run: "await_iop os park (ReadSome f n) dl k = Some (x, k')"
  shows "(\<exists>k1. pending k1 = pending k \<and> attempt os (ReadSome f n) dl k1 = (Some x, k')) \<or>
    x = fail ETIME ''IOP timed out'' (fresh_completion (ReadSome f n) dl) \<and> pending k' = pending k"
proof (rule await_iop_keeps [OF run, of "\<lambda>k1. pending k1 = pending k"])
  fix k1 k2
  assume "pending k1 = pending k" "attempt os (ReadSome f n) dl k1 = (None, k2)"
  with law show "pending k2 = pending k"
    by (auto simp: attempt_read_eq peer_sends_def Let_def split: prod.splits option.splits)
qed (use law in \<open>auto simp: peer_sends_def\<close>)

lemma await_write_keeps:
  assumes law: "peer_takes os park f sent"
    and run: "await_iop os park (WriteSome f bs) dl k = Some (x, k')"
  shows "(\<exists>k1. sent k1 = sent k \<and> attempt os (WriteSome f bs) dl k1 = (Some x, k')) \<or>
    x = fail ETIME ''IOP timed out'' (fresh_completion (WriteSome f bs) dl) \<and> sent k' = sent k"
proof (rule await_iop_keeps [OF run, of "\<lambda>k1. sent k1 = sent k"])
  fix k1 k2
  assume "sent k1 = sent k" "attempt os (WriteSome f bs) dl k1 = (None, k2)"
  with law show "sent k2 = sent k"
    by (auto simp: attempt_write_eq peer_takes_def Let_def split: prod.splits option.splits)
qed (use law in \<open>auto simp: peer_takes_def\<close>)

lemma poll_reads_stream:
  assumes law: "peer_sends os park f pending"
  shows "reads_stream (poll_read os park f) pending"
proof (rule poll_reader.stream_reader)
  fix dl n k bs k'
  assume "poll_read os park f dl n k = Some (Inr bs, k')"
  then obtain x v where w: "await_iop os park (ReadSome f n) dl k = Some (x, k')"
      and v: "iop_value x = Inr v" and bs: "bs = filled x"
    by (auto simp: poll_read_def split: option.splits sum.splits)
  have "x \<noteq> fail e m (fresh_completion (ReadSome f n) dl)" for e m
    using v iop_value_fail [of "fresh_completion (ReadSome f n) dl" e m] by auto
  with await_read_keeps [OF law w] obtain k1 where k1: "pending k1 = pending k"
      "attempt os (ReadSome f n) dl k1 = (Some x, k')" by blast
  then obtain ys where "os_read os f n k1 = (Some ys, k')" "bs = take n ys"
    using bs \<open>\<And>e m. x \<noteq> fail e m _\<close>
    by (auto simp: attempt_read_eq succeed_def Let_def split: prod.splits option.splits if_splits)
  with law k1(1) show "pending k = bs @ pending k' \<and> (0 < n \<and> bs = [] \<longrightarrow> pending k = [])"
    unfolding peer_sends_def by (metis less_irrefl take_eq_Nil)
next
  fix dl n k e k'
  assume "poll_read os park f dl n k = Some (Inl e, k')"
  then obtain x where w: "await_iop os park (ReadSome f n) dl k = Some (x, k')"
      and v: "iop_value x = Inl e"
    by (auto simp: poll_read_def split: option.splits sum.splits)
  from await_read_keeps [OF law w] show "pending k' = pending k"
  proof (elim disjE exE conjE)
    fix k1
    assume k1: "pending k1 = pending k" "attempt os (ReadSome f n) dl k1 = (Some x, k')"
    with v have "os_read os f n k1 = (None, k')"
      by (auto simp: attempt_read_eq iop_value_succeed Let_def split: prod.splits option.splits)
    with law k1(1) show "pending k' = pending k" by (auto simp: peer_sends_def)
  qed
qed

lemma poll_writes_sink:
  assumes law: "peer_takes os park f sent"
  shows "writes_sink (poll_write os park f) sent"
proof (rule poll_writer.sink_writer)
  fix dl bs k n k'
  assume "poll_write os park f dl bs k = Some (Inr n, k')"
  then obtain x where w: "await_iop os park (WriteSome f bs) dl k = Some (x, k')"
      and v: "iop_value x = Inr (Some (RSize n))"
    by (auto simp: poll_write_def split: option.splits sum.splits ret.splits)
  have nf: "x \<noteq> fail e m (fresh_completion (WriteSome f bs) dl)" for e m
    using v iop_value_fail [of "fresh_completion (WriteSome f bs) dl" e m] by auto
  with await_write_keeps [OF law w] obtain k1 where k1: "sent k1 = sent k"
      "attempt os (WriteSome f bs) dl k1 = (Some x, k')" by blast
  then obtain m where "os_write os f bs k1 = (Some m, k')" "n = min m (length bs)"
    using v nf
    by (auto simp: attempt_write_eq iop_value_succeed Let_def split: prod.splits option.splits if_splits)
  with law k1(1) show "sent k' = sent k @ take n bs"
    by (auto simp: peer_takes_def min_def)
next
  fix dl bs k e k'
  assume "poll_write os park f dl bs k = Some (Inl e, k')"
  then obtain x where w: "await_iop os park (WriteSome f bs) dl k = Some (x, k')"
      and v: "\<forall>n. iop_value x \<noteq> Inr (Some (RSize n))"
    by (auto simp: poll_write_def split: option.splits sum.splits ret.splits)
  from await_write_keeps [OF law w] show "sent k' = sent k"
  proof (elim disjE exE conjE)
    fix k1
    assume k1: "sent k1 = sent k" "attempt os (WriteSome f bs) dl k1 = (Some x, k')"
    with v have "os_write os f bs k1 = (None, k')"
      by (auto simp: attempt_write_eq iop_value_succeed Let_def split: prod.splits option.splits)
    with law k1(1) show "sent k' = sent k" by (auto simp: peer_takes_def)
  qed
qed

subsection \<open>Reading\<close>

text \<open>C25: Reading exactly \<open>n\<close> bytes of a socket gives the next \<open>n\<close> bytes of what the peer sends, in
  order and none twice, or all that was left when the stream ended before; what follows stays
  unread. If a read throws (an error, the deadline), its exception comes out, and fewer than
  \<open>n\<close> bytes have been taken. It only fails to return when one of its reads never does.\<close>

theorem read_exactly_prefix:
  assumes "peer_sends os park f pending"
  shows "case read_exactly (poll_read os park f) dl n [] k of
           None \<Rightarrow> \<exists>m k1. 0 < m \<and> m \<le> n \<and> poll_read os park f dl m k1 = None
         | Some (Inr bs, k') \<Rightarrow> bs = take n (pending k) \<and> pending k' = drop n (pending k)
         | Some (Inl e, k') \<Rightarrow>
             (\<exists>m<n. pending k' = drop m (pending k)) \<and>
             (\<exists>m k1. 0 < m \<and> m \<le> n \<and> poll_read os park f dl m k1 = Some (Inl e, k'))"
  using read_exactly_stream [OF poll_reads_stream [OF assms], of dl n "[]" k]
  unfolding exactly_outcome_def append_Nil .

text \<open>A kernel whose state is what the peer will still send, two bytes at most at a time.\<close>

definition drip_os :: "byte list posix_os" where
  "drip_os = quiet_os\<lparr>os_read := (\<lambda>f n k. (Some (take (min 2 n) k), drop (min 2 n) k))\<rparr>"

lemma drip_sends: "peer_sends drip_os (\<lambda>k. Some (Some (), k)) 5 (\<lambda>k. k)"
  by (auto simp: peer_sends_def drip_os_def quiet_os_def min_def)

lemma poll_read_now:
  "os_read os f n k = (Some bs, k') \<Longrightarrow>
   poll_read os park f dl n k = Some (Inr (take n bs), k')"
  by (subst poll_read_def, subst await_iop.simps)
    (simp add: attempt_read_eq iop_value_succeed Let_def, simp add: succeed_def)

lemma drip_read:
  "poll_read drip_os park f dl n k = Some (Inr (take (min 2 n) k), drop (min 2 n) k)"
  by (subst poll_read_now) (auto simp: drip_os_def quiet_os_def)

theorem read_exactly_prefix_witness:
  "read_exactly (poll_read drip_os (\<lambda>k. Some (Some (), k)) 5) None 3 [] [1, 2, 3, 4] =
     Some (Inr [1, 2, 3], [4])"
proof -
  have "\<exists>bs k'. read_exactly (poll_read drip_os (\<lambda>k. Some (Some (), k)) 5) None 3 [] [1, 2, 3, 4] =
      Some (Inr bs, k')"
    by (simp add: read_exactly.simps drip_read)
  with read_exactly_prefix [OF drip_sends, where dl = None and n = 3 and k = "[1, 2, 3, 4]"]
  show ?thesis by auto
qed

text \<open>C24: Reading a line loses nothing and invents nothing. What was buffered and what the peer
  still sends is, before, the line with its \<open>LF\<close> in front of the same afterwards, and the span
  handed out holds the line without \<open>LF\<close> and one final \<open>CR\<close>; or the empty span comes back, with
  everything read so far still buffered, when the stream has ended without another \<open>LF\<close> or the
  buffer has no room left. If a read throws, the buffer keeps what it had, so the call can be
  repeated. It only fails to return when one of its reads never does.\<close>

theorem read_line_outcome:
  assumes "peer_sends os park f pending" "buffer_ok b"
  shows "case read_until_lf_strip_cr (poll_read os park f) dl b k of
           None \<Rightarrow> \<exists>n k1. poll_read os park f dl n k1 = None
         | Some ((q, b'), k') \<Rightarrow>
             buffer_ok b' \<and>
             (case q of
                Inl e \<Rightarrow> content b @ pending k = content b' @ pending k' \<and>
                  (\<exists>n k1. poll_read os park f dl n k1 = Some (Inl e, k'))
              | Inr s \<Rightarrow>
                  (\<exists>line. content b @ pending k = line @ LF # content b' @ pending k' \<and>
                     LF \<notin> set line \<and> span_bytes b' s = strip line \<and> snd s = length (strip line)) \<or>
                  (s = (0, 0) \<and> content b @ pending k = content b' @ pending k' \<and>
                     LF \<notin> set (content b') \<and>
                     (pending k' = [] \<or> snd (empty_buffer b') = 0)))"
  using read_until_stream [OF poll_reads_stream [OF assms(1)] assms(2), of dl k]
  unfolding line_outcome_def .

theorem read_line_outcome_witness:
  "\<exists>s b'. read_until_lf_strip_cr (poll_read drip_os (\<lambda>k. Some (Some (), k)) 5) None
       (new_read_buffer 0 (replicate 8 0)) [104, 105, 13, 10, 33] = Some ((Inr s, b'), [33]) \<and>
     span_bytes b' s = [104, 105] \<and> content b' = []"
proof -
  let ?r = "read_until_lf_strip_cr (poll_read drip_os (\<lambda>k. Some (Some (), k)) 5) None
       (new_read_buffer 0 (replicate 8 0)) [104, 105, 13, 10, 33]"
  have r: "\<exists>b'. ?r = Some ((Inr (0, 2), b'), [33]) \<and> content b' = [] \<and>
      span_bytes b' (0, 2) = [104, 105]"
    by (simp add: read_until_lf_strip_cr.simps buffer_find_def content_def span_bytes_def
        new_read_buffer_def buffer_do_read_some_def drip_read remaining_def LF_def CR_def
        subspan_def overwrite_def take_line_def consume_def strip_cr_def Let_def)
  have ok: "buffer_ok (new_read_buffer 0 (replicate 8 0))" by (rule new_buffer_ok(1))
  from read_line_outcome [OF drip_sends ok, where dl = None and k = "[104, 105, 13, 10, 33]"]
  show ?thesis using r by auto
qed

text \<open>The empty span is said to mean that the descriptor has been closed. It is also what a
  buffer that is full without an \<open>LF\<close> gives: a read into no room gives nothing, while the
  connection is open and bytes are waiting, so a line longer than the buffer ends the stream.
  And a blank line is a span of no bytes too.\<close>

theorem empty_span_is_not_the_end:
  assumes "buffer_ok b"
  shows "(LF \<notin> set (content b) \<and> snd (empty_buffer b) = 0 \<and>
           poll_read os park f dl 0 k = Some (Inr bs, k') \<longrightarrow>
          read_until_lf_strip_cr (poll_read os park f) dl b k = Some ((Inr (0, 0), b), k')) \<and>
         (content b = LF # rest \<or> content b = CR # LF # rest \<longrightarrow>
          (\<exists>p b'. read_until_lf_strip_cr (poll_read os park f) dl b k = Some ((Inr (p, 0), b'), k) \<and>
             content b' = rest))"
proof (intro conjI impI)
  assume "LF \<notin> set (content b) \<and> snd (empty_buffer b) = 0 \<and>
           poll_read os park f dl 0 k = Some (Inr bs, k')"
  then show "read_until_lf_strip_cr (poll_read os park f) dl b k = Some ((Inr (0, 0), b), k')"
    by (intro poll_reader.full_buffer_ends_line)
      (auto simp: buffer_find_def content_def find_byte_None)
next
  assume blank: "content b = LF # rest \<or> content b = CR # LF # rest"
  then obtain line where f: "buffer_find LF b = Some line"
    by (auto simp: buffer_find_def content_def [symmetric] LF_def CR_def)
  obtain s b' where t: "take_line line b = (Inr s, b')"
    using consume_line_defined [OF assms f] by blast
  obtain ys where y: "content b = ys @ LF # content b'" "LF \<notin> set ys" "snd s = length (strip ys)"
    using take_line_ok [OF assms f t] by blast
  show "\<exists>p b'. read_until_lf_strip_cr (poll_read os park f) dl b k = Some ((Inr (p, 0), b'), k) \<and>
      content b' = rest"
  proof -
    from blank y(1,2) have "(ys = [] \<or> ys = [CR]) \<and> content b' = rest"
      by (auto simp: append_eq_Cons_conv Cons_eq_append_conv LF_def CR_def)
    then have "s = (fst s, 0) \<and> content b' = rest"
      using y(3) by (auto simp: strip_def prod_eq_iff)
    moreover have "read_until_lf_strip_cr (poll_read os park f) dl b k = Some ((Inr s, b'), k)"
      using f t by (simp add: read_until_lf_strip_cr.simps)
    ultimately show ?thesis by metis
  qed
qed

theorem empty_span_is_not_the_end_witness:
  "read_until_lf_strip_cr (poll_read drip_os (\<lambda>k. Some (Some (), k)) 5) None
      (new_read_buffer 0 []) [104, 105, 10] = Some ((Inr (0, 0), new_read_buffer 0 []), [104, 105, 10])"
proof -
  have ok: "buffer_ok (new_read_buffer 0 [])" by (rule new_buffer_ok(1))
  have "poll_read drip_os (\<lambda>k. Some (Some (), k)) 5 None 0 [104, 105, 10] = Some (Inr [], [104, 105, 10])"
    by (simp add: drip_read)
  with empty_span_is_not_the_end [OF ok, where os = drip_os and park = "\<lambda>k. Some (Some (), k)" and f = 5
      and dl = None and k = "[104, 105, 10]" and bs = "[]" and k' = "[104, 105, 10]"]
  show ?thesis by (simp add: new_buffer_ok) (simp add: new_read_buffer_def)
qed

subsection \<open>The buffer\<close>



text \<open>Moving a read buffer to new storage and back is the identity, wherever its spans point: the
  offsets are recomputed exactly.\<close>

theorem move_buffer_round_trip:
  "move_read_buffer (base b) a (move_read_buffer a (base b) b) = b"
  by (simp add: move_read_buffer_def recalculate_def)

text \<open>Room that was consumed is not used again while bytes are left: a buffer that a read has
  filled up to part of a line, with lines before it, reports the end of the stream for that line
  once these are taken, although most of its storage is free again and the rest of the line is
  waiting on the open connection. A line is lost however short it is.\<close>

theorem consumed_room_not_reused:
  assumes ok: "buffer_ok b" and full: "snd (empty_buffer b) = 0"
    and c: "content b = line @ LF # part" "LF \<notin> set line" "LF \<notin> set part" "part \<noteq> []"
    and rd: "poll_read os park f dl' 0 k = Some (Inr bs, k')"
  shows "\<exists>s b'. read_until_lf_strip_cr (poll_read os park f) dl b k = Some ((Inr s, b'), k) \<and>
    span_bytes b' s = strip line \<and> content b' = part \<and>
    read_until_lf_strip_cr (poll_read os park f) dl' b' k = Some ((Inr (0, 0), b'), k')"
proof -
  obtain i where f: "buffer_find LF b = Some i"
    using find_byte_None [of LF "content b"] c(1) by (auto simp: buffer_find_def content_def)
  obtain s b' where t: "take_line i b = (Inr s, b')"
    using consume_line_defined [OF ok f] by blast
  obtain ys where y: "content b = ys @ LF # content b'" "LF \<notin> set ys" "span_bytes b' s = strip ys"
    using take_line_ok [OF ok f t] by blast
  have "ys = line \<and> content b' = part"
    using append_Cons_eq_iff [OF c(2,3)] c(1) y(1) by metis
  moreover have "snd (empty_buffer b') = 0"
  proof -
    obtain s0 where cs: "consume (i + 1) b = Inr (s0, b')"
      using t by (auto simp: take_line_def split: sum.splits)
    have "length (content b') \<noteq> 0" using \<open>ys = line \<and> content b' = part\<close> c(4) by simp
    with cs full show ?thesis
      by (auto simp: consume_def content_def span_bytes_def Let_def split: if_splits)
  qed
  moreover have "buffer_find LF b' = None"
    using \<open>ys = line \<and> content b' = part\<close> c(3)
    by (simp add: buffer_find_def find_byte_None content_def [symmetric])
  ultimately show ?thesis
    using f t y(3) poll_reader.full_buffer_ends_line [OF _ _ rd]
    by (auto simp: read_until_lf_strip_cr.simps [of _ _ b])
qed

theorem consumed_room_not_reused_witness:
  "\<exists>b1 b2. read_until_lf_strip_cr (poll_read drip_os (\<lambda>k. Some (Some (), k)) 5) None
      \<lparr>base = 0, storage = [97, 10, 98, 99], data_read = (0, 4), empty_buffer = (4, 0)\<rparr> [10, 100] =
      Some ((Inr b1, b2), [10, 100]) \<and>
    read_until_lf_strip_cr (poll_read drip_os (\<lambda>k. Some (Some (), k)) 5) None b2 [10, 100] =
      Some ((Inr (0, 0), b2), [10, 100])"
proof -
  let ?b = "\<lparr>base = 0, storage = [97, 10, 98, 99], data_read = (0, 4), empty_buffer = (4, 0)\<rparr>"
  have ok: "buffer_ok ?b" by (simp add: buffer_ok_def)
  have rd: "poll_read drip_os (\<lambda>k. Some (Some (), k)) 5 None 0 [10, 100] = Some (Inr [], [10, 100])"
    by (simp add: drip_read)
  have "content ?b = [97] @ LF # [98, 99]" by (simp add: content_def span_bytes_def LF_def)
  from consumed_room_not_reused [OF ok _ this _ _ _ rd, of None] show ?thesis
    by (auto simp: LF_def)
qed

subsection \<open>Writing\<close>

text \<open>\<open>write_all\<close> sends a prefix of the buffer, in order and no byte twice, and its result is the
  length of that prefix; it is the whole buffer unless a write has moved nothing. If a write
  throws, its exception comes out with a proper prefix sent. It only fails to return when one
  of its writes never does.\<close>

theorem write_all_prefix:
  assumes "peer_takes os park f sent"
  shows "case write_all (poll_write os park f) dl out 0 k of
           None \<Rightarrow> \<exists>i k1. i < length out \<and> poll_write os park f dl (drop i out) k1 = None
         | Some (Inr n, k') \<Rightarrow>
             n \<le> length out \<and> sent k' = sent k @ take n out \<and>
             (n = length out \<or> (\<exists>k1. poll_write os park f dl (drop n out) k1 = Some (Inr 0, k')))
         | Some (Inl e, k') \<Rightarrow>
             \<exists>i k1. i < length out \<and> sent k' = sent k @ take i out \<and>
               poll_write os park f dl (drop i out) k1 = Some (Inl e, k')"
proof -
  have "write_outcome (poll_write os park f) dl sent out 0 k (write_all (poll_write os park f) dl out 0 k)"
    by (rule write_all_sink [OF poll_writes_sink [OF assms]])
  then show ?thesis
    by (cases "write_all (poll_write os park f) dl out 0 k")
      (fastforce simp: write_outcome_def split: sum.splits)+
qed

text \<open>A kernel that takes two bytes at a time; its state is what it has taken.\<close>

definition sip_os :: "byte list posix_os" where
  "sip_os = quiet_os\<lparr>os_write := (\<lambda>f bs k. (Some (min 2 (length bs)), k @ take 2 bs))\<rparr>"

lemma sip_takes: "peer_takes sip_os (\<lambda>k. Some (Some (), k)) 5 (\<lambda>k. k)"
  by (auto simp: peer_takes_def sip_os_def quiet_os_def min_def)

lemma poll_write_now:
  "os_write os f bs k = (Some n, k') \<Longrightarrow>
   poll_write os park f dl bs k = Some (Inr (min n (length bs)), k')"
  by (subst poll_write_def, subst await_iop.simps)
    (simp add: attempt_write_eq iop_value_succeed Let_def)

lemma sip_write:
  "poll_write sip_os park f dl bs k = Some (Inr (min 2 (length bs)), k @ take 2 bs)"
  by (subst poll_write_now [where n = "min 2 (length bs)"]) (auto simp: sip_os_def quiet_os_def)

theorem write_all_prefix_witness:
  "write_all (poll_write sip_os (\<lambda>k. Some (Some (), k)) 5) None [1, 2, 3, 4, 5] 0 [] =
     Some (Inr 5, [1, 2, 3, 4, 5])"
proof -
  have "\<exists>k'. write_all (poll_write sip_os (\<lambda>k. Some (Some (), k)) 5) None [1, 2, 3, 4, 5] 0 [] =
      Some (Inr 5, k')"
    by (simp add: write_all.simps sip_write)
  with write_all_prefix [OF sip_takes, where dl = None and out = "[1, 2, 3, 4, 5]" and k = "[]"]
  show ?thesis by auto
qed

subsection \<open>Connecting and accepting\<close>

lemma length_failures: "failures tr as k = Some (es, k') \<Longrightarrow> length es = length as"
  by (induction tr as k arbitrary: es rule: failures.induct)
    (auto split: option.splits sum.splits prod.splits)

lemma connect_hosts_None:
  "connect_hosts tr hostname as ep k = None \<Longrightarrow> \<exists>a k1. a \<in> set as \<and> tr a k1 = None"
  by (induction tr hostname as ep k rule: connect_hosts.induct)
    (fastforce split: option.splits sum.splits)+


text \<open>The stream of accepted connections hands on every connection and throws what an awaited
  \<open>accept\<close> throws. Its loop ends the stream when the result is \<open>-EBADF\<close>; but the poll warden
  gives the return value of the call, which is \<open>-1\<close>, so closing the listening socket makes the
  stream throw \<open>EPERM\<close> and it never ends.\<close>

theorem accept_stream_never_ends:
  assumes "os_accept4 os f k = (r, k1)" "r \<ge> -1"
  shows "case attempt os (Accept f) dl k of
           (None, k') \<Rightarrow> r < 0 \<and> would_block (os_errno os k1)
         | (Some x, k') \<Rightarrow> k' = k1 \<and> accept_next (accepted x) \<noteq> EndOfStream \<and>
             (r \<ge> 0 \<longrightarrow> accept_next (accepted x) = Yield r) \<and>
             (r < 0 \<and> bad_fd (os_errno os k1) \<longrightarrow>
                accept_next (accepted x) = Throw (SystemError EPERM ''accept''))"
  using assms
  by (auto simp: attempt_def fresh_completion_def try_or_resume_obj_def accept_try_or_resume_def
      cancel_timeout_then_resume_def succeed_def fail_def Let_def get_error_def store_def
      cancel_timeout_def start_warden_def push_read_def req_upd_def iop_value_def outcome_defs
      accept_next_def bad_fd_def would_block_def
      split: prod.splits option.splits if_splits)

definition closed_os :: "nat posix_os" where
  "closed_os = quiet_os\<lparr>os_errno := (\<lambda>k. EBADF)\<rparr>"

theorem accept_stream_never_ends_witness:
  "\<exists>x. attempt closed_os (Accept 5) None 0 = (Some x, 0) \<and>
     accept_next (accepted x) = Throw (SystemError 1 ''accept'')"
proof -
  have a: "os_accept4 closed_os 5 0 = (-1, 0)" by (simp add: closed_os_def quiet_os_def)
  have "(-1::int) \<ge> -1" by simp
  from accept_stream_never_ends [OF a this, of None] show ?thesis
    by (auto simp: closed_os_def quiet_os_def bad_fd_def would_block_def split: prod.splits option.splits)
qed

subsection \<open>TLS\<close>

text \<open>A TLS write that OpenSSL accepts at once returns its length without having touched the
  socket: the record is left in the network BIO, and goes out only when a later operation wants
  to read or write. A task that writes last and then waits or ends has not sent its data.\<close>

theorem tls_write_leaves_ciphertext:
  assumes "ssl_write ssl bs k = (r, k1)" "0 < r" "ssl_get_error ssl r k1 = SSL_ERROR_NONE"
    and "sent k1 = sent k"
  shows "\<exists>k'. tls_write_some ssl rd wr dl bs k = Some (Inr (nat r), k') \<and> sent k' = sent k \<and>
    bio_pending ssl k' = bio_pending ssl k1"
  using assms by (simp add: tls_write_some_def io_bind_def service_operation.simps)

text \<open>OpenSSL in memory, with the identity for a cipher: the state is the network BIO and what the
  socket has taken.\<close>

definition mem_ssl :: "(byte list \<times> byte list) openssl" where
  "mem_ssl = \<lparr>
     ssl_new = (\<lambda>f k. k), ssl_free = (\<lambda>k. k), ssl_set_host = (\<lambda>h k. k),
     ssl_connect = (\<lambda>k. (1, k)), ssl_read = (\<lambda>n k. (None, 0, k)),
     ssl_write = (\<lambda>bs (nb, out). (int (length bs), (nb @ bs, out))),
     ssl_get_error = (\<lambda>r k. if 0 < r then 0 else 6),
     bio_pending = (\<lambda>(nb, out). length nb),
     bio_take = (\<lambda>n (nb, out). (int n, take n nb, (drop n nb, out))),
     bio_put = (\<lambda>bs k. (int (length bs), k))\<rparr>"

theorem tls_write_leaves_ciphertext_witness:
  "\<exists>k'. tls_write_some mem_ssl (\<lambda>dl n k. None) (\<lambda>dl bs k. None) None [7, 8] ([], []) =
      Some (Inr 2, k') \<and> snd k' = [] \<and> 0 < bio_pending mem_ssl k'"
proof -
  have "ssl_write mem_ssl [7, 8] ([], []) = (2, ([7, 8], []))" "(0::int) < 2"
    "ssl_get_error mem_ssl 2 ([7, 8], []) = SSL_ERROR_NONE"
    "snd ([7, 8] :: byte list, [] :: byte list) = snd ([] :: byte list, [] :: byte list)"
    by (simp_all add: mem_ssl_def)
  note tls_write_leaves_ciphertext [OF this, of "\<lambda>dl n k. None" "\<lambda>dl bs k. None" None]
  then show ?thesis by (auto simp: mem_ssl_def)
qed

text \<open>C29: \<open>tls::connect\<close> does not look at the result of the handshake. When the peer closes the
  connection while OpenSSL waits for its answer, the handshake ends with \<open>0\<close>, nothing is thrown,
  and the caller gets a connection like after a handshake that succeeded.\<close>

theorem tls_connect_hides_closed_peer:
  assumes "connect_address os park dl a k = Some (Inr f, k1)"
    and "ssl_connect ssl (ssl_set_host ssl host (ssl_new ssl f k1)) = (r, k3)"
    and "ssl_get_error ssl r k3 = SSL_ERROR_WANT_READ"
    and "bio_read ssl (poll_write os park f) dl k3 = Some (Inr (), k4)"
    and "poll_read os park f dl buffer_size k4 = Some (Inr [], k5)"
  shows "tls_connect os park ssl host dl a k = Some (Inr f, k5)"
  using assms by (simp add: tls_connect_def io_bind_def service_operation.simps bio_write_def)

text \<open>A peer that accepts the connection and closes it at once.\<close>

definition closing_os :: "nat posix_os" where
  "closing_os = quiet_os\<lparr>os_connect := (\<lambda>f a k. (0, k)), os_read := (\<lambda>f n k. (Some [], k))\<rparr>"

definition waiting_ssl :: "nat openssl" where
  "waiting_ssl = \<lparr>
     ssl_new = (\<lambda>f k. k), ssl_free = (\<lambda>k. k), ssl_set_host = (\<lambda>h k. k),
     ssl_connect = (\<lambda>k. (-1, k)), ssl_read = (\<lambda>n k. (None, -1, k)),
     ssl_write = (\<lambda>bs k. (-1, k)), ssl_get_error = (\<lambda>r k. 2), bio_pending = (\<lambda>k. 0),
     bio_take = (\<lambda>n k. (-1, [], k)), bio_put = (\<lambda>bs k. (int (length bs), k))\<rparr>"

theorem tls_connect_hides_closed_peer_witness:
  "tls_connect closing_os (\<lambda>k. Some (Some (), k)) waiting_ssl ''host'' None some_addr 0 = Some (Inr 5, 0)"
proof (rule tls_connect_hides_closed_peer)
  show "connect_address closing_os (\<lambda>k. Some (Some (), k)) None some_addr 0 = Some (Inr 5, 0)"
    by (simp add: connect_address_def create_socket_def do_prepare_socket_def set_non_blocking_def
        poll_connect_def connect_await_suspend_def closing_os_def quiet_os_def fresh_completion_def
        store_def start_warden_def iop_value_def value_void_def no_outcome_def Let_def)
  show "ssl_connect waiting_ssl (ssl_set_host waiting_ssl ''host'' (ssl_new waiting_ssl 5 0)) = (-1, 0)"
    by (simp add: waiting_ssl_def)
  show "ssl_get_error waiting_ssl (-1) 0 = SSL_ERROR_WANT_READ" by (simp add: waiting_ssl_def)
  show "bio_read waiting_ssl (poll_write closing_os (\<lambda>k. Some (Some (), k)) 5) None 0 = Some (Inr (), 0)"
    by (simp add: bio_read_def waiting_ssl_def)
  show "poll_read closing_os (\<lambda>k. Some (Some (), k)) 5 None buffer_size 0 = Some (Inr [], 0)"
    by (subst poll_read_now) (auto simp: closing_os_def quiet_os_def)
qed

end
