(* ===== verification/EventLoopTasks.thy ===== *)
theory EventLoopTasks
  imports TaskRefinement Conveniences
begin

text \<open>
  The readers and writers of \<open>read.hpp\<close> and \<open>write.hpp\<close> in the event loop. Each is given as the
  coroutine the loop of the poll warden runs, step by step; it does what the function of the task
  model does, so what \<open>Conveniences\<close> proves of these holds of runs of the whole program: the
  coroutine, the IOPs, the request map, the time outs and the loop.
\<close>

subsection \<open>Waiting for the same side of a descriptor\<close>

lemma poll_wait_mono:
  assumes same: "wait_round os rfd kd dl = wait_round os rfd kd2 dl"
    and run: "poll_wait os rfd kd dl k = Some r"
  shows "poll_wait os rfd kd2 dl k = Some r"
proof -
  let ?P = "\<lambda>os' rfd' kd' dl' k r. wait_round os' rfd' kd' dl' = wait_round os' rfd' kd2 dl' \<longrightarrow>
      poll_wait os' rfd' kd2 dl' k = Some r"
  have "?P os rfd kd dl k r"
  proof (rule poll_wait.raw_induct [where P = ?P, OF _ run])
    fix g os' rfd' kd' dl' k r
    assume IH: "\<And>os' rfd' kd' dl' k r. g os' rfd' kd' dl' k = Some r \<Longrightarrow> ?P os' rfd' kd' dl' k r"
      and eq: "(case wait_round os' rfd' kd' dl' k of
        None \<Rightarrow> None
      | Some (TimedOut, k1) \<Rightarrow> Some (None, k1)
      | Some (PollFails e, k1) \<Rightarrow> None
      | Some (Again, k1) \<Rightarrow> g os' rfd' kd' dl' k1
      | Some (Ready, k1) \<Rightarrow> Some (Some (), k1)) = Some r"
    show "?P os' rfd' kd' dl' k r"
    proof
      assume s: "wait_round os' rfd' kd' dl' = wait_round os' rfd' kd2 dl'"
      have again: "g os' rfd' kd' dl' k1 = Some r \<Longrightarrow> poll_wait os' rfd' kd2 dl' k1 = Some r" for k1
        using IH s by blast
      show "poll_wait os' rfd' kd2 dl' k = Some r"
        by (subst poll_wait.simps)
          (use eq s in \<open>auto simp: again split: option.splits round.splits\<close>)
    qed
  qed
  with same show ?thesis by blast
qed

lemma poll_wait_cong:
  assumes "wait_round os rfd kd dl = wait_round os rfd kd2 dl"
  shows "poll_wait os rfd kd dl = poll_wait os rfd kd2 dl"
proof
  fix k
  show "poll_wait os rfd kd dl k = poll_wait os rfd kd2 dl k"
    using poll_wait_mono [OF assms] poll_wait_mono [OF assms [symmetric]]
    by (metis not_None_eq)
qed

definition read_wait :: "'k posix_os \<Rightarrow> fd \<Rightarrow> fd \<Rightarrow> ns option \<Rightarrow> 'k park" where
  "read_wait os rfd f dl = poll_wait os rfd (ReadSome f 0) dl"

definition write_wait :: "'k posix_os \<Rightarrow> fd \<Rightarrow> fd \<Rightarrow> ns option \<Rightarrow> 'k park" where
  "write_wait os rfd f dl = poll_wait os rfd (WriteSome f []) dl"

lemma round_for:
  assumes "waits_on kd = waits_on kd2" "(read_side kd = None) = (read_side kd2 = None)"
  shows "wait_round os rfd kd dl = wait_round os rfd kd2 dl"
proof -
  have "wakes kd = wakes kd2" "wanted 0 kd = wanted 0 kd2"
    using assms(2) by (simp_all add: fun_eq_iff wakes_def wanted_def)
  then have "poll_round os rfd kd = poll_round os rfd kd2"
    by (intro ext) (simp only: poll_round_def assms(1))
  then show ?thesis by (intro ext, cases dl) (simp_all add: wait_round_def split: prod.split)
qed

lemma wait_for_read: "poll_wait os rfd (ReadSome f n) dl = read_wait os rfd f dl"
  unfolding read_wait_def
  by (rule poll_wait_cong, rule round_for) simp_all

lemma wait_for_write: "poll_wait os rfd (WriteSome f bs) dl = write_wait os rfd f dl"
  unfolding write_wait_def
  by (rule poll_wait_cong, rule round_for) simp_all

subsection \<open>The coroutines\<close>

definition read_value :: "completion \<Rightarrow> exn + byte list" where
  "read_value x = (case iop_value x of Inl e \<Rightarrow> Inl e | Inr v \<Rightarrow> Inr (filled x))"

definition write_value :: "completion \<Rightarrow> exn + nat" where
  "write_value x =
     (case iop_value x of
        Inl e \<Rightarrow> Inl e
      | Inr (Some (RSize n)) \<Rightarrow> Inr n
      | Inr _ \<Rightarrow> Inl (Undefined ''write_some''))"

function read_steps :: "fd \<Rightarrow> ns option \<Rightarrow> nat \<Rightarrow> byte list \<Rightarrow> (exn + byte list) steps" where
  "read_steps f dl n acc =
     (if n = 0 then Return (Inr acc)
      else AwaitIop (ReadSome f n) dl
        (\<lambda>x. case read_value x of
               Inl e \<Rightarrow> Return (Inl e)
             | Inr bs \<Rightarrow>
                 if bs = [] then Return (Inr acc)
                 else if n < length bs then Return (Inl (Undefined ''subspan''))
                 else read_steps f dl (n - length bs) (acc @ bs)))"
  by pat_completeness auto
termination
  by (relation "measure (\<lambda>(f, dl, n, acc). n)") auto

function write_steps :: "fd \<Rightarrow> ns option \<Rightarrow> byte list \<Rightarrow> nat \<Rightarrow> (exn + nat) steps" where
  "write_steps f dl out written =
     (if out = [] then Return (Inr written)
      else AwaitIop (WriteSome f out) dl
        (\<lambda>x. case write_value x of
               Inl e \<Rightarrow> Return (Inl e)
             | Inr bytes \<Rightarrow>
                 if bytes = 0 then Return (Inr written)
                 else if length out < bytes then Return (Inl (Undefined ''subspan''))
                 else write_steps f dl (drop bytes out) (written + bytes)))"
  by pat_completeness auto
termination
  by (relation "measure (\<lambda>(f, dl, out, written). length out)") auto

text \<open>What a read that gave \<open>r\<close> does to the buffer.\<close>

definition buffer_after ::
  "ns option \<Rightarrow> read_buffer \<Rightarrow> exn + byte list \<Rightarrow> (exn + nat) \<times> read_buffer" where
  "buffer_after dl b r = fst (the (buffer_do_read_some (\<lambda>dl n k. Some (r, k)) dl b ()))"

lemma buffer_do_read_after:
  "buffer_do_read_some rd dl b k =
     map_option (\<lambda>(r, k1). (buffer_after dl b r, k1)) (rd dl (snd (remaining b)) k)"
  by (auto simp: buffer_do_read_some_def buffer_after_def Let_def split: option.split sum.split)

lemma buffer_after_shrinks:
  "fst (buffer_after dl b r) = Inr n \<Longrightarrow> n \<noteq> 0 \<Longrightarrow>
   snd (empty_buffer (snd (buffer_after dl b r))) < snd (empty_buffer b)"
  by (rule buffer_read_shrinks [of "\<lambda>dl n k. Some (r, k)" dl b "()" n _ "()"])
    (auto simp: buffer_do_read_after prod_eq_iff)

function line_steps :: "fd \<Rightarrow> ns option \<Rightarrow> read_buffer \<Rightarrow> ((exn + span) \<times> read_buffer) steps" where
  "line_steps f dl b =
     (case buffer_find LF b of
        Some line \<Rightarrow> Return (take_line line b)
      | None \<Rightarrow>
          AwaitIop (ReadSome f (snd (remaining b))) dl
            (\<lambda>x. case fst (buffer_after dl b (read_value x)) of
                   Inl e \<Rightarrow> Return (Inl e, snd (buffer_after dl b (read_value x)))
                 | Inr n \<Rightarrow>
                     if n = 0 then Return (Inr (0, 0), snd (buffer_after dl b (read_value x)))
                     else line_steps f dl (snd (buffer_after dl b (read_value x)))))"
  by pat_completeness auto
termination
  by (relation "measure (\<lambda>(f, dl, b). snd (empty_buffer b))") (auto dest: buffer_after_shrinks)

declare read_steps.simps [simp del] write_steps.simps [simp del] line_steps.simps [simp del]

lemma read_steps_on: "steps_on f (read_steps f dl n acc)"
  by (induction f dl n acc rule: read_steps.induct)
    (subst read_steps.simps, auto split: sum.split)

lemma write_steps_on: "steps_on f (write_steps f dl out written)"
  by (induction f dl out written rule: write_steps.induct)
    (subst write_steps.simps, auto split: sum.split)

lemma line_steps_on: "steps_on f (line_steps f dl b)"
  by (induction f dl b rule: line_steps.induct)
    (subst line_steps.simps, auto split: sum.split prod.split option.split)

text \<open>They are the functions of the task model.\<close>

lemma poll_read_await:
  "poll_read os park f dl n k =
     map_option (\<lambda>(x, k1). (read_value x, k1)) (await_any os park (ReadSome f n) dl k)"
  by (auto simp: poll_read_def read_value_def await_any_blocking split: option.split sum.split)

lemma poll_write_await:
  "poll_write os park f dl bs k =
     map_option (\<lambda>(x, k1). (write_value x, k1)) (await_any os park (WriteSome f bs) dl k)"
  by (auto simp: poll_write_def write_value_def await_any_blocking split: option.split sum.split ret.split)

lemma read_steps_run:
  "run_steps os rfd (read_steps f dl n acc) k =
     read_exactly (poll_read os (read_wait os rfd f dl) f) dl n acc k"
proof (induction f dl n acc arbitrary: k rule: read_steps.induct)
  case (1 f dl n acc)
  show ?case
    by (subst read_steps.simps, subst read_exactly.simps)
      (use 1 in \<open>auto simp: poll_read_await [of os _ f dl n k] wait_for_read split: option.split sum.split\<close>)
qed

lemma write_steps_run:
  "run_steps os rfd (write_steps f dl out written) k =
     write_all (poll_write os (write_wait os rfd f dl) f) dl out written k"
proof (induction f dl out written arbitrary: k rule: write_steps.induct)
  case (1 f dl out written)
  show ?case
    by (subst write_steps.simps, subst write_all.simps)
      (use 1 in \<open>auto simp: poll_write_await [of os _ f dl out k] wait_for_write split: option.split sum.split\<close>)
qed

lemma line_steps_run:
  "run_steps os rfd (line_steps f dl b) k =
     read_until_lf_strip_cr (poll_read os (read_wait os rfd f dl) f) dl b k"
proof (induction f dl b arbitrary: k rule: line_steps.induct)
  case (1 f dl b)
  show ?case
    by (subst line_steps.simps, subst read_until_lf_strip_cr.simps)
      (use 1 in \<open>auto simp: buffer_do_read_after poll_read_await [of os _ f dl _ k] wait_for_read
        split: option.split sum.split prod.split\<close>)
qed

subsection \<open>Runs of the event loop\<close>

lemma loop_runs_steps:
  assumes "new_poll_warden os k0 = Inr w" "steps_on f p" "f \<noteq> wakeup_read w"
    and "run_until os (coroutine os p) 0 w = Some (Inr (), w')"
  shows "\<exists>a. returned p w' = Some a \<and> run_steps os (wakeup_read w) p (kern w) = Some (a, kern w')"
  using run_until_returns [OF assms] steps_event_loop [OF assms(1-3)] assms(4) by auto

text \<open>
  What the kernel does with the bytes of a connection, as \<open>peer_sends\<close> and \<open>peer_takes\<close> but for calls of
  the system only: the clock, \<open>poll\<close> and reading the self-pipe leave them alone.
\<close>

definition socket_sends :: "'k posix_os \<Rightarrow> fd \<Rightarrow> fd \<Rightarrow> ('k \<Rightarrow> byte list) \<Rightarrow> bool" where
  "socket_sends os rfd f pending \<longleftrightarrow>
     (\<forall>n k bs k'. os_read os f n k = (Some bs, k') \<longrightarrow>
        pending k = take n bs @ pending k' \<and> (0 < n \<and> bs = [] \<longrightarrow> pending k = [])) \<and>
     (\<forall>n k k'. os_read os f n k = (None, k') \<longrightarrow> pending k' = pending k) \<and>
     (\<forall>k t k'. os_now os k = (t, k') \<longrightarrow> pending k' = pending k) \<and>
     (\<forall>k ps t pr rv k'. os_poll os ps t k = (pr, rv, k') \<longrightarrow> pending k' = pending k) \<and>
     (\<forall>k n bs k'. os_read os rfd n k = (bs, k') \<longrightarrow> pending k' = pending k)"

definition socket_takes :: "'k posix_os \<Rightarrow> fd \<Rightarrow> fd \<Rightarrow> ('k \<Rightarrow> byte list) \<Rightarrow> bool" where
  "socket_takes os rfd f sent \<longleftrightarrow>
     (\<forall>bs k n k'. os_write os f bs k = (Some n, k') \<longrightarrow> sent k' = sent k @ take n bs) \<and>
     (\<forall>bs k k'. os_write os f bs k = (None, k') \<longrightarrow> sent k' = sent k) \<and>
     (\<forall>k t k'. os_now os k = (t, k') \<longrightarrow> sent k' = sent k) \<and>
     (\<forall>k ps t pr rv k'. os_poll os ps t k = (pr, rv, k') \<longrightarrow> sent k' = sent k) \<and>
     (\<forall>k n bs k'. os_read os rfd n k = (bs, k') \<longrightarrow> sent k' = sent k)"

lemma socket_sends_peer:
  assumes "socket_sends os rfd f pending"
  shows "peer_sends os (read_wait os rfd f dl) f pending"
proof -
  have "pending k' = pending k" if "read_wait os rfd f dl k = Some (r, k')" for k r k'
    by (rule poll_wait_keeps [OF that [unfolded read_wait_def], of "\<lambda>k1. pending k1 = pending k"])
      (use assms in \<open>auto simp: socket_sends_def\<close>)
  with assms show ?thesis unfolding peer_sends_def socket_sends_def by blast
qed

lemma socket_takes_peer:
  assumes "socket_takes os rfd f sent"
  shows "peer_takes os (write_wait os rfd f dl) f sent"
proof -
  have "sent k' = sent k" if "write_wait os rfd f dl k = Some (r, k')" for k r k'
    by (rule poll_wait_keeps [OF that [unfolded write_wait_def], of "\<lambda>k1. sent k1 = sent k"])
      (use assms in \<open>auto simp: socket_takes_def\<close>)
  with assms show ?thesis unfolding peer_takes_def socket_takes_def by blast
qed

lemma line_in_event_loop:
  assumes new: "new_poll_warden os k0 = Inr w" and f: "f \<noteq> wakeup_read w"
    and sends: "socket_sends os (wakeup_read w) f pending" and b: "buffer_ok b"
    and run: "run_until os (coroutine os (line_steps f dl b)) 0 w = Some (Inr (), w')"
  shows "\<exists>q b'. returned (line_steps f dl b) w' = Some (q, b') \<and> buffer_ok b' \<and>
    (case q of
       Inl e \<Rightarrow> content b @ pending (kern w) = content b' @ pending (kern w')
     | Inr s \<Rightarrow>
         (\<exists>line. content b @ pending (kern w) = line @ LF # content b' @ pending (kern w') \<and>
            LF \<notin> set line \<and> span_bytes b' s = strip line) \<or>
         (s = (0, 0) \<and> content b @ pending (kern w) = content b' @ pending (kern w') \<and>
            LF \<notin> set (content b') \<and> (pending (kern w') = [] \<or> snd (empty_buffer b') = 0)))"
proof -
  from loop_runs_steps [OF new line_steps_on f run] obtain q b' where
      "returned (line_steps f dl b) w' = Some (q, b')"
      "run_steps os (wakeup_read w) (line_steps f dl b) (kern w) = Some ((q, b'), kern w')" by auto
  with read_until_stream [OF poll_reads_stream [OF socket_sends_peer [OF sends]] b, of dl dl "kern w"]
  show ?thesis by (auto simp: line_steps_run line_outcome_def split: sum.splits)
qed

lemma read_in_event_loop:
  assumes new: "new_poll_warden os k0 = Inr w" and f: "f \<noteq> wakeup_read w"
    and sends: "socket_sends os (wakeup_read w) f pending"
    and run: "run_until os (coroutine os (read_steps f dl n [])) 0 w = Some (Inr (), w')"
  shows "\<exists>q. returned (read_steps f dl n []) w' = Some q \<and>
    (case q of
       Inl e \<Rightarrow> \<exists>m<n. pending (kern w') = drop m (pending (kern w))
     | Inr bs \<Rightarrow> bs = take n (pending (kern w)) \<and> pending (kern w') = drop n (pending (kern w)))"
proof -
  from loop_runs_steps [OF new read_steps_on f run] obtain q where
      "returned (read_steps f dl n []) w' = Some q"
      "run_steps os (wakeup_read w) (read_steps f dl n []) (kern w) = Some (q, kern w')" by auto
  with read_exactly_stream [OF poll_reads_stream [OF socket_sends_peer [OF sends]], of dl dl n "[]" "kern w"]
  show ?thesis by (auto simp: read_steps_run exactly_outcome_def split: sum.splits)
qed

lemma write_in_event_loop:
  assumes new: "new_poll_warden os k0 = Inr w" and f: "f \<noteq> wakeup_read w"
    and takes: "socket_takes os (wakeup_read w) f sent"
    and run: "run_until os (coroutine os (write_steps f dl out 0)) 0 w = Some (Inr (), w')"
  shows "\<exists>q i. returned (write_steps f dl out 0) w' = Some q \<and> i \<le> length out \<and>
    sent (kern w') = sent (kern w) @ take i out \<and> (case q of Inl e \<Rightarrow> i < length out | Inr m \<Rightarrow> m = i)"
proof -
  from loop_runs_steps [OF new write_steps_on f run] obtain q where
      q: "returned (write_steps f dl out 0) w' = Some q"
      "run_steps os (wakeup_read w) (write_steps f dl out 0) (kern w) = Some (q, kern w')" by auto
  have "\<exists>i\<le>length out. sent (kern w') = sent (kern w) @ take i out \<and>
      (case q of Inl e \<Rightarrow> i < length out | Inr m \<Rightarrow> m = i)"
    using write_all_sink [OF poll_writes_sink [OF socket_takes_peer [OF takes]], of dl dl out 0 "kern w"] q(2)
    by (cases q) (auto simp: write_steps_run write_outcome_def intro: less_imp_le)
  with q(1) show ?thesis by blast
qed


text \<open>A kernel that holds what the peer of descriptor 7 still sends and what it has been sent.\<close>

definition talk_os :: "(byte list \<times> byte list) posix_os" where
  "talk_os = quiet_os\<lparr>
     os_read := (\<lambda>f n k. if f = 7 then (Some (take (min 2 n) (fst k)), (drop (min 2 n) (fst k), snd k))
                       else (None, k)),
     os_write := (\<lambda>f bs k. if f = 7 then (Some (length bs), (fst k, snd k @ bs)) else (None, k))\<rparr>"

lemma talk_laws: "socket_sends talk_os 3 7 fst" "socket_takes talk_os 3 7 snd"
  by (auto simp: socket_sends_def socket_takes_def talk_os_def quiet_os_def min_def split: if_splits)


end
