(* ===== verification/Ownership.thy ===== *)
theory Ownership
  imports Prelude
begin

text \<open>
  Owning pointers: the lemmas that \<open>iop\<close> (\<open>completion.hpp\<close>) and \<open>tls\<close> (\<open>tls.hpp\<close>) share. A variable is
  absent, holds the null pointer (\<open>Some None\<close>) or points to an object. The operations of the two
  classes are in their own theories.
\<close>

text \<open>Live objects and the variables that own them correspond one to one; addresses from \<open>n\<close> on are new.\<close>

definition owns :: "(nat \<Rightarrow> cid option option) \<Rightarrow> (cid \<Rightarrow> bool) \<Rightarrow> cid \<Rightarrow> bool" where
  "owns v live n \<longleftrightarrow>
     (\<forall>i j c. v i = Some (Some c) \<longrightarrow> v j = Some (Some c) \<longrightarrow> i = j) \<and>
     (\<forall>c. live c \<longleftrightarrow> (\<exists>i. v i = Some (Some c))) \<and> (\<forall>c\<ge>n. \<not> live c)"

lemma owns_make:
  assumes "owns v live n" "v i = None"
  shows "owns (v(i \<mapsto> Some n)) (\<lambda>c. c = n \<or> live c) (Suc n)"
proof -
  have free: "v j \<noteq> Some (Some n)" for j using assms(1) unfolding owns_def by blast
  have "(c = n \<or> live c) \<longleftrightarrow> (\<exists>j. (v(i \<mapsto> Some n)) j = Some (Some c))" for c
  proof (cases "c = n")
    case True
    then have "(v(i \<mapsto> Some n)) i = Some (Some c)" by simp
    with True show ?thesis by blast
  next
    case False
    have "live c \<longleftrightarrow> (\<exists>j. v j = Some (Some c))" using assms(1) by (simp add: owns_def)
    also have "\<dots> \<longleftrightarrow> (\<exists>j. (v(i \<mapsto> Some n)) j = Some (Some c))"
      using assms(2) False by (auto simp: fun_upd_def) (metis option.distinct(1))
    finally show ?thesis using False by simp
  qed
  then show ?thesis
    using assms(1) free by (auto simp: owns_def)
qed

lemma owns_same:
  assumes "owns v live n" and same: "\<And>c. live' c = live c"
  shows "owns v live' n"
proof -
  have "live' = live" using same by (rule ext)
  with assms(1) show ?thesis by simp
qed

lemma owns_move:
  assumes "owns v live n" "v i = None" "v j = Some c"
  shows "owns (v(j \<mapsto> None, i \<mapsto> c)) live n"
proof -
  have "i \<noteq> j" using assms by auto
  have "(\<exists>k. (v(j \<mapsto> None, i \<mapsto> c)) k = Some (Some d)) \<longleftrightarrow> (\<exists>k. v k = Some (Some d))" for d
    using assms(2,3) by (auto simp: fun_upd_def) (metis option.distinct(1) option.inject)+
  then show ?thesis
    using assms \<open>i \<noteq> j\<close> unfolding owns_def by (auto simp: fun_upd_def split: if_splits)
qed

lemma owns_swap:
  assumes "owns v live n" "v i = Some c" "v j = Some d"
  shows "owns (v(j \<mapsto> c, i \<mapsto> d)) live n"
proof -
  define p where "p k = (if k = i then j else if k = j then i else k)" for k
  have eq: "v(j \<mapsto> c, i \<mapsto> d) = v \<circ> p" using assms by (auto simp: p_def fun_eq_iff)
  have pp: "p (p k) = k" for k by (auto simp: p_def)
  have "k = l" if "v (p k) = Some (Some e)" "v (p l) = Some (Some e)" for k l e
  proof -
    have "p k = p l" using assms(1) that unfolding owns_def by blast
    then have "p (p k) = p (p l)" by (rule arg_cong)
    then show ?thesis by (simp only: pp)
  qed
  moreover have "(\<exists>k. v (p k) = x) \<longleftrightarrow> (\<exists>k. v k = x)" for x
    using pp by metis
  ultimately show ?thesis using assms(1) by (auto simp: owns_def eq)
qed

lemma owns_end:
  assumes "owns v live n" "v i = Some c"
  shows "owns (v(i := None)) (\<lambda>d. live d \<and> c \<noteq> Some d) n"
proof -
  have "(\<exists>k. (v(i := None)) k = Some (Some d)) \<longleftrightarrow> live d \<and> c \<noteq> Some d" for d
    using assms unfolding owns_def by (auto simp: fun_upd_def) (metis option.inject)+
  then show ?thesis using assms(1) unfolding owns_def by (auto simp: fun_upd_def)
qed

text \<open>
  A \<open>unique_ptr\<close> that takes over another's object; what it owned before ends.
\<close>

lemma owns_take:
  assumes "owns v live n" "v i = Some c" "v j = Some d" "i \<noteq> j"
  shows "owns (v(j \<mapsto> None, i \<mapsto> d)) (\<lambda>e. live e \<and> c \<noteq> Some e) n"
  using owns_move [OF owns_end [OF assms(1,2)], of i j d] assms(3,4) by (simp add: fun_upd_twist)

lemma owns_null: "owns v live n \<Longrightarrow> v i = None \<Longrightarrow> owns (v(i \<mapsto> None)) live n"
  unfolding owns_def by (auto simp: fun_upd_def) (metis option.distinct(1))+

end
