(* ===== verification/IopOwner.thy ===== *)
theory IopOwner
  imports Kernels Ownership
begin

text \<open>
  \<open>iop\<close> (\<open>include/felspar/io/completion.hpp\<close>, its destructor in \<open>warden.hpp\<close>), the awaitable that
  owns a completion of a warden. An \<open>iop\<close> is a variable with a pointer that may be null (it has
  been moved from); the variables live in a store beside the poll warden, since a move may have
  the same variable on both sides. Construction is from the pointer a \<open>do_\<close> function has made.
\<close>

record 'k iop_world =
  vars :: "nat \<Rightarrow> cid option option"   \<comment> \<open>the live \<open>iop\<close> objects and their \<open>comp\<close>\<close>
  ward :: "'k poll_warden"

definition comp_of :: "nat \<Rightarrow> 'k iop_world \<Rightarrow> cid option" where
  "comp_of i s = (case vars s i of Some c \<Rightarrow> c | None \<Rightarrow> None)"

definition set_comp :: "nat \<Rightarrow> cid option \<Rightarrow> 'k iop_world \<Rightarrow> 'k iop_world" where
  "set_comp i c s = s\<lparr>vars := (vars s)(i \<mapsto> c)\<rparr>"

definition iop_construct ::
  "'k posix_os \<Rightarrow> nat \<Rightarrow> iop_kind \<Rightarrow> ns option \<Rightarrow> 'k iop_world \<Rightarrow> 'k iop_world" where
  "iop_construct os i kd dl s =
     (let (c, w) = new_iop os kd dl (ward s) in set_comp i (Some c) (s\<lparr>ward := w\<rparr>))"

text \<open>\<open>comp{exchange(i.comp, {})}\<close>, and the swap of the move assignment.\<close>

definition iop_move_construct :: "nat \<Rightarrow> nat \<Rightarrow> 'k iop_world \<Rightarrow> 'k iop_world" where
  "iop_move_construct i src s = set_comp i (comp_of src s) (set_comp src None s)"

definition iop_move_assign :: "nat \<Rightarrow> nat \<Rightarrow> 'k iop_world \<Rightarrow> 'k iop_world" where
  "iop_move_assign i src s = set_comp i (comp_of src s) (set_comp src (comp_of i s) s)"

definition iop_await :: "'k posix_os \<Rightarrow> nat \<Rightarrow> nat \<Rightarrow> 'k iop_world \<Rightarrow> coro \<times> 'k iop_world" where
  "iop_await os i h s =
     (case comp_of i s of
        None \<Rightarrow> (NoopCoro, s\<lparr>ward := (ward s)\<lparr>dangling := True\<rparr>\<rparr>)
      | Some c \<Rightarrow> (let (r, w) = await_suspend os c (Coro h) (ward s) in (r, s\<lparr>ward := w\<rparr>)))"

definition iop_destructor :: "nat \<Rightarrow> 'k iop_world \<Rightarrow> 'k iop_world" where
  "iop_destructor i s =
     (let s1 = (case comp_of i s of
                  None \<Rightarrow> s
                | Some c \<Rightarrow> s\<lparr>ward := iop_destroy c (ward s)\<rparr>)
      in s1\<lparr>vars := (vars s1)(i := None)\<rparr>)"

subsection \<open>Programs\<close>

datatype iop_op =
    MakeIop nat iop_kind "ns option" | MoveIop nat nat | AssignIop nat nat
  | AwaitIop nat nat | EndIop nat

fun iop_step :: "'k posix_os \<Rightarrow> iop_op \<Rightarrow> 'k iop_world \<Rightarrow> 'k iop_world" where
  "iop_step os (MakeIop i kd dl) s = iop_construct os i kd dl s"
| "iop_step os (MoveIop i j) s = iop_move_construct i j s"
| "iop_step os (AssignIop i j) s = iop_move_assign i j s"
| "iop_step os (AwaitIop i h) s = snd (iop_await os i h s)"
| "iop_step os (EndIop i) s = iop_destructor i s"

text \<open>
  C++'s object rules, and the one rule of the class: an \<open>iop\<close> that has been moved from is not
  awaited.
\<close>

fun iop_lawful :: "iop_op \<Rightarrow> 'k iop_world \<Rightarrow> bool" where
  "iop_lawful (MakeIop i kd dl) s \<longleftrightarrow> vars s i = None"
| "iop_lawful (MoveIop i j) s \<longleftrightarrow> vars s i = None \<and> vars s j \<noteq> None"
| "iop_lawful (AssignIop i j) s \<longleftrightarrow> vars s i \<noteq> None \<and> vars s j \<noteq> None"
| "iop_lawful (AwaitIop i h) s \<longleftrightarrow> comp_of i s \<noteq> None"
| "iop_lawful (EndIop i) s \<longleftrightarrow> vars s i \<noteq> None"

fun iop_run :: "'k posix_os \<Rightarrow> iop_op list \<Rightarrow> 'k iop_world \<Rightarrow> 'k iop_world option" where
  "iop_run os [] s = Some s"
| "iop_run os (p # ps) s = (if iop_lawful p s then iop_run os ps (iop_step os p s) else None)"

subsection \<open>Ownership\<close>

text \<open>Live completions and the variables that own them correspond one to one.\<close>

definition owned :: "'k iop_world \<Rightarrow> bool" where
  "owned s \<longleftrightarrow>
     owns (vars s) (\<lambda>c. heap (ward s) c \<noteq> None) (next_cid (ward s)) \<and> \<not> dangling (ward s)"

text \<open>What the calls into the warden do to the heap.\<close>

lemma new_iop_heap:
  "fst (new_iop os kd dl w) = next_cid w"
  "next_cid (snd (new_iop os kd dl w)) = Suc (next_cid w)"
  "dangling (snd (new_iop os kd dl w)) = dangling w"
  "heap (snd (new_iop os kd dl w)) c \<noteq> None \<longleftrightarrow> c = next_cid w \<or> heap w c \<noteq> None"
  by (cases kd; auto simp: do_close_def do_sleep_def do_read_some_def do_write_some_def do_accept_def
      do_connect_def do_read_ready_def do_write_ready_def new_completion_def store_def Let_def
      split: prod.splits)+

lemma queue_calls_heap:
  "heap (push_read f c w) = heap w" "heap (push_write f c w) = heap w"
  "heap (erase_read f c w) = heap w" "heap (erase_write f c w) = heap w"
  "heap (insert_timeout c x w) = heap w" "heap (cancel_timeout c x w) = heap w"
  "heap (cancel_iop c kd w) = heap w"
  "next_cid (push_read f c w) = next_cid w" "next_cid (push_write f c w) = next_cid w"
  "next_cid (insert_timeout c x w) = next_cid w" "next_cid (cancel_timeout c x w) = next_cid w"
  "next_cid (cancel_iop c kd w) = next_cid w"
  "dangling (push_read f c w) = dangling w" "dangling (push_write f c w) = dangling w"
  "dangling (insert_timeout c x w) = dangling w" "dangling (cancel_timeout c x w) = dangling w"
  "dangling (cancel_iop c kd w) = dangling w"
  by (cases kd; auto simp: push_read_def push_write_def erase_read_def erase_write_def req_upd_def
      insert_timeout_def cancel_timeout_def split: option.splits)+

lemma await_heap:
  assumes "heap w c \<noteq> None"
  shows "heap (snd (await_suspend os c h w)) c' \<noteq> None \<longleftrightarrow> heap w c' \<noteq> None"
    and "next_cid (snd (await_suspend os c h w)) = next_cid w"
    and "dangling (snd (await_suspend os c h w)) = dangling w"
proof -
  obtain x where x: "heap w c = Some x" using assms by auto
  show "heap (snd (await_suspend os c h w)) c' \<noteq> None \<longleftrightarrow> heap w c' \<noteq> None"
    "next_cid (snd (await_suspend os c h w)) = next_cid w"
    "dangling (snd (await_suspend os c h w)) = dangling w"
    using x
    by (cases "kind x"; auto simp: await_suspend_def completion_await_suspend_def
        connect_await_suspend_def read_ready_await_suspend_def write_ready_await_suspend_def
        try_or_resume_obj_def close_try_or_resume_def read_some_try_or_resume_def
        write_some_try_or_resume_def accept_try_or_resume_def cancel_timeout_then_resume_def
        queue_calls_heap store_def Let_def split: prod.splits if_splits)+
qed

lemma destroy_heap:
  assumes "heap w c \<noteq> None"
  shows "heap (iop_destroy c w) = (heap w)(c := None)" "next_cid (iop_destroy c w) = next_cid w"
    "dangling (iop_destroy c w) = dangling w"
  using assms by (auto simp: iop_destroy_def queue_calls_heap Let_def split: option.splits)

lemma step_vars [simp]:
  "vars (iop_construct os i kd dl s) = (vars s)(i \<mapsto> Some (next_cid (ward s)))"
  "next_cid (ward (iop_construct os i kd dl s)) = Suc (next_cid (ward s))"
  "vars (iop_move_construct i j s) = (vars s)(j \<mapsto> None, i \<mapsto> comp_of j s)"
  "vars (iop_move_assign i j s) = (vars s)(j \<mapsto> comp_of i s, i \<mapsto> comp_of j s)"
  "vars (snd (iop_await os i h s)) = vars s"
  "vars (iop_destructor i s) = (vars s)(i := None)"
  using new_iop_heap(1,2) [of os kd dl "ward s"]
  by (auto simp: iop_construct_def iop_move_construct_def iop_move_assign_def iop_await_def
      iop_destructor_def set_comp_def Let_def split: prod.splits option.splits)

lemma iop_construct_ward: "ward (iop_construct os i kd dl s) = snd (new_iop os kd dl (ward s))"
  by (simp add: iop_construct_def set_comp_def split: prod.splits)

lemma owned_step:
  assumes o: "owned s" and l: "iop_lawful p s"
  shows "owned (iop_step os p s)"
proof -
  let ?w = "ward s" and ?n = "next_cid (ward s)"
  have own: "owns (vars s) (\<lambda>c. heap ?w c \<noteq> None) ?n" and sound: "\<not> dangling ?w"
    using o by (simp_all add: owned_def)
  show ?thesis
  proof (cases p)
    case (MakeIop i kd dl)
    then have "owns (vars (iop_step os p s)) (\<lambda>c. c = ?n \<or> heap ?w c \<noteq> None) (Suc ?n)"
      using owns_make [OF own] l by simp
    then have "owns (vars (iop_step os p s)) (\<lambda>c. heap (snd (new_iop os kd dl ?w)) c \<noteq> None) (Suc ?n)"
      by (rule owns_same) (rule new_iop_heap)
    then show ?thesis
      using MakeIop sound by (simp add: owned_def iop_construct_ward new_iop_heap del: not_None_eq)
  next
    case (MoveIop i j)
    then obtain c where "vars s i = None" "vars s j = Some c" using l by auto
    with owns_move [OF own this] sound MoveIop show ?thesis
      by (simp add: owned_def comp_of_def iop_move_construct_def set_comp_def)
  next
    case (AssignIop i j)
    then obtain c d where "vars s i = Some c" "vars s j = Some d" using l by auto
    with owns_swap [OF own this] sound AssignIop show ?thesis
      by (simp add: owned_def comp_of_def iop_move_assign_def set_comp_def)
  next
    case (AwaitIop i h)
    then obtain c where c: "vars s i = Some (Some c)"
      using l by (auto simp: comp_of_def split: option.splits)
    with own have "heap ?w c \<noteq> None" by (auto simp: owns_def)
    note a = await_heap [OF this, of os]
    have "ward (snd (iop_await os i h s)) = snd (await_suspend os c (Coro h) ?w)"
      using c by (simp add: iop_await_def comp_of_def split: prod.splits)
    with AwaitIop own sound a show ?thesis
      by (simp add: owned_def del: not_None_eq)
  next
    case (EndIop i)
    then obtain q where q: "vars s i = Some q" using l by auto
    note e = owns_end [OF own q]
    show ?thesis
    proof (cases q)
      case None
      with EndIop q e sound show ?thesis
        by (simp add: owned_def iop_destructor_def comp_of_def Let_def)
    next
      case (Some c)
      with own q have "heap ?w c \<noteq> None" by (auto simp: owns_def)
      note d = destroy_heap [OF this]
      have "owns ((vars s)(i := None)) (\<lambda>d. heap (iop_destroy c ?w) d \<noteq> None) ?n"
        by (rule owns_same [OF e]) (simp add: d Some)
      with EndIop q Some sound d show ?thesis
        by (simp add: owned_def iop_destructor_def comp_of_def Let_def)
    qed
  qed
qed

lemma iop_run_owned: "iop_run os ps s = Some s' \<Longrightarrow> owned s \<Longrightarrow> owned s'"
  by (induction ps arbitrary: s) (auto intro: owned_step split: if_splits)


definition iop_program :: "iop_op list" where
  "iop_program = [MakeIop 2 (ReadReady 7) None, AwaitIop 2 3, MakeIop 3 (Sleep 5) None,
     AssignIop 2 3, EndIop 2, EndIop 3]"


end
