(* ===== verification/TlsOwner.thy ===== *)
theory TlsOwner
  imports Ownership Descriptor
begin

text \<open>
  The life of a TLS connection's objects (\<open>src/tls.cpp\<close>, the constructor and destructor of \<open>impl\<close>
  and the members of \<open>tls\<close>, \<open>tls.hpp\<close>). OpenSSL is not code of the repository: what its calls return is
  an argument of the constructor, and the calls made to it are recorded in the order they are made.
  A \<open>tls\<close> is a \<open>unique_ptr\<close> to an \<open>impl\<close>; the variables live in a store, as the \<open>iop\<close> ones do.
\<close>

datatype ssl_call =
    CtxNew | SslNew "nat option" | SetMode "nat option" | NewBioPair
  | SetBio "nat option" "nat option"
  | BioFree nat | SslFree nat | CtxFree nat | CloseSocket fd

record ssl_answers =
  got_ctx :: "nat option"
  got_ssl :: "nat option"
  got_pair :: "(nat \<times> nat) option"

record tls_impl =
  impl_ctx :: "nat option"
  impl_ssl :: "nat option"
  impl_ib :: "nat option"
  impl_nb :: "nat option"
  impl_fd :: fd

text \<open>The constructor checks nothing: a failed call leaves a null pointer, which the next is given.\<close>

definition impl_construct :: "ssl_answers \<Rightarrow> fd \<Rightarrow> tls_impl \<times> ssl_call list" where
  "impl_construct a f =
     (let ib = map_option fst (got_pair a); nb = map_option snd (got_pair a)
      in (\<lparr>impl_ctx = got_ctx a, impl_ssl = got_ssl a, impl_ib = ib, impl_nb = nb, impl_fd = f\<rparr>,
          [CtxNew, SslNew (got_ctx a), SetMode (got_ctx a), NewBioPair, SetBio (got_ssl a) ib]))"

text \<open>The destructor, and after its body the members': only the socket's does something.\<close>

definition impl_destruct :: "tls_impl \<Rightarrow> ssl_call list" where
  "impl_destruct x =
     (case impl_nb x of None \<Rightarrow> [] | Some b \<Rightarrow> [BioFree b]) @
     (case impl_ssl x of None \<Rightarrow> [] | Some s \<Rightarrow> [SslFree s]) @
     (case impl_ctx x of None \<Rightarrow> [] | Some c \<Rightarrow> [CtxFree c]) @
     (if impl_fd x = invalid_handle then [] else [CloseSocket (impl_fd x)])"

subsection \<open>\<open>tls\<close> variables\<close>

record tls_world =
  tls_ptrs :: "nat \<Rightarrow> nat option option"
  impls :: "nat \<Rightarrow> tls_impl option"
  next_impl :: nat
  calls :: "ssl_call list"
  bad_use :: bool                \<comment> \<open>a null or dangling \<open>impl\<close> has been used or deleted\<close>

definition impl_of :: "nat \<Rightarrow> tls_world \<Rightarrow> nat option" where
  "impl_of i w = (case tls_ptrs w i of Some p \<Rightarrow> p | None \<Rightarrow> None)"

definition set_impl :: "nat \<Rightarrow> nat option \<Rightarrow> tls_world \<Rightarrow> tls_world" where
  "set_impl i p w = w\<lparr>tls_ptrs := (tls_ptrs w)(i \<mapsto> p)\<rparr>"

definition delete_impl :: "nat option \<Rightarrow> tls_world \<Rightarrow> tls_world" where
  "delete_impl p w =
     (case p of
        None \<Rightarrow> w
      | Some n \<Rightarrow>
          (case impls w n of
             None \<Rightarrow> w\<lparr>bad_use := True\<rparr>
           | Some x \<Rightarrow> w\<lparr>impls := (impls w)(n := None), calls := calls w @ impl_destruct x\<rparr>))"

definition tls_default :: "nat \<Rightarrow> tls_world \<Rightarrow> tls_world" where
  "tls_default i w = set_impl i None w"

text \<open>\<open>make_unique<impl>\<close> and the constructor that takes the pointer.\<close>

definition tls_make :: "nat \<Rightarrow> ssl_answers \<Rightarrow> fd \<Rightarrow> tls_world \<Rightarrow> tls_world" where
  "tls_make i a f w =
     (let (x, cs) = impl_construct a f; n = next_impl w
      in set_impl i (Some n)
           (w\<lparr>impls := (impls w)(n \<mapsto> x), next_impl := Suc n, calls := calls w @ cs\<rparr>))"

definition tls_move_construct :: "nat \<Rightarrow> nat \<Rightarrow> tls_world \<Rightarrow> tls_world" where
  "tls_move_construct i j w = set_impl i (impl_of j w) (set_impl j None w)"

definition tls_move_assign :: "nat \<Rightarrow> nat \<Rightarrow> tls_world \<Rightarrow> tls_world" where
  "tls_move_assign i j w =
     (let p = impl_of j w;
          w1 = set_impl j None w;
          old = impl_of i w1
      in delete_impl old (set_impl i p w1))"

definition tls_destructor :: "nat \<Rightarrow> tls_world \<Rightarrow> tls_world" where
  "tls_destructor i w =
     (let w1 = delete_impl (impl_of i w) w in w1\<lparr>tls_ptrs := (tls_ptrs w1)(i := None)\<rparr>)"

text \<open>Reading or writing follows the pointer.\<close>

definition tls_use :: "nat \<Rightarrow> tls_world \<Rightarrow> tls_world" where
  "tls_use i w =
     (case impl_of i w of
        None \<Rightarrow> w\<lparr>bad_use := True\<rparr>
      | Some n \<Rightarrow> if impls w n = None then w\<lparr>bad_use := True\<rparr> else w)"

datatype tls_op =
    DefaultTls nat | MakeTls nat ssl_answers fd | MoveTls nat nat | AssignTls nat nat
  | UseTls nat | EndTls nat

fun tls_step :: "tls_op \<Rightarrow> tls_world \<Rightarrow> tls_world" where
  "tls_step (DefaultTls i) w = tls_default i w"
| "tls_step (MakeTls i a f) w = tls_make i a f w"
| "tls_step (MoveTls i j) w = tls_move_construct i j w"
| "tls_step (AssignTls i j) w = tls_move_assign i j w"
| "tls_step (UseTls i) w = tls_use i w"
| "tls_step (EndTls i) w = tls_destructor i w"

text \<open>C++'s object rules, and that a connection that is not there is not read from or written to.\<close>

fun tls_lawful :: "tls_op \<Rightarrow> tls_world \<Rightarrow> bool" where
  "tls_lawful (DefaultTls i) w \<longleftrightarrow> tls_ptrs w i = None"
| "tls_lawful (MakeTls i a f) w \<longleftrightarrow> tls_ptrs w i = None"
| "tls_lawful (MoveTls i j) w \<longleftrightarrow> tls_ptrs w i = None \<and> tls_ptrs w j \<noteq> None"
| "tls_lawful (AssignTls i j) w \<longleftrightarrow> tls_ptrs w i \<noteq> None \<and> tls_ptrs w j \<noteq> None"
| "tls_lawful (UseTls i) w \<longleftrightarrow> impl_of i w \<noteq> None"
| "tls_lawful (EndTls i) w \<longleftrightarrow> tls_ptrs w i \<noteq> None"

fun tls_run :: "tls_op list \<Rightarrow> tls_world \<Rightarrow> tls_world option" where
  "tls_run [] w = Some w"
| "tls_run (p # ps) w = (if tls_lawful p w then tls_run ps (tls_step p w) else None)"

definition no_tls :: tls_world where
  "no_tls = \<lparr>tls_ptrs = (\<lambda>_. None), impls = (\<lambda>_. None), next_impl = 0, calls = [], bad_use = False\<rparr>"

subsection \<open>What has been released\<close>

fun releases :: "ssl_call \<Rightarrow> bool" where
  "releases (BioFree b) = True"
| "releases (SslFree s) = True"
| "releases (CtxFree c) = True"
| "releases (CloseSocket f) = True"
| "releases _ = False"

text \<open>The connections a program makes, in order.\<close>

fun made_by :: "tls_op \<Rightarrow> tls_impl list" where
  "made_by (MakeTls i a f) = [fst (impl_construct a f)]"
| "made_by _ = []"

lemma construct_releases_nothing: "filter releases (snd (impl_construct a f)) = []"
  by (simp add: impl_construct_def Let_def)

lemma destruct_releases: "filter releases (impl_destruct x) = impl_destruct x"
  by (simp add: impl_destruct_def split: option.split)

definition released_in :: "tls_impl list \<Rightarrow> nat list \<Rightarrow> ssl_call list" where
  "released_in xs order = concat (map (\<lambda>n. impl_destruct (xs ! n)) order)"

definition tls_owned :: "tls_impl list \<Rightarrow> tls_world \<Rightarrow> bool" where
  "tls_owned xs w \<longleftrightarrow>
     owns (tls_ptrs w) (\<lambda>n. impls w n \<noteq> None) (next_impl w) \<and> \<not> bad_use w \<and>
     length xs = next_impl w \<and> (\<forall>n x. impls w n = Some x \<longrightarrow> n < length xs \<and> x = xs ! n) \<and>
     (\<exists>order. distinct order \<and> set order = {n. n < length xs \<and> impls w n = None} \<and>
        filter releases (calls w) = released_in xs order)"

lemma tls_ownedI:
  assumes "owns (tls_ptrs w) (\<lambda>n. impls w n \<noteq> None) (next_impl w)" "\<not> bad_use w"
    and "length xs = next_impl w" "\<And>n x. impls w n = Some x \<Longrightarrow> n < length xs \<and> x = xs ! n"
    and "distinct order" "set order = {n. n < length xs \<and> impls w n = None}"
    and "filter releases (calls w) = released_in xs order"
  shows "tls_owned xs w"
  using assms unfolding tls_owned_def by blast

lemma tls_owned_ptrs:
  "tls_owned xs w \<Longrightarrow> owns v (\<lambda>n. impls w n \<noteq> None) (next_impl w) \<Longrightarrow>
   tls_owned xs (w\<lparr>tls_ptrs := v\<rparr>)"
  unfolding tls_owned_def by (simp del: not_None_eq) metis

text \<open>Deleting what no variable owns any more.\<close>

lemma tls_owned_delete:
  assumes o: "tls_owned xs w" and v: "owns v (\<lambda>n. impls w n \<noteq> None \<and> p \<noteq> Some n) (next_impl w)"
    and live: "\<And>n. p = Some n \<Longrightarrow> impls w n \<noteq> None"
  shows "tls_owned xs (delete_impl p (w\<lparr>tls_ptrs := v\<rparr>))"
proof (cases p)
  case None
  with o v show ?thesis by (simp add: delete_impl_def tls_owned_ptrs)
next
  case (Some n)
  obtain x where x: "impls w n = Some x" using live [OF Some] by auto
  obtain order where order: "distinct order" "set order = {n. n < length xs \<and> impls w n = None}"
      "filter releases (calls w) = released_in xs order"
    using o by (auto simp: tls_owned_def)
  have n: "n < length xs" "x = xs ! n" using o x by (auto simp: tls_owned_def)
  show ?thesis
  proof (rule tls_ownedI [where order = "order @ [n]"])
    have same: "tls_ptrs (delete_impl p (w\<lparr>tls_ptrs := v\<rparr>)) = v"
        "next_impl (delete_impl p (w\<lparr>tls_ptrs := v\<rparr>)) = next_impl w"
      using Some x by (simp_all add: delete_impl_def)
    show "owns (tls_ptrs (delete_impl p (w\<lparr>tls_ptrs := v\<rparr>)))
        (\<lambda>m. impls (delete_impl p (w\<lparr>tls_ptrs := v\<rparr>)) m \<noteq> None)
        (next_impl (delete_impl p (w\<lparr>tls_ptrs := v\<rparr>)))"
      unfolding same by (rule owns_same [OF v]) (use Some x in \<open>auto simp: delete_impl_def\<close>)
  qed (use o order n x Some in \<open>auto simp: tls_owned_def delete_impl_def released_in_def
         destruct_releases split: if_splits\<close>)
qed

lemma tls_owned_make:
  assumes o: "tls_owned xs w" and i: "tls_ptrs w i = None"
  shows "tls_owned (xs @ [fst (impl_construct a f)]) (tls_make i a f w)"
proof -
  let ?n = "next_impl w" and ?x = "fst (impl_construct a f)"
  let ?w = "tls_make i a f w"
  have w: "tls_ptrs ?w = (tls_ptrs w)(i \<mapsto> Some ?n)" "impls ?w = (impls w)(?n \<mapsto> ?x)"
      "next_impl ?w = Suc ?n" "bad_use ?w = bad_use w"
      "filter releases (calls ?w) = filter releases (calls w)"
    using construct_releases_nothing [of a f]
    by (simp_all add: tls_make_def set_impl_def impl_construct_def Let_def)
  obtain order where order: "distinct order" "set order = {n. n < length xs \<and> impls w n = None}"
      "filter releases (calls w) = released_in xs order"
    using o by (auto simp: tls_owned_def)
  have own: "owns (tls_ptrs w) (\<lambda>n. impls w n \<noteq> None) ?n" and len: "length xs = ?n"
    using o by (simp_all add: tls_owned_def)
  have rel: "released_in (xs @ [?x]) order = released_in xs order"
    unfolding released_in_def
    by (intro arg_cong [where f = concat] map_cong refl) (use order(2) in \<open>simp add: nth_append\<close>)
  show ?thesis
  proof (rule tls_ownedI [where order = order])
    show "owns (tls_ptrs ?w) (\<lambda>n. impls ?w n \<noteq> None) (next_impl ?w)"
      unfolding w by (rule owns_same [OF owns_make [OF own i]]) auto
  qed (use o order rel len in \<open>auto simp: w tls_owned_def nth_append less_Suc_eq split: if_splits\<close>)
qed

lemma tls_owned_step:
  assumes o: "tls_owned xs w" and l: "tls_lawful p w"
  shows "tls_owned (xs @ made_by p) (tls_step p w)"
proof -
  have own: "owns (tls_ptrs w) (\<lambda>n. impls w n \<noteq> None) (next_impl w)"
    using o by (simp add: tls_owned_def)
  have live: "impls w n \<noteq> None" if "impl_of i w = Some n" for i n
    using own that unfolding owns_def impl_of_def by (auto split: option.splits)
  show ?thesis
  proof (cases p)
    case (DefaultTls i)
    then show ?thesis
      using l tls_owned_ptrs [OF o owns_null [OF own]] by (simp add: tls_default_def set_impl_def)
  next
    case (MakeTls i a f)
    with l tls_owned_make [OF o] show ?thesis by simp
  next
    case (MoveTls i j)
    then obtain c where "tls_ptrs w i = None" "tls_ptrs w j = Some c" using l by auto
    with MoveTls tls_owned_ptrs [OF o owns_move [OF own this]] show ?thesis
      by (simp add: tls_move_construct_def set_impl_def impl_of_def)
  next
    case (AssignTls i j)
    then obtain c d where cd: "tls_ptrs w i = Some c" "tls_ptrs w j = Some d" using l by auto
    show ?thesis
    proof (cases "i = j")
      case True
      with cd AssignTls o show ?thesis
        by (simp add: tls_move_assign_def set_impl_def impl_of_def delete_impl_def fun_upd_idem Let_def)
    next
      case False
      have "tls_owned xs (delete_impl c (w\<lparr>tls_ptrs := (tls_ptrs w)(j \<mapsto> None, i \<mapsto> d)\<rparr>))"
        by (rule tls_owned_delete [OF o owns_take [OF own cd False]])
          (use cd live [of i] in \<open>auto simp: impl_of_def\<close>)
      with False cd AssignTls show ?thesis
        by (simp add: tls_move_assign_def set_impl_def impl_of_def Let_def)
    qed
  next
    case (UseTls i)
    then obtain n where "impl_of i w = Some n" using l by auto
    with UseTls live [OF this] o show ?thesis by (simp add: tls_use_def del: not_None_eq)
  next
    case (EndTls i)
    then obtain c where c: "tls_ptrs w i = Some c" using l by auto
    have "tls_owned xs (delete_impl c (w\<lparr>tls_ptrs := (tls_ptrs w)(i := None)\<rparr>))"
      by (rule tls_owned_delete [OF o owns_end [OF own c]])
        (use c live [of i] in \<open>auto simp: impl_of_def\<close>)
    moreover have "delete_impl c (w\<lparr>tls_ptrs := v\<rparr>) = (delete_impl c w)\<lparr>tls_ptrs := v\<rparr>" for v
      by (simp add: delete_impl_def split: option.split)
    moreover have "tls_ptrs (delete_impl c w) = tls_ptrs w"
      by (simp add: delete_impl_def split: option.split)
    ultimately show ?thesis
      using c EndTls by (simp add: tls_destructor_def impl_of_def Let_def)
  qed
qed

lemma tls_run_owned:
  "tls_run ps w = Some w' \<Longrightarrow> tls_owned xs w \<Longrightarrow> tls_owned (xs @ concat (map made_by ps)) w'"
proof (induction ps arbitrary: w xs)
  case (Cons p ps)
  then have "tls_lawful p w" "tls_run ps (tls_step p w) = Some w'" by (auto split: if_splits)
  with Cons.IH [OF this(2) tls_owned_step [OF Cons.prems(2) this(1)]] show ?case by simp
qed simp


definition answers :: "nat \<Rightarrow> ssl_answers" where
  "answers n = \<lparr>got_ctx = Some n, got_ssl = Some (n + 1), got_pair = Some (n + 2, n + 3)\<rparr>"

definition tls_program :: "tls_op list" where
  "tls_program = [DefaultTls 0, MakeTls 1 (answers 10) 5, MakeTls 2 (answers 20) 6, UseTls 1,
     AssignTls 0 1, AssignTls 0 2, UseTls 0, EndTls 0, EndTls 1, EndTls 2]"


end
