(* ===== verification/TlsStreams.thy ===== *)
theory TlsStreams
  imports Conveniences
begin

text \<open>
  Reading through TLS gives the peer's plaintext in order. \<open>ssl_plaintext\<close> states what OpenSSL is
  documented to do with an observer \<open>plain\<close>, the plaintext not yet handed out: \<open>SSL_read\<close> takes
  its result off the front, a call that fails takes nothing, and moving ciphertext through the
  BIO pair or the socket changes nothing of it. The readers of \<open>ReadBuffer\<close> then work over TLS as
  they do over a socket, because a TLS connection is a byte reader. What OpenSSL cannot vouch for
  is the end: the code treats the end of the TCP stream as the end of the plaintext.
\<close>

definition ssl_plaintext ::
  "'k openssl \<Rightarrow> (ns option \<Rightarrow> nat \<Rightarrow> ('k, byte list) io) \<Rightarrow>
   (ns option \<Rightarrow> byte list \<Rightarrow> ('k, nat) io) \<Rightarrow> ('k \<Rightarrow> byte list) \<Rightarrow> bool" where
  "ssl_plaintext ssl rd wr plain \<longleftrightarrow>
     (\<forall>n k r bs k1. sys_ssl_read ssl n k = ((r, bs), k1) \<longrightarrow> 0 < r \<longrightarrow> plain k = bs @ plain k1) \<and>
     (\<forall>n k r bs k1. sys_ssl_read ssl n k = ((r, bs), k1) \<longrightarrow> r \<le> 0 \<longrightarrow> plain k1 = plain k) \<and>
     (\<forall>r k. ssl_get_error ssl r k = SSL_ERROR_NONE \<longleftrightarrow> 0 < r) \<and>
     (\<forall>n k r bs k1. sys_ssl_read ssl n k = ((r, bs), k1) \<longrightarrow>
        ssl_get_error ssl r k1 = SSL_ERROR_ZERO_RETURN \<longrightarrow> plain k1 = []) \<and>
     (\<forall>n k r bs k1. bio_take ssl n k = (r, bs, k1) \<longrightarrow> plain k1 = plain k) \<and>
     (\<forall>bs k r k1. bio_put ssl bs k = (r, k1) \<longrightarrow> plain k1 = plain k) \<and>
     (\<forall>dl n k z k1. rd dl n k = Some (z, k1) \<longrightarrow> plain k1 = plain k) \<and>
     (\<forall>dl bs k z k1. wr dl bs k = Some (z, k1) \<longrightarrow> plain k1 = plain k)"

text \<open>The TCP stream does not end before the plaintext does.\<close>

definition not_truncated ::
  "(ns option \<Rightarrow> nat \<Rightarrow> ('k, byte list) io) \<Rightarrow> ('k \<Rightarrow> byte list) \<Rightarrow> bool" where
  "not_truncated rd plain \<longleftrightarrow>
     (\<forall>dl k k1. rd dl buffer_size k = Some (Inr [], k1) \<longrightarrow> plain k1 = [])"

lemma ssl_plaintextD:
  assumes "ssl_plaintext ssl rd wr plain"
  shows "sys_ssl_read ssl n k = ((r, bs), k1) \<Longrightarrow> 0 < r \<Longrightarrow> plain k = bs @ plain k1"
    and "sys_ssl_read ssl n k = ((r, bs), k1) \<Longrightarrow> r \<le> 0 \<Longrightarrow> plain k1 = plain k"
    and "ssl_get_error ssl r k = SSL_ERROR_NONE \<longleftrightarrow> 0 < r"
    and "sys_ssl_read ssl n k = ((r, bs), k1) \<Longrightarrow> ssl_get_error ssl r k1 = SSL_ERROR_ZERO_RETURN \<Longrightarrow>
      plain k1 = []"
    and "bio_take ssl n k = (r, bs, k1) \<Longrightarrow> plain k1 = plain k"
    and "bio_put ssl bs k = (r, k1) \<Longrightarrow> plain k1 = plain k"
    and "rd dl n k = Some (z, k1) \<Longrightarrow> plain k1 = plain k"
    and "wr dl bs k = Some (z', k1) \<Longrightarrow> plain k1 = plain k"
  using assms unfolding ssl_plaintext_def by metis+

subsection \<open>What the service loop keeps\<close>

lemma write_all_keeps:
  assumes wr: "\<And>dl bs k z k1. Q k \<Longrightarrow> wr dl bs k = Some (z, k1) \<Longrightarrow> Q k1"
  shows "write_all wr dl out m k = Some (z, k') \<Longrightarrow> Q k \<Longrightarrow> Q k'"
proof (induction "length out" arbitrary: out m k rule: less_induct)
  case less
  show ?case
  proof (cases "out = []")
    case True
    with less.prems show ?thesis by (simp add: write_all.simps)
  next
    case False
    with less.prems obtain q k1 where w: "wr dl out k = Some (q, k1)"
      by (subst (asm) write_all.simps) (auto split: option.splits)
    have Q1: "Q k1" by (rule wr [OF less.prems(2) w])
    consider "k' = k1" | b where "0 < b" "write_all wr dl (drop b out) (m + b) k1 = Some (z, k')"
      using less.prems(1) False w
      by (subst (asm) write_all.simps) (auto split: sum.splits if_splits)
    then show ?thesis
    proof cases
      case 2
      have "length (drop b out) < length out" using 2(1) False by simp
      from less.hyps [OF this 2(2) Q1] show ?thesis .
    qed (use Q1 in simp)
  qed
qed

lemma bio_read_keeps:
  assumes wr: "\<And>dl bs k z k1. Q k \<Longrightarrow> wr dl bs k = Some (z, k1) \<Longrightarrow> Q k1"
    and take: "\<And>n k r bs k1. Q k \<Longrightarrow> bio_take ssl n k = (r, bs, k1) \<Longrightarrow> Q k1"
    and run: "bio_read ssl wr dl k = Some (z, k')" and Q: "Q k"
  shows "Q k'"
proof -
  let ?n = "bio_pending ssl k"
  obtain r bs k1 where t: "bio_take ssl ?n k = (r, bs, k1)" by (cases "bio_take ssl ?n k")
  have Q1: "Q k1" by (rule take [OF Q t])
  have "Q k2" if "write_all wr dl out m k1 = Some (y, k2)" for out m y k2
    using write_all_keeps [of Q wr] wr that Q1 by blast
  with run t Q Q1 show ?thesis
    by (auto simp: bio_read_def io_bind_def Let_def split: if_splits option.splits sum.splits)
qed

lemma bio_write_keeps:
  assumes rd: "\<And>dl n k z k1. Q k \<Longrightarrow> rd dl n k = Some (z, k1) \<Longrightarrow> Q k1"
    and put: "\<And>bs k r k1. Q k \<Longrightarrow> bio_put ssl bs k = (r, k1) \<Longrightarrow> Q k1"
    and run: "bio_write ssl rd dl k = Some (z, k')" and Q: "Q k"
  shows "Q k' \<and> (z = Inr 0 \<longrightarrow> rd dl buffer_size k = Some (Inr [], k'))"
proof -
  obtain q k1 where r: "rd dl buffer_size k = Some (q, k1)"
    using run by (auto simp: bio_write_def io_bind_def split: option.splits)
  have Q1: "Q k1" by (rule rd [OF Q r])
  show ?thesis
    using run r Q1 put [OF Q1]
    by (auto simp: bio_write_def io_bind_def Let_def split: sum.splits if_splits prod.splits)
qed

lemma service_operation_result:
  fixes ssl :: "'k openssl"
  assumes run: "service_operation ssl rd wr dl oper k = Some (z, k')" and Q: "Q k"
    and op_fails: "\<And>k r k1. Q k \<Longrightarrow> oper k = (r, k1) \<Longrightarrow>
      ssl_get_error ssl (fst r) k1 \<noteq> SSL_ERROR_NONE \<Longrightarrow> Q k1"
    and zero: "\<And>k r k1. Q k \<Longrightarrow> oper k = (r, k1) \<Longrightarrow>
      ssl_get_error ssl (fst r) k1 = SSL_ERROR_ZERO_RETURN \<Longrightarrow> E k1"
    and br: "\<And>k z k1. Q k \<Longrightarrow> bio_read ssl wr dl k = Some (z, k1) \<Longrightarrow>
      (case z of Inl e \<Rightarrow> F k1 | Inr u \<Rightarrow> Q k1)"
    and bw: "\<And>k z k1. Q k \<Longrightarrow> bio_write ssl rd dl k = Some (z, k1) \<Longrightarrow>
      (case z of Inl e \<Rightarrow> F k1 | Inr n \<Rightarrow> Q k1 \<and> (n = 0 \<longrightarrow> E k1))"
    and other: "\<And>k. Q k \<Longrightarrow> F k"
  shows "case z of
      Inl e \<Rightarrow> F k'
    | Inr r \<Rightarrow> r = (0, []) \<and> Q k' \<and> E k' \<or>
        (\<exists>k1. Q k1 \<and> oper k1 = (r, k') \<and> ssl_get_error ssl (fst r) k' = SSL_ERROR_NONE)"
proof -
  let ?R = "\<lambda>(q :: (exn + int \<times> byte list) \<times> 'k). case fst q of
      Inl e \<Rightarrow> F (snd q)
    | Inr r \<Rightarrow> r = (0, []) \<and> Q (snd q) \<and> E (snd q) \<or>
        (\<exists>k1. Q k1 \<and> oper k1 = (r, snd q) \<and> ssl_get_error ssl (fst r) (snd q) = SSL_ERROR_NONE)"
  let ?P = "\<lambda>(ssl' :: 'k openssl) rd' wr' dl' oper' k q.
      ssl' = ssl \<longrightarrow> rd' = rd \<longrightarrow> wr' = wr \<longrightarrow> dl' = dl \<longrightarrow> oper' = oper \<longrightarrow> Q k \<longrightarrow> ?R q"
  have "?P ssl rd wr dl oper k (z, k')"
  proof (rule service_operation.raw_induct [where P = ?P, OF _ run])
    fix f and ssl' :: "'k openssl" and rd' wr' dl' oper' k q
    assume IH: "\<And>ssl' rd' wr' dl' oper' k q. f ssl' rd' wr' dl' oper' k = Some q \<Longrightarrow>
        ?P ssl' rd' wr' dl' oper' k q"
      and eq: "(let (r, k1) = oper' k; err = ssl_get_error ssl' (fst r) k1 in
      if err = SSL_ERROR_NONE then Some (Inr r, k1)
      else if err = SSL_ERROR_WANT_READ then
        (case bio_read ssl' wr' dl' k1 of
           None \<Rightarrow> None
         | Some fl \<Rightarrow>
             (case fst fl of
                Inl e \<Rightarrow> Some (Inl e, snd fl)
              | Inr u \<Rightarrow>
                  (case bio_write ssl' rd' dl' (snd fl) of
                     None \<Rightarrow> None
                   | Some g \<Rightarrow>
                       (case fst g of
                          Inl e \<Rightarrow> Some (Inl e, snd g)
                        | Inr n \<Rightarrow>
                            if n = 0 then Some (Inr (0, []), snd g)
                            else f ssl' rd' wr' dl' oper' (snd g)))))
      else if err = SSL_ERROR_WANT_WRITE then
        (case bio_read ssl' wr' dl' k1 of
           None \<Rightarrow> None
         | Some fl \<Rightarrow>
             (case fst fl of
                Inl e \<Rightarrow> Some (Inl e, snd fl)
              | Inr u \<Rightarrow> f ssl' rd' wr' dl' oper' (snd fl)))
      else if err = SSL_ERROR_ZERO_RETURN then Some (Inr (0, []), k1)
      else Some (Inl (RuntimeError (''Unknown openssl error '' @ to_digits (nat err))), k1)) = Some q"
    show "?P ssl' rd' wr' dl' oper' k q"
    proof (intro impI)
      assume same: "ssl' = ssl" "rd' = rd" "wr' = wr" "dl' = dl" "oper' = oper" and Q: "Q k"
      obtain r k1 where op: "oper k = (r, k1)" by (cases "oper k")
      let ?err = "ssl_get_error ssl (fst r) k1"
      have again: "?R q" if "f ssl rd wr dl oper k2 = Some q" "Q k2" for k2
        using IH [OF that(1)] that(2) by blast
      show "?R q"
      proof (cases "?err = SSL_ERROR_NONE")
        case True
        with eq op same have "q = (Inr r, k1)" by simp
        with True Q op show ?thesis by auto
      next
        case False
        have Q1: "Q k1" by (rule op_fails [OF Q op False])
        consider (rd) "?err = SSL_ERROR_WANT_READ" | (wr) "?err = SSL_ERROR_WANT_WRITE"
          | (zero) "?err = SSL_ERROR_ZERO_RETURN"
          | (other) "?err \<notin> {SSL_ERROR_NONE, SSL_ERROR_WANT_READ, SSL_ERROR_WANT_WRITE, SSL_ERROR_ZERO_RETURN}"
          using False by blast
        then show ?thesis
        proof cases
          case rd
          with eq op same obtain y k2 where b: "bio_read ssl wr dl k1 = Some (y, k2)"
            by (auto split: option.splits)
          note Q2 = br [OF Q1 b]
          show ?thesis
          proof (cases y)
            case (Inl e)
            with eq op same rd b Q2 show ?thesis by auto
          next
            case (Inr u)
            with Q2 have Q2: "Q k2" by simp
            from Inr eq op same rd b obtain v k3 where w: "bio_write ssl rd dl k2 = Some (v, k3)"
              by (auto split: option.splits)
            note Q3 = bw [OF Q2 w]
            show ?thesis
            proof (cases v)
              case (Inl e)
              with eq op same rd b Inr w Q3 show ?thesis by auto
            next
              case v: (Inr n)
              show ?thesis
              proof (cases "n = 0")
                case True
                with eq op same rd b Inr w Q3 v show ?thesis by auto
              next
                case False
                with eq op same rd b Inr w v have "f ssl rd wr dl oper k3 = Some q" by simp
                with Q3 v show ?thesis by (intro again) auto
              qed
            qed
          qed
        next
          case wr
          with eq op same obtain y k2 where b: "bio_read ssl wr dl k1 = Some (y, k2)"
            by (auto split: option.splits)
          note Q2 = br [OF Q1 b]
          show ?thesis
          proof (cases y)
            case (Inl e)
            with eq op same wr b Q2 show ?thesis by auto
          next
            case (Inr u)
            with eq op same wr b have "f ssl rd wr dl oper k2 = Some q" by simp
            moreover have "Q k2" using Q2 Inr by simp
            ultimately show ?thesis by (intro again)
          qed
        next
          case zero
          with eq op same have "q = (Inr (0, []), k1)" by simp
          with Q1 assms(4) [OF Q op zero] show ?thesis by simp
        next
          case other
          with eq op same assms(7) [OF Q1] show ?thesis by auto
        qed
      qed
    qed
  qed
  with Q have "?R (z, k')" by blast
  then show ?thesis unfolding fst_conv snd_conv .
qed

lemma service_operation_keeps:
  fixes ssl :: "'k openssl"
  assumes run: "service_operation ssl rd wr dl oper k = Some (z, k')" and Q: "Q k"
    and op_fails: "\<And>k r k1. Q k \<Longrightarrow> oper k = (r, k1) \<Longrightarrow>
      ssl_get_error ssl (fst r) k1 \<noteq> SSL_ERROR_NONE \<Longrightarrow> Q k1"
    and zero: "\<And>k r k1. Q k \<Longrightarrow> oper k = (r, k1) \<Longrightarrow>
      ssl_get_error ssl (fst r) k1 = SSL_ERROR_ZERO_RETURN \<Longrightarrow> E k1"
    and br: "\<And>k z k1. Q k \<Longrightarrow> bio_read ssl wr dl k = Some (z, k1) \<Longrightarrow> Q k1"
    and bw: "\<And>k z k1. Q k \<Longrightarrow> bio_write ssl rd dl k = Some (z, k1) \<Longrightarrow> Q k1 \<and> (z = Inr 0 \<longrightarrow> E k1)"
  shows "case z of
      Inl e \<Rightarrow> Q k'
    | Inr r \<Rightarrow> r = (0, []) \<and> Q k' \<and> E k' \<or>
        (\<exists>k1. Q k1 \<and> oper k1 = (r, k') \<and> ssl_get_error ssl (fst r) k' = SSL_ERROR_NONE)"
  using run Q op_fails zero
proof (rule service_operation_result [where F = Q])
  fix k z k1 assume q: "Q k"
  { assume "bio_read ssl wr dl k = Some (z, k1)"
    from br [OF q this] show "case z of Inl e \<Rightarrow> Q k1 | Inr u \<Rightarrow> Q k1" by (simp split: sum.split) }
  { fix z :: "exn + nat"
    assume "bio_write ssl rd dl k = Some (z, k1)"
    from bw [OF q this] show "case z of Inl e \<Rightarrow> Q k1 | Inr n \<Rightarrow> Q k1 \<and> (n = 0 \<longrightarrow> E k1)"
      by (simp split: sum.split) }
qed

subsection \<open>Reading plaintext\<close>

text \<open>
  A read through TLS gives plaintext, or nothing; nothing comes only from the end of the
  plaintext or from the end of the TCP stream.
\<close>

lemma tls_read_plain:
  assumes law: "ssl_plaintext ssl rd wr plain"
    and run: "service_operation ssl rd wr dl (sys_ssl_read ssl n) k = Some (z, k')"
  shows "case z of
      Inl e \<Rightarrow> plain k' = plain k
    | Inr r \<Rightarrow> r = (0, []) \<and> plain k' = plain k \<and>
          (plain k' = [] \<or> (\<exists>k1. rd dl buffer_size k1 = Some (Inr [], k'))) \<or>
        0 < fst r \<and> snd r \<noteq> [] \<and> plain k = snd r @ plain k'"
proof -
  note law' = ssl_plaintextD [OF law]
  let ?Q = "\<lambda>k'. plain k' = plain k"
  let ?E = "\<lambda>k'. plain k' = [] \<or> (\<exists>k1. rd dl buffer_size k1 = Some (Inr [], k'))"
  have kept: "case z of
      Inl e \<Rightarrow> ?Q k'
    | Inr r \<Rightarrow> r = (0, []) \<and> ?Q k' \<and> ?E k' \<or>
        (\<exists>k1. ?Q k1 \<and> sys_ssl_read ssl n k1 = (r, k') \<and>
          ssl_get_error ssl (fst r) k' = SSL_ERROR_NONE)"
  proof (rule service_operation_keeps [OF run, of ?Q])
    fix k1 r k2
    assume q: "?Q k1" and op: "sys_ssl_read ssl n k1 = (r, k2)"
    { assume "ssl_get_error ssl (fst r) k2 \<noteq> SSL_ERROR_NONE"
      with law'(3) have "fst r \<le> 0" by fastforce
      with law'(2) [of n k1 "fst r" "snd r" k2] op q show "?Q k2" by simp }
    { assume "ssl_get_error ssl (fst r) k2 = SSL_ERROR_ZERO_RETURN"
      with law'(4) [of n k1 "fst r" "snd r" k2] op show "?E k2" by simp }
  next
    fix k1 y k2
    assume "?Q k1" "bio_read ssl wr dl k1 = Some (y, k2)"
    then show "?Q k2"
      using bio_read_keeps [of ?Q wr ssl dl k1 y k2] law'(5,8) by metis
  next
    fix k1 y k2
    assume "?Q k1" "bio_write ssl rd dl k1 = Some (y, k2)"
    then show "?Q k2 \<and> (y = Inr 0 \<longrightarrow> ?E k2)"
      using bio_write_keeps [of ?Q rd ssl dl k1 y k2] law'(6,7) by metis
  qed simp
  have fresh: "0 < fst r \<and> snd r \<noteq> [] \<and> plain k = snd r @ plain k'"
    if "plain k1 = plain k" "sys_ssl_read ssl n k1 = (r, k')"
      "ssl_get_error ssl (fst r) k' = SSL_ERROR_NONE" for r k1
  proof -
    have pos: "0 < fst r" using law'(3) that(3) by simp
    have "plain k1 = snd r @ plain k'"
      using law'(1) [of n k1 "fst r" "snd r" k'] that(2) pos by simp
    moreover have "snd r \<noteq> []"
      using that(2) pos by (auto simp: sys_ssl_read_def split: prod.splits option.splits)
    ultimately show ?thesis using pos that(1) by simp
  qed
  show ?thesis
  proof (cases z)
    case (Inr r)
    with kept
    consider "r = (0, []) \<and> ?Q k' \<and> ?E k'"
      | k1 where "?Q k1" "sys_ssl_read ssl n k1 = (r, k')"
          "ssl_get_error ssl (fst r) k' = SSL_ERROR_NONE"
      by (simp only: sum.case) blast
    then show ?thesis
    proof cases
      case 2
      with fresh Inr show ?thesis by (simp only: sum.case) blast
    qed (use Inr in auto)
  qed (use kept in simp)
qed

lemma tls_reads_stream:
  assumes law: "ssl_plaintext ssl rd wr plain" and whole: "not_truncated rd plain"
  shows "reads_stream (tls_read_some ssl rd wr) plain"
proof (rule tls_reader.stream_reader)
  fix dl n k bs k'
  assume "tls_read_some ssl rd wr dl n k = Some (Inr bs, k')"
  then obtain r where "service_operation ssl rd wr dl (sys_ssl_read ssl n) k = Some (Inr r, k')"
      and bs: "bs = snd r"
    by (auto simp: tls_read_some_def io_bind_def split: option.splits sum.splits if_splits)
  from tls_read_plain [OF law this(1)] whole bs
  show "plain k = bs @ plain k' \<and> (0 < n \<and> bs = [] \<longrightarrow> plain k = [])"
    by (auto simp: not_truncated_def)
next
  fix dl n k e k'
  assume t: "tls_read_some ssl rd wr dl n k = Some (Inl e, k')"
  then obtain z where z: "service_operation ssl rd wr dl (sys_ssl_read ssl n) k = Some (z, k')"
      and "z = Inl e \<or> (\<exists>r. z = Inr r \<and> fst r < 0)"
    by (auto simp: tls_read_some_def io_bind_def split: option.splits sum.splits if_splits)
  with tls_read_plain [OF law z] show "plain k' = plain k" by auto
qed

text \<open>C30: Over TLS, reading exactly \<open>n\<close> bytes gives the next \<open>n\<close> bytes of the plaintext the peer
  sent, in order and none twice, whatever records it came in and however often the handshake
  wanted to read or write meanwhile; fewer only at its end. If a read throws, fewer than \<open>n\<close> bytes
  have been taken. This rests on OpenSSL's documented behaviour and on a TCP stream that does not
  end before the plaintext does.\<close>

theorem tls_read_exactly_plaintext:
  assumes "ssl_plaintext ssl rd wr plain" "not_truncated rd plain"
  shows "case read_exactly (tls_read_some ssl rd wr) dl n [] k of
           None \<Rightarrow> \<exists>m k1. 0 < m \<and> m \<le> n \<and> tls_read_some ssl rd wr dl m k1 = None
         | Some (Inr bs, k') \<Rightarrow> bs = take n (plain k) \<and> plain k' = drop n (plain k)
         | Some (Inl e, k') \<Rightarrow>
             (\<exists>m<n. plain k' = drop m (plain k)) \<and>
             (\<exists>m k1. 0 < m \<and> m \<le> n \<and> tls_read_some ssl rd wr dl m k1 = Some (Inl e, k'))"
  using read_exactly_stream [OF tls_reads_stream [OF assms], of dl n "[]" k]
  unfolding exactly_outcome_def append_Nil .

text \<open>OpenSSL with the plaintext at hand, two bytes to a record.\<close>

definition plain_ssl :: "byte list openssl" where
  "plain_ssl = \<lparr>
     ssl_new = (\<lambda>f k. k), ssl_free = (\<lambda>k. k), ssl_set_host = (\<lambda>h k. k),
     ssl_connect = (\<lambda>k. (1, k)),
     ssl_read = (\<lambda>n k. (Some (take (min 2 n) k), 0, drop (min 2 n) k)),
     ssl_write = (\<lambda>bs k. (-1, k)),
     ssl_get_error = (\<lambda>r k. if 0 < r then 0 else if k = [] then 6 else 5),
     bio_pending = (\<lambda>k. 0), bio_take = (\<lambda>n k. (-1, [], k)), bio_put = (\<lambda>bs k. (-1, k))\<rparr>"

lemma plain_ssl_law: "ssl_plaintext plain_ssl (\<lambda>dl n k. None) (\<lambda>dl bs k. None) (\<lambda>k. k)"
  by (auto simp: ssl_plaintext_def plain_ssl_def sys_ssl_read_def min_def split: if_splits)

lemma plain_ssl_read:
  "0 < n \<Longrightarrow> k \<noteq> [] \<Longrightarrow> tls_read_some plain_ssl rd wr dl n k =
    Some (Inr (take (min 2 n) k), drop (min 2 n) k)"
  by (simp add: tls_read_some_def io_bind_def service_operation.simps sys_ssl_read_def plain_ssl_def
      min_def)

theorem tls_read_exactly_plaintext_witness:
  "read_exactly (tls_read_some plain_ssl (\<lambda>dl n k. None) (\<lambda>dl bs k. None)) None 3 [] [1, 2, 3, 4] =
     Some (Inr [1, 2, 3], [4])"
proof -
  let ?rd = "tls_read_some plain_ssl (\<lambda>dl n k. None) (\<lambda>dl bs k. None)"
  have "not_truncated (\<lambda>dl n k. None) (\<lambda>k :: byte list. k)" by (simp add: not_truncated_def)
  note exact = tls_read_exactly_plaintext [OF plain_ssl_law this, where dl = None and n = 3
      and k = "[1, 2, 3, 4]"]
  have "\<exists>bs k'. read_exactly ?rd None 3 [] [1, 2, 3, 4] = Some (Inr bs, k')"
    by (simp add: read_exactly.simps plain_ssl_read)
  with exact show ?thesis by auto
qed

text \<open>C33: The end of the TCP stream is taken for the end of the plaintext: when it comes while OpenSSL
  waits for more, a read gives nothing and does not throw, as after the peer's \<open>close_notify\<close>.
  So whoever can cut the connection can cut the data short unnoticed, and a reader over TLS
  does not see the whole plaintext.\<close>

theorem tls_truncation_unnoticed:
  assumes "sys_ssl_read ssl n k = ((r, bs), k1)" "0 < n"
    and "ssl_get_error ssl r k1 = SSL_ERROR_WANT_READ"
    and "bio_read ssl wr dl k1 = Some (Inr (), k2)"
    and "rd dl buffer_size k2 = Some (Inr [], k3)" and cut: "plain k \<noteq> []"
  shows "read_exactly (tls_read_some ssl rd wr) dl n [] k = Some (Inr [], k3) \<and>
    \<not> reads_stream (tls_read_some ssl rd wr) plain"
proof -
  have t: "tls_read_some ssl rd wr dl n k = Some (Inr [], k3)"
    using assms by (simp add: tls_read_some_def io_bind_def service_operation.simps bio_write_def)
  then have "\<not> reads_stream (tls_read_some ssl rd wr) plain"
    using reads_streamD(3) [where rd = "tls_read_some ssl rd wr" and pending = plain and dl = dl
        and n = n and k = k and bs = "[]" and k' = k3] assms(2) cut by blast
  with t assms(2) show ?thesis by (simp add: read_exactly.simps)
qed

theorem tls_truncation_unnoticed_witness:
  "read_exactly (tls_read_some waiting_ssl (\<lambda>dl n k. Some (Inr [], k)) (\<lambda>dl bs k. None)) None 4 [] 3 =
     Some (Inr [], 3)"
proof -
  have "sys_ssl_read waiting_ssl 4 3 = ((-1, []), 3)" "(0::nat) < 4"
    "ssl_get_error waiting_ssl (-1) 3 = SSL_ERROR_WANT_READ"
    "bio_read waiting_ssl (\<lambda>dl bs k. None) None 3 = Some (Inr (), 3)"
    "(\<lambda>dl n k. Some (Inr [] :: exn + byte list, k)) (None :: ns option) buffer_size (3 :: nat) = Some (Inr [], 3)"
    "replicate (3 :: nat) (0 :: byte) \<noteq> []"
    by (simp_all add: waiting_ssl_def sys_ssl_read_def bio_read_def)
  then show ?thesis
    using tls_truncation_unnoticed [where ssl = waiting_ssl and n = 4 and k = 3 and r = "-1"
        and bs = "[]" and ?k1.0 = 3 and wr = "\<lambda>dl bs k. None" and dl = None and ?k2.0 = 3
        and rd = "\<lambda>dl n k. Some (Inr [], k)" and ?k3.0 = 3 and plain = "\<lambda>k. replicate k 0"]
    by blast
qed

lemma first_unique:
  assumes "l @ x # u = m @ x # v" "x \<notin> set l" "x \<notin> set m"
  shows "l = m \<and> u = v"
  using assms
proof (induction l arbitrary: m)
  case Nil
  then show ?case by (cases m) auto
next
  case (Cons y l)
  then show ?case by (cases m) auto
qed

text \<open>C31: A line read over TLS is the line read over plain TCP. Whatever pieces the bytes come in, how
  much of them was buffered at either end, and whichever deadlines are given: if the same bytes are
  buffered or still to come, both calls hand out the same line and leave the same bytes behind,
  unless one of them has met the end of its stream or a full buffer.\<close>

theorem line_same_over_tls:
  assumes tls: "ssl_plaintext ssl rd wr plain" "not_truncated rd plain"
    and tcp: "peer_sends os park f pending"
    and ok: "buffer_ok b" "buffer_ok c"
    and same: "content b @ pending k = content c @ plain j"
    and b: "read_until_lf_strip_cr (poll_read os park f) dl b k = Some ((Inr s, b'), k')"
    and c: "read_until_lf_strip_cr (tls_read_some ssl rd wr) dl' c j = Some ((Inr t, c'), j')"
  shows "span_bytes b' s = span_bytes c' t \<and> content b' @ pending k' = content c' @ plain j' \<or>
    s = (0, 0) \<and> LF \<notin> set (content b') \<and> (pending k' = [] \<or> snd (empty_buffer b') = 0) \<or>
    t = (0, 0) \<and> LF \<notin> set (content c') \<and> (plain j' = [] \<or> snd (empty_buffer c') = 0)"
proof -
  have one: "(\<exists>l. content b @ pending k = l @ LF # content b' @ pending k' \<and> LF \<notin> set l \<and>
        span_bytes b' s = strip l) \<or>
      s = (0, 0) \<and> LF \<notin> set (content b') \<and> (pending k' = [] \<or> snd (empty_buffer b') = 0)"
    using read_until_stream [OF poll_reads_stream [OF tcp] ok(1), of dl k] b
    by (auto simp: line_outcome_def)
  have two: "(\<exists>l. content c @ plain j = l @ LF # content c' @ plain j' \<and> LF \<notin> set l \<and>
        span_bytes c' t = strip l) \<or>
      t = (0, 0) \<and> LF \<notin> set (content c') \<and> (plain j' = [] \<or> snd (empty_buffer c') = 0)"
    using read_until_stream [OF tls_reads_stream [OF tls] ok(2), of dl' j] c
    by (auto simp: line_outcome_def)
  have line: "span_bytes b' s = span_bytes c' t \<and> content b' @ pending k' = content c' @ plain j'"
    if "content b @ pending k = l @ LF # content b' @ pending k'" "LF \<notin> set l"
      "span_bytes b' s = strip l" "content c @ plain j = m @ LF # content c' @ plain j'"
      "LF \<notin> set m" "span_bytes c' t = strip m" for l m
  proof -
    have "l @ LF # content b' @ pending k' = m @ LF # content c' @ plain j'"
      using that(1,4) same by simp
    from first_unique [OF this that(2,5)] that(3,6) show ?thesis by simp
  qed
  from one two show ?thesis
    by (elim disjE exE conjE) ((rule disjI1, rule line; assumption) | simp)+
qed

theorem line_same_over_tls_witness:
  "\<exists>s b' t c'. read_until_lf_strip_cr (poll_read drip_os (\<lambda>k. Some (Some (), k)) 5) None
       \<lparr>base = 0, storage = [104, 105, 13, 10], data_read = (0, 4), empty_buffer = (4, 0)\<rparr> [33] =
       Some ((Inr s, b'), [33]) \<and>
     read_until_lf_strip_cr (tls_read_some plain_ssl (\<lambda>dl n k. None) (\<lambda>dl bs k. None)) None
       (new_read_buffer 0 (replicate 8 0)) [104, 105, 13, 10, 33] = Some ((Inr t, c'), [33]) \<and>
     span_bytes b' s = span_bytes c' t"
proof -
  let ?b = "\<lparr>base = 0, storage = [104, 105, 13, 10], data_read = (0, 4), empty_buffer = (4, 0)\<rparr>"
  let ?c = "new_read_buffer 0 (replicate 8 0)"
  let ?rd = "tls_read_some plain_ssl (\<lambda>dl n k. None) (\<lambda>dl bs k. None)"
  have b: "\<exists>b'. read_until_lf_strip_cr (poll_read drip_os (\<lambda>k. Some (Some (), k)) 5) None ?b [33] =
      Some ((Inr (0, 2), b'), [33])"
    by (simp add: read_until_lf_strip_cr.simps buffer_find_def span_bytes_def LF_def CR_def
        subspan_def take_line_def consume_def strip_cr_def Let_def)
  have c: "\<exists>c'. read_until_lf_strip_cr ?rd None ?c [104, 105, 13, 10, 33] = Some ((Inr (0, 2), c'), [33])"
    by (simp add: read_until_lf_strip_cr.simps buffer_find_def span_bytes_def
        new_read_buffer_def buffer_do_read_some_def plain_ssl_read remaining_def LF_def CR_def
        subspan_def overwrite_def take_line_def consume_def strip_cr_def Let_def)
  from b c obtain b' c' where runs:
      "read_until_lf_strip_cr (poll_read drip_os (\<lambda>k. Some (Some (), k)) 5) None ?b [33] =
        Some ((Inr (0, 2), b'), [33])"
      "read_until_lf_strip_cr ?rd None ?c [104, 105, 13, 10, 33] = Some ((Inr (0, 2), c'), [33])"
    by blast
  have whole: "not_truncated (\<lambda>dl n k. None) (\<lambda>k :: byte list. k)" by (simp add: not_truncated_def)
  have ok: "buffer_ok ?b" "buffer_ok ?c" by (simp_all add: buffer_ok_def new_read_buffer_def)
  have same: "content ?b @ [33] = content ?c @ [104, 105, 13, 10, 33]"
    by (simp add: content_def span_bytes_def new_read_buffer_def)
  from line_same_over_tls [OF plain_ssl_law whole drip_sends ok same runs] runs show ?thesis
    by auto
qed

end
