(* ===== verification/TlsTransport.thy ===== *)
theory TlsTransport
  imports TlsStreams
begin

text \<open>
  What a TLS connection puts on the wire (\<open>src/tls.cpp\<close>). OpenSSL leaves the ciphertext it makes in
  the BIO pair; the code takes it out and writes it to the socket. \<open>ssl_wire\<close> states what OpenSSL and
  the socket are documented to do with three observers: \<open>made\<close>, all the ciphertext of the connection
  so far, \<open>outgoing\<close>, what of it still lies in the BIO pair, and \<open>sent\<close>, what has gone out.
\<close>

definition grows ::
  "('k \<Rightarrow> byte list) \<Rightarrow> ('k \<Rightarrow> byte list) \<Rightarrow> ('k \<Rightarrow> byte list) \<Rightarrow> 'k \<Rightarrow> 'k \<Rightarrow> bool" where
  "grows made outgoing sent k k1 \<longleftrightarrow>
     (\<exists>x. made k1 = made k @ x \<and> outgoing k1 = outgoing k @ x \<and> sent k1 = sent k)"

definition same_wire ::
  "('k \<Rightarrow> byte list) \<Rightarrow> ('k \<Rightarrow> byte list) \<Rightarrow> ('k \<Rightarrow> byte list) \<Rightarrow> 'k \<Rightarrow> 'k \<Rightarrow> bool" where
  "same_wire made outgoing sent k k1 \<longleftrightarrow>
     made k1 = made k \<and> outgoing k1 = outgoing k \<and> sent k1 = sent k"

definition ssl_wire ::
  "'k openssl \<Rightarrow> (ns option \<Rightarrow> nat \<Rightarrow> ('k, byte list) io) \<Rightarrow>
   (ns option \<Rightarrow> byte list \<Rightarrow> ('k, nat) io) \<Rightarrow>
   ('k \<Rightarrow> byte list) \<Rightarrow> ('k \<Rightarrow> byte list) \<Rightarrow> ('k \<Rightarrow> byte list) \<Rightarrow> bool" where
  "ssl_wire ssl rd wr made outgoing sent \<longleftrightarrow>
     (\<forall>n k r k1. sys_ssl_read ssl n k = (r, k1) \<longrightarrow> grows made outgoing sent k k1) \<and>
     (\<forall>bs k r k1. ssl_write ssl bs k = (r, k1) \<longrightarrow> grows made outgoing sent k k1) \<and>
     (\<forall>k r k1. ssl_connect ssl k = (r, k1) \<longrightarrow> grows made outgoing sent k k1) \<and>
     (\<forall>n k r bs k1. bio_take ssl n k = (r, bs, k1) \<longrightarrow> made k1 = made k \<and> sent k1 = sent k \<and>
        outgoing k = (if 0 < r then take (nat r) bs else []) @ outgoing k1) \<and>
     (\<forall>bs k r k1. bio_put ssl bs k = (r, k1) \<longrightarrow> same_wire made outgoing sent k k1) \<and>
     (\<forall>dl n k z k1. rd dl n k = Some (z, k1) \<longrightarrow> same_wire made outgoing sent k k1) \<and>
     (\<forall>dl bs k z k1. wr dl bs k = Some (z, k1) \<longrightarrow> made k1 = made k \<and> outgoing k1 = outgoing k) \<and>
     (\<forall>dl bs k k1. wr dl bs k = Some (Inr 0, k1) \<longrightarrow> bs = []) \<and>
     writes_sink wr sent"

lemma ssl_wireD:
  assumes "ssl_wire ssl rd wr made outgoing sent"
  shows "sys_ssl_read ssl n k = (r, k1) \<Longrightarrow> grows made outgoing sent k k1"
    and "ssl_write ssl bs k = (w, k1) \<Longrightarrow> grows made outgoing sent k k1"
    and "ssl_connect ssl k = (w, k1) \<Longrightarrow> grows made outgoing sent k k1"
    and "bio_take ssl n k = (w, bs, k1) \<Longrightarrow> made k1 = made k \<and> sent k1 = sent k \<and>
      outgoing k = (if 0 < w then take (nat w) bs else []) @ outgoing k1"
    and "bio_put ssl bs k = (w, k1) \<Longrightarrow> same_wire made outgoing sent k k1"
    and "rd dl n k = Some (z, k1) \<Longrightarrow> same_wire made outgoing sent k k1"
    and "wr dl bs k = Some (y, k1) \<Longrightarrow> made k1 = made k \<and> outgoing k1 = outgoing k"
    and "wr dl bs k = Some (Inr 0, k1) \<Longrightarrow> bs = []"
    and "writes_sink wr sent"
  using assms unfolding ssl_wire_def by metis+

text \<open>
  \<open>intact\<close>: what was made has gone out or lies in the BIO pair, in that order. \<open>gap lost\<close>: the bytes
  \<open>lost\<close> of it are neither here nor there and will never be sent.
\<close>

definition intact ::
  "('k \<Rightarrow> byte list) \<Rightarrow> ('k \<Rightarrow> byte list) \<Rightarrow> ('k \<Rightarrow> byte list) \<Rightarrow> 'k \<Rightarrow> bool" where
  "intact made outgoing sent k \<longleftrightarrow> made k = sent k @ outgoing k"

definition gap ::
  "('k \<Rightarrow> byte list) \<Rightarrow> ('k \<Rightarrow> byte list) \<Rightarrow> ('k \<Rightarrow> byte list) \<Rightarrow> byte list \<Rightarrow> 'k \<Rightarrow> bool" where
  "gap made outgoing sent lost k \<longleftrightarrow> made k = sent k @ lost @ outgoing k"

lemma intact_gap: "intact made outgoing sent k \<longleftrightarrow> gap made outgoing sent [] k"
  by (simp add: intact_def gap_def)

lemma intact_grows: "intact made outgoing sent k \<Longrightarrow> grows made outgoing sent k k1 \<Longrightarrow>
    intact made outgoing sent k1"
  by (auto simp: intact_def grows_def)

lemma intact_same: "intact made outgoing sent k \<Longrightarrow> same_wire made outgoing sent k k1 \<Longrightarrow>
    intact made outgoing sent k1"
  by (auto simp: intact_def same_wire_def)

text \<open>Draining the BIO pair: all of it goes out, or what was taken out and not written is lost.\<close>

lemma bio_read_wire:
  assumes law: "ssl_wire ssl rd wr made outgoing sent" and ok: "intact made outgoing sent k"
    and run: "bio_read ssl wr dl k = Some (z, k')"
  shows "case z of
      Inr u \<Rightarrow> intact made outgoing sent k'
    | Inl e \<Rightarrow> \<exists>lost. gap made outgoing sent lost k'"
proof -
  note law' = ssl_wireD [OF law]
  let ?n = "bio_pending ssl k"
  obtain r bs k1 where t: "bio_take ssl ?n k = (r, bs, k1)" by (cases "bio_take ssl ?n k")
  note taken = law'(4) [OF t]
  consider "z \<noteq> Inr ()" "k' = k" | "z = Inr ()" "k' = k" | "z \<noteq> Inr ()" "k' = k1"
    | y where "r = int ?n" "0 < ?n" "write_all wr dl (take ?n bs) 0 k1 = Some (y, k')"
        "z = (case y of Inl e \<Rightarrow> Inl e | Inr m \<Rightarrow> Inr ())"
    using run t
    by (auto simp: bio_read_def io_bind_def Let_def split: if_splits option.splits sum.splits)
  then show ?thesis
  proof cases
    case 1
    with ok show ?thesis by (auto simp: intact_gap split: sum.split)
  next
    case 2
    with ok show ?thesis by simp
  next
    case 3
    have "gap made outgoing sent (if 0 < r then take (nat r) bs else []) k1"
      using ok taken by (simp add: intact_def gap_def)
    with 3 show ?thesis by (auto split: sum.split)
  next
    case 4
    have keep: "made k' = made k1 \<and> outgoing k' = outgoing k1"
      using write_all_keeps [of "\<lambda>k. made k = made k1 \<and> outgoing k = outgoing k1" wr] law'(7) 4(3)
      by metis
    have out: "write_outcome wr dl sent (take ?n bs) 0 k1 (Some (y, k'))"
      using write_all_sink [OF law'(9), of dl "take ?n bs" 0 k1] 4(3) by simp
    have made: "made k1 = sent k1 @ take ?n bs @ outgoing k1"
      using ok taken 4(1,2) by (simp add: intact_def)
    show ?thesis
    proof (cases y)
      case (Inr m)
      with out obtain i where i: "i \<le> length (take ?n bs)" "sent k' = sent k1 @ take i (take ?n bs)"
          "i < length (take ?n bs) \<longrightarrow> (\<exists>k2. wr dl (drop i (take ?n bs)) k2 = Some (Inr 0, k'))"
        by (auto simp: write_outcome_def)
      have "i = length (take ?n bs)"
      proof (rule ccontr)
        assume "i \<noteq> length (take ?n bs)"
        with i(1) have less: "i < length (take ?n bs)" by (rule le_neq_implies_less)
        with i(3) law'(8) have "drop i (take ?n bs) = []" by blast
        then have "length (take ?n bs) - i = 0" by (metis length_drop list.size(3))
        with less show False by linarith
      qed
      then have "sent k' = sent k1 @ take ?n bs" using i(2) by (simp only: take_all order_refl)
      with made keep 4(4) Inr show ?thesis by (simp add: intact_def)
    next
      case (Inl e)
      with out obtain i where "sent k' = sent k1 @ take i (take ?n bs)"
        by (auto simp: write_outcome_def)
      moreover have "take ?n bs = take i (take ?n bs) @ drop i (take ?n bs)"
        by (rule append_take_drop_id [symmetric])
      ultimately have "gap made outgoing sent (drop i (take ?n bs)) k'"
        using made keep unfolding gap_def by (metis append.assoc)
      with 4(4) Inl show ?thesis by auto
    qed
  qed
qed

text \<open>The operations the service loop is used with.\<close>

inductive ssl_op :: "'k openssl \<Rightarrow> ('k \<Rightarrow> (int \<times> byte list) \<times> 'k) \<Rightarrow> bool" for ssl where
  reading: "ssl_op ssl (sys_ssl_read ssl n)"
| writing: "ssl_op ssl (\<lambda>k. let (r, k1) = ssl_write ssl bs k in ((r, []), k1))"
| connecting: "ssl_op ssl (\<lambda>k. let (r, k1) = ssl_connect ssl k in ((r, []), k1))"

lemma ssl_op_grows:
  assumes law: "ssl_wire ssl rd wr made outgoing sent" and "ssl_op ssl oper" "oper k = (r, k1)"
  shows "grows made outgoing sent k k1"
  using assms(2,3)
  by cases (auto dest: ssl_wireD(1-3) [OF law] split: prod.splits)

lemma service_wire:
  assumes law: "ssl_wire ssl rd wr made outgoing sent" and oper: "ssl_op ssl oper"
    and ok: "intact made outgoing sent k"
    and run: "service_operation ssl rd wr dl oper k = Some (z, k')"
  shows "case z of
      Inr r \<Rightarrow> intact made outgoing sent k'
    | Inl e \<Rightarrow> \<exists>lost. gap made outgoing sent lost k'"
proof -
  note law' = ssl_wireD [OF law]
  let ?Q = "intact made outgoing sent"
  have "case z of
      Inl e \<Rightarrow> \<exists>lost. gap made outgoing sent lost k'
    | Inr r \<Rightarrow> r = (0, []) \<and> ?Q k' \<and> True \<or>
        (\<exists>k1. ?Q k1 \<and> oper k1 = (r, k') \<and> ssl_get_error ssl (fst r) k' = SSL_ERROR_NONE)"
  proof (rule service_operation_result [where Q = ?Q and E = "\<lambda>k. True", OF run ok])
    fix k r k1
    assume "?Q k" "oper k = (r, k1)"
    then show "?Q k1" by (rule intact_grows [OF _ ssl_op_grows [OF law oper]])
  next
    fix k z k1
    assume "?Q k" "bio_read ssl wr dl k = Some (z, k1)"
    from bio_read_wire [OF law this]
    show "case z of Inl e \<Rightarrow> \<exists>lost. gap made outgoing sent lost k1 | Inr u \<Rightarrow> ?Q k1"
      by (auto split: sum.splits)
  next
    fix k k1 and z :: "exn + nat"
    assume q: "?Q k" and w: "bio_write ssl rd dl k = Some (z, k1)"
    have "?Q k1"
      using bio_write_keeps [of ?Q rd ssl dl k z k1] law'(5,6) q w intact_same by metis
    then show "case z of Inl e \<Rightarrow> \<exists>lost. gap made outgoing sent lost k1 | Inr n \<Rightarrow> ?Q k1 \<and> (n = 0 \<longrightarrow> True)"
      by (auto simp: intact_gap split: sum.split)
  qed (auto simp: intact_gap)
  then show ?thesis
    by (auto split: sum.splits intro: intact_grows [OF _ ssl_op_grows [OF law oper]])
qed

text \<open>C13: A TLS connection puts its ciphertext on the wire in order, no byte left out and none twice: as
  long as reads and writes return, all that OpenSSL has made has gone out or waits in the BIO pair
  behind it. If one throws, at most one run of bytes is lost, the part of what was taken out of the
  BIO pair that the socket did not take.\<close>

theorem tls_ciphertext_in_order:
  assumes "ssl_wire ssl rd wr made outgoing sent" "made k = sent k @ outgoing k"
  shows "(case tls_write_some ssl rd wr dl bs k of
            None \<Rightarrow> True
          | Some (Inr n, k') \<Rightarrow> made k' = sent k' @ outgoing k'
          | Some (Inl e, k') \<Rightarrow> \<exists>lost. made k' = sent k' @ lost @ outgoing k') \<and>
    (case tls_read_some ssl rd wr dl m k of
            None \<Rightarrow> True
          | Some (Inr bs, k') \<Rightarrow> made k' = sent k' @ outgoing k'
          | Some (Inl e, k') \<Rightarrow> \<exists>lost. made k' = sent k' @ lost @ outgoing k')"
proof -
  have ok: "intact made outgoing sent k" using assms(2) by (simp add: intact_def)
  note wire = service_wire [OF assms(1) _ ok, unfolded intact_def gap_def]
  have nolost: "made k' = sent k' @ outgoing k' \<Longrightarrow> \<exists>lost. made k' = sent k' @ lost @ outgoing k'" for k'
    by (rule exI [of _ "[]"]) simp
  show ?thesis
    unfolding tls_write_some_def tls_read_some_def io_bind_def
    using wire [OF ssl_op.writing] wire [OF ssl_op.reading] nolost
    by (fastforce split: option.splits sum.splits)
qed

text \<open>Once bytes are lost they stay lost, whatever is called afterwards and however it ends.\<close>

definition short_of ::
  "('k \<Rightarrow> byte list) \<Rightarrow> ('k \<Rightarrow> byte list) \<Rightarrow> ('k \<Rightarrow> byte list) \<Rightarrow> 'k \<Rightarrow> bool" where
  "short_of made outgoing sent k \<longleftrightarrow> length (sent k) + length (outgoing k) < length (made k)"

lemma gap_short: "gap made outgoing sent lost k \<Longrightarrow> lost \<noteq> [] \<Longrightarrow> short_of made outgoing sent k"
  by (simp add: gap_def short_of_def)

lemma short_grows: "short_of made outgoing sent k \<Longrightarrow> grows made outgoing sent k k1 \<Longrightarrow>
    short_of made outgoing sent k1"
  by (auto simp: short_of_def grows_def)

lemma short_same: "short_of made outgoing sent k \<Longrightarrow> same_wire made outgoing sent k k1 \<Longrightarrow>
    short_of made outgoing sent k1"
  by (auto simp: short_of_def same_wire_def)

lemma bio_read_short:
  assumes law: "ssl_wire ssl rd wr made outgoing sent" and short: "short_of made outgoing sent k"
    and run: "bio_read ssl wr dl k = Some (z, k')"
  shows "short_of made outgoing sent k'"
proof -
  note law' = ssl_wireD [OF law]
  let ?n = "bio_pending ssl k"
  obtain r bs k1 where t: "bio_take ssl ?n k = (r, bs, k1)" by (cases "bio_take ssl ?n k")
  have len: "length (outgoing k) = length (if 0 < r then take (nat r) bs else []) + length (outgoing k1)"
    using law'(4) [OF t] by (metis length_append)
  have k1: "made k1 = made k" "sent k1 = sent k" using law'(4) [OF t] by simp_all
  consider "k' = k" | "k' = k1"
    | y where "r = int ?n" "0 < ?n" "write_all wr dl (take ?n bs) 0 k1 = Some (y, k')"
    using run t
    by (auto simp: bio_read_def io_bind_def Let_def split: if_splits option.splits sum.splits)
  then show ?thesis
  proof cases
    case 1
    with short show ?thesis by simp
  next
    case 2
    with short len k1 show ?thesis by (simp add: short_of_def)
  next
    case 3
    have keep: "made k' = made k1 \<and> outgoing k' = outgoing k1"
      using write_all_keeps [of "\<lambda>k. made k = made k1 \<and> outgoing k = outgoing k1" wr] law'(7) 3(3)
      by metis
    define c where "c = take ?n bs"
    have "write_outcome wr dl sent c 0 k1 (Some (y, k'))"
      using write_all_sink [OF law'(9), of dl c 0 k1] 3(3) by (simp add: c_def)
    then have "\<exists>i. sent k' = sent k1 @ take i c"
      by (cases y) (auto simp: write_outcome_def)
    then have "length (sent k') \<le> length (sent k1) + length (take ?n bs)" by (auto simp: c_def)
    with short len k1 keep 3(1,2) show ?thesis by (simp add: short_of_def)
  qed
qed

lemma service_short:
  assumes law: "ssl_wire ssl rd wr made outgoing sent" and oper: "ssl_op ssl oper"
    and short: "short_of made outgoing sent k"
    and run: "service_operation ssl rd wr dl oper k = Some (z, k')"
  shows "short_of made outgoing sent k'"
proof -
  note law' = ssl_wireD [OF law]
  let ?Q = "short_of made outgoing sent"
  have "case z of
      Inl e \<Rightarrow> ?Q k'
    | Inr r \<Rightarrow> r = (0, []) \<and> ?Q k' \<and> True \<or>
        (\<exists>k1. ?Q k1 \<and> oper k1 = (r, k') \<and> ssl_get_error ssl (fst r) k' = SSL_ERROR_NONE)"
  proof (rule service_operation_keeps [where Q = ?Q and E = "\<lambda>k. True", OF run short])
    fix k r k1
    assume "?Q k" "oper k = (r, k1)"
    then show "?Q k1" by (rule short_grows [OF _ ssl_op_grows [OF law oper]])
  next
    fix k z k1
    assume "?Q k" "bio_read ssl wr dl k = Some (z, k1)"
    then show "?Q k1" by (rule bio_read_short [OF law])
  next
    fix k k1 and z :: "exn + nat"
    assume q: "?Q k" and w: "bio_write ssl rd dl k = Some (z, k1)"
    show "?Q k1 \<and> (z = Inr 0 \<longrightarrow> True)"
      using bio_write_keeps [of ?Q rd ssl dl k z k1] law'(5,6) q w short_same by metis
  qed simp
  then show ?thesis
    by (auto split: sum.splits intro: short_grows [OF _ ssl_op_grows [OF law oper]])
qed


subsection \<open>A wire\<close>

text \<open>
  OpenSSL that wraps what it is given as it is, one record at a time, and asks for each record to be
  drained; the state is what was made, what lies in the BIO pair and what went out.
\<close>

type_synonym wire = "byte list \<times> byte list \<times> byte list"

definition wire_ssl :: "wire openssl" where
  "wire_ssl = \<lparr>
     ssl_new = (\<lambda>f k. k), ssl_free = (\<lambda>k. k), ssl_set_host = (\<lambda>h k. k), ssl_connect = (\<lambda>k. (1, k)),
     ssl_read = (\<lambda>n k. (None, -1, k)),
     ssl_write = (\<lambda>bs (m, out, s). if m = [] then (-1, bs, out @ bs, s) else (int (length bs), m, out, s)),
     ssl_get_error = (\<lambda>r k. if 0 < r then 0 else 3),
     bio_pending = (\<lambda>(m, out, s). length out),
     bio_take = (\<lambda>n (m, out, s).
        if out = [] \<or> n = 0 then (-1, [], m, out, s)
        else (int (length (take n out)), take n out, m, drop n out, s)),
     bio_put = (\<lambda>bs k. (int (length bs), k))\<rparr>"

definition wire_write :: "bool \<Rightarrow> ns option \<Rightarrow> byte list \<Rightarrow> (wire, nat) io" where
  "wire_write late dl bs k =
     (if late \<and> dl \<noteq> None then Some (Inl (Timeout ''IOP timed out''), k)
      else Some (Inr (min 2 (length bs)), fst k, fst (snd k), snd (snd k) @ take 2 bs))"

lemma wire_law:
  "ssl_wire wire_ssl (\<lambda>dl n k. None) (wire_write late) fst (\<lambda>k. fst (snd k)) (\<lambda>k. snd (snd k))"
  unfolding ssl_wire_def
  apply (intro conjI)
  subgoal by (auto simp: wire_ssl_def grows_def sys_ssl_read_def split: option.splits prod.splits)
  subgoal by (auto simp: wire_ssl_def grows_def split: if_splits)
  subgoal by (auto simp: wire_ssl_def grows_def)
  subgoal by (auto simp: wire_ssl_def min_def split: if_splits)
  subgoal by (auto simp: wire_ssl_def same_wire_def)
  subgoal by (auto simp: wire_write_def same_wire_def split: if_splits)
  subgoal by (auto simp: wire_write_def split: if_splits)
  subgoal by (auto simp: wire_write_def min_def split: if_splits)
  subgoal by (auto simp: wire_write_def writes_sink_def min_def split: if_splits)
  done

theorem tls_ciphertext_in_order_witness:
  "tls_write_some wire_ssl (\<lambda>dl n k. None) (wire_write False) None [1, 2, 3] ([], [], []) =
     Some (Inr 3, [1, 2, 3], [], [1, 2, 3])"
proof -
  have "\<exists>k. tls_write_some wire_ssl (\<lambda>dl n k. None) (wire_write False) None [1, 2, 3] ([], [], []) =
      Some (Inr 3, k) \<and> fst k = [1, 2, 3] \<and> fst (snd k) = []"
    by (simp add: tls_write_some_def io_bind_def service_operation.simps wire_ssl_def bio_read_def
        buffer_size_def write_all.simps wire_write_def Let_def)
  then obtain k where k: "tls_write_some wire_ssl (\<lambda>dl n k. None) (wire_write False) None [1, 2, 3] ([], [], []) =
      Some (Inr 3, k)" "fst k = [1, 2, 3]" "fst (snd k) = []" by blast
  with tls_ciphertext_in_order [OF wire_law [of False], of "([], [], [])" None "[1, 2, 3]"]
  have "snd (snd k) = [1, 2, 3]" by simp
  with k show ?thesis by (cases k) auto
qed


end
