(* ===== verification/Ledger.thy ===== *)
theory Ledger
  imports Resources TlsStreams
begin

text \<open>
  Which descriptors are open. Every call of the library that makes descriptors, the pipe of the Windows
  build among them (\<open>src/warden.cpp\<close>), is shown to return with exactly those it hands out open
  beside what was, and to throw with none, whatever fails on the way.
\<close>

subsection \<open>The pipe of the Windows build\<close>

text \<open>
  Winsock has no pipes: a pair of connected sockets stands in. The calls it shares with POSIX are those
  of \<open>posix_os\<close>, with \<open>closesocket\<close> for \<open>os_close\<close> and \<open>WSAGetLastError\<close> for \<open>os_errno\<close>.
\<close>

record 'k winsock =
  ws_os :: "'k posix_os"
  ws_getsockname :: "fd \<Rightarrow> 'k \<Rightarrow> int \<times> sockaddr \<times> 'k"
  ws_accept :: "fd \<Rightarrow> 'k \<Rightarrow> fd \<times> 'k"
  ws_ioctl :: "fd \<Rightarrow> 'k \<Rightarrow> int \<times> 'k"        \<comment> \<open>\<open>FIONBIO\<close> with mode 1\<close>

definition WSAEWOULDBLOCK :: int where "WSAEWOULDBLOCK = 10035"
definition INADDR_LOOPBACK :: "32 word" where "INADDR_LOOPBACK = 0x7F000001"

definition win_set_non_blocking :: "'k winsock \<Rightarrow> fd \<Rightarrow> 'k \<Rightarrow> (exn + unit) \<times> 'k" where
  "win_set_non_blocking ws sock k =
     (let (err, k1) = ws_ioctl ws sock k in
      if err = -1 then (Inl (SystemError (get_error (ws_os ws) k1) ''ioctlsocket FIONBIO error''), k1)
      else (Inr (), k1))"

text \<open>
  The end of life of a \<open>posix::fd\<close>: of one that is local to the function, and of one that is handed
  out unless an exception is on its way.
\<close>

definition close_at_end :: "'k posix_os \<Rightarrow> fd \<Rightarrow> (exn + 'a) \<times> 'k \<Rightarrow> (exn + 'a) \<times> 'k" where
  "close_at_end os f r = (fst r, snd (os_close os f (snd r)))"

definition close_on_throw :: "'k posix_os \<Rightarrow> fd \<Rightarrow> (exn + 'a) \<times> 'k \<Rightarrow> (exn + 'a) \<times> 'k" where
  "close_on_throw os f r = (case fst r of Inl e \<Rightarrow> close_at_end os f r | Inr x \<Rightarrow> r)"

definition win_pipe_read_end :: "'k winsock \<Rightarrow> fd \<Rightarrow> fd \<Rightarrow> 'k \<Rightarrow> (exn + fd \<times> fd) \<times> 'k" where
  "win_pipe_read_end ws server write k =
     (let os = ws_os ws; (read, k1) = ws_accept ws server k in
      if read = invalid_handle
      then (Inl (SystemError (get_error os k1)
              ''Didn't get a valid read socket from accept for a pipe''), k1)
      else close_on_throw os read
        (case win_set_non_blocking ws read k1 of
           (Inl e, k2) \<Rightarrow> (Inl e, k2)
         | (Inr u, k2) \<Rightarrow> (Inr (read, write), k2)))"

definition win_pipe_connect :: "'k winsock \<Rightarrow> fd \<Rightarrow> sockaddr \<Rightarrow> fd \<Rightarrow> 'k \<Rightarrow> (exn + fd \<times> fd) \<times> 'k" where
  "win_pipe_connect ws server name write k =
     (let os = ws_os ws; (r, k1) = os_connect os write name k in
      if r \<noteq> 0 then
        (let error = get_error os k1 in
         if error \<noteq> WSAEWOULDBLOCK
         then (Inl (SystemError error ''connecting write end part 1''), k1)
         else win_pipe_read_end ws server write k1)
      else (Inl (RuntimeError ''Expected WSAEWOULDBLOCK when connecting write end''), k1))"

definition win_create_pipe ::
  "'k winsock \<Rightarrow> (fd \<Rightarrow> 'k \<Rightarrow> (exn + unit) \<times> 'k) \<Rightarrow> 'k \<Rightarrow> (exn + fd \<times> fd) \<times> 'k" where
  "win_create_pipe ws prepare k =
     (let os = ws_os ws; (server, k1) = os_socket os AF_INET SOCK_STREAM 0 k in
      if server = invalid_handle
      then (Inl (SystemError (get_error os k1) ''Error creating pipe accept socket''), k1)
      else close_at_end os server
        (case bind_fd os server INADDR_LOOPBACK 0 k1 of
           (Inl e, k2) \<Rightarrow> (Inl e, k2)
         | (Inr u, k2) \<Rightarrow>
             (let (r, name, k3) = ws_getsockname ws server k2 in
              if r \<noteq> 0
              then (Inl (SystemError (get_error os k3) ''getsockname to determine port''), k3)
              else
                (case listen_fd os server 1 k3 of
                   (Inl e, k4) \<Rightarrow> (Inl e, k4)
                 | (Inr v, k4) \<Rightarrow>
                     (case create_socket os prepare AF_INET SOCK_STREAM 0 k4 of
                        (Inl e, k5) \<Rightarrow> (Inl e, k5)
                      | (Inr write, k5) \<Rightarrow>
                          close_on_throw os write (win_pipe_connect ws server name write k5))))))"

subsection \<open>What the calls do to the open descriptors\<close>

definition frames :: "('k \<Rightarrow> fd set) \<Rightarrow> ('k \<Rightarrow> 'r \<times> 'k) \<Rightarrow> bool" where
  "frames opened f \<longleftrightarrow> (\<forall>k. opened (snd (f k)) = opened k)"

text \<open>A call that may make a descriptor: \<open>-1\<close>, or one that was not open.\<close>

definition opens :: "('k \<Rightarrow> fd set) \<Rightarrow> ('k \<Rightarrow> fd \<times> 'k) \<Rightarrow> bool" where
  "opens opened f \<longleftrightarrow>
     (\<forall>k. if fst (f k) = -1 then opened (snd (f k)) = opened k
          else fst (f k) \<notin> opened k \<and> opened (snd (f k)) = insert (fst (f k)) (opened k))"

definition opens_pair :: "('k \<Rightarrow> fd set) \<Rightarrow> ('k \<Rightarrow> (fd \<times> fd) option \<times> 'k) \<Rightarrow> bool" where
  "opens_pair opened f \<longleftrightarrow>
     (\<forall>k. case f k of
        (None, k1) \<Rightarrow> opened k1 = opened k
      | (Some (r, w), k1) \<Rightarrow>
          r \<noteq> w \<and> r \<notin> opened k \<and> w \<notin> opened k \<and> opened k1 = {r, w} \<union> opened k)"

definition os_ledger :: "'k posix_os \<Rightarrow> ('k \<Rightarrow> fd set) \<Rightarrow> bool" where
  "os_ledger os opened \<longleftrightarrow>
     (\<forall>d t p. opens opened (os_socket os d t p)) \<and> opens_pair opened (os_pipe2 os) \<and>
     (\<forall>f k. opened (snd (os_close os f k)) = opened k - {f}) \<and>
     (\<forall>f. frames opened (os_getfl os f)) \<and> (\<forall>f fl. frames opened (os_setfl os f fl)) \<and>
     (\<forall>f a. frames opened (os_bind os f a)) \<and> (\<forall>f b. frames opened (os_listen os f b)) \<and>
     (\<forall>f a. frames opened (os_connect os f a)) \<and>
     (\<forall>f k. opened (snd (snd (os_so_error os f k))) = opened k) \<and>
     (\<forall>h k. opened (snd (snd (os_getaddrinfo os h k))) = opened k) \<and>
     (\<forall>f n. frames opened (os_read os f n)) \<and> (\<forall>f bs. frames opened (os_write os f bs))"

lemma os_ledgerD:
  assumes "os_ledger os opened"
  shows "opens opened (os_socket os d t p)" "opens_pair opened (os_pipe2 os)"
    and "opened (snd (os_close os f k)) = opened k - {f}"
    and "opened (snd (os_getfl os f k)) = opened k" "opened (snd (os_setfl os f fl k)) = opened k"
    and "opened (snd (os_bind os f a k)) = opened k" "opened (snd (os_listen os f b k)) = opened k"
    and "opened (snd (os_connect os f a k)) = opened k"
    and "opened (snd (snd (os_so_error os f k))) = opened k"
    and "opened (snd (snd (os_getaddrinfo os h k))) = opened k"
    and "opened (snd (os_read os f n k)) = opened k" "opened (snd (os_write os f out k)) = opened k"
  using assms by (simp_all add: os_ledger_def frames_def)

lemma opensD:
  "opens opened f \<Longrightarrow> fst (f k) = -1 \<Longrightarrow> opened (snd (f k)) = opened k"
  "opens opened f \<Longrightarrow> fst (f k) \<noteq> -1 \<Longrightarrow> fst (f k) \<notin> opened k"
  "opens opened f \<Longrightarrow> fst (f k) \<noteq> -1 \<Longrightarrow> opened (snd (f k)) = insert (fst (f k)) (opened k)"
  unfolding opens_def by presburger+

text \<open>
  \<open>gives opened B r own\<close>: where \<open>B\<close> were open, a call has returned with \<open>own x\<close> besides, new and
  open, or has thrown with nothing more open than before.
\<close>

definition gives :: "('k \<Rightarrow> fd set) \<Rightarrow> fd set \<Rightarrow> (exn + 'a) \<times> 'k \<Rightarrow> ('a \<Rightarrow> fd set) \<Rightarrow> bool" where
  "gives opened B r own \<longleftrightarrow>
     (case fst r of
        Inl e \<Rightarrow> opened (snd r) = B
      | Inr x \<Rightarrow> opened (snd r) = own x \<union> B \<and> own x \<inter> B = {})"

lemma gives_throw [simp]: "gives opened B (Inl e, k) own \<longleftrightarrow> opened k = B"
  by (simp add: gives_def)

lemma gives_return [simp]:
  "gives opened B (Inr x, k) own \<longleftrightarrow> opened k = own x \<union> B \<and> own x \<inter> B = {}"
  by (simp add: gives_def)

lemma gives_close_at_end:
  assumes law: "os_ledger os opened" and f: "f \<notin> B" and r: "gives opened (insert f B) r own"
  shows "gives opened B (close_at_end os f r) own"
  using r f os_ledgerD(3) [OF law, of f "snd r"]
  by (cases r; cases "fst r") (auto simp: close_at_end_def)

lemma gives_close_on_throw:
  assumes law: "os_ledger os opened" and f: "f \<notin> B" and r: "gives opened (insert f B) r own"
    and own: "\<And>x. fst r = Inr x \<Longrightarrow> own' x = insert f (own x)"
  shows "gives opened B (close_on_throw os f r) own'"
  using r f own os_ledgerD(3) [OF law, of f "snd r"]
  by (cases r; cases "fst r") (auto simp: close_on_throw_def close_at_end_def)

subsection \<open>Sockets and pipes\<close>

lemma framesD: "frames opened f \<Longrightarrow> opened (snd (f k)) = opened k"
  by (simp add: frames_def)

lemma helper_frames:
  assumes "os_ledger os opened"
  shows "frames opened (set_non_blocking os f)" "frames opened (bind_fd os f ad p)"
    and "frames opened (listen_fd os f b)"
  by (simp_all add: frames_def set_non_blocking_def bind_fd_def listen_fd_def split_beta Let_def
      os_ledgerD(4-7) [OF assms])

lemma create_socket_gives:
  assumes law: "os_ledger os opened" and prep: "\<And>f. frames opened (prepare f)"
  shows "gives opened (opened k) (create_socket os prepare d t p k) (\<lambda>s. {s})"
proof (cases "fst (os_socket os d t p k) = -1")
  case True
  with opensD(1) [OF os_ledgerD(1) [OF law]] show ?thesis by (simp add: create_socket_def split_beta)
next
  case False
  let ?s = "fst (os_socket os d t p k)" and ?k = "snd (os_socket os d t p k)"
  note o = opensD(2,3) [OF os_ledgerD(1) [OF law] False]
  have p: "opened (snd (prepare ?s ?k)) = insert ?s (opened k)"
    using framesD [OF prep] o(2) by simp
  then show ?thesis
    using False o(1) os_ledgerD(3) [OF law, of ?s "snd (prepare ?s ?k)"]
    by (cases "prepare ?s ?k"; cases "fst (prepare ?s ?k)") (auto simp: create_socket_def split_beta)
qed

lemma create_pipe_gives:
  assumes "os_ledger os opened"
  shows "gives opened (opened k) (create_pipe os k) (\<lambda>(r, w). {r, w})"
proof -
  obtain q k1 where q: "os_pipe2 os k = (q, k1)" by (cases "os_pipe2 os k")
  have "case os_pipe2 os k of
        (None, k1) \<Rightarrow> opened k1 = opened k
      | (Some (r, w), k1) \<Rightarrow>
          r \<noteq> w \<and> r \<notin> opened k \<and> w \<notin> opened k \<and> opened k1 = {r, w} \<union> opened k"
    using os_ledgerD(2) [OF assms] unfolding opens_pair_def by (rule spec)
  with q show ?thesis by (auto simp: create_pipe_def split: option.splits)
qed

lemma create_pipe_portable_gives:
  assumes law: "os_ledger os opened" and pipe: "opens_pair opened os_pipe"
  shows "gives opened (opened k) (create_pipe_portable os os_pipe k) (\<lambda>(r, w). {r, w})"
proof -
  obtain q k1 where q: "os_pipe k = (q, k1)" by (cases "os_pipe k")
  have o: "case os_pipe k of
        (None, k1) \<Rightarrow> opened k1 = opened k
      | (Some (r, w), k1) \<Rightarrow>
          r \<noteq> w \<and> r \<notin> opened k \<and> w \<notin> opened k \<and> opened k1 = {r, w} \<union> opened k"
    using pipe unfolding opens_pair_def by (rule spec)
  have nb: "opened (snd (set_non_blocking os f k)) = opened k" for f k
    using framesD [OF helper_frames(1) [OF law]] .
  show ?thesis
  proof (cases q)
    case None
    with q o show ?thesis by (simp add: create_pipe_portable_def)
  next
    case (Some rw)
    then obtain r w where rw: "q = Some (r, w)" by (cases rw) auto
    obtain z1 k2 where 1: "set_non_blocking os r k1 = (z1, k2)" by (cases "set_non_blocking os r k1")
    obtain z2 k3 where 2: "set_non_blocking os w k2 = (z2, k3)" by (cases "set_non_blocking os w k2")
    show ?thesis
      using q o rw 1 2 nb [of r k1] nb [of w k2] os_ledgerD(3) [OF law]
      by (cases z1; cases z2) (auto simp: create_pipe_portable_def)
  qed
qed

text \<open>The Winsock calls, and its pipe.\<close>

definition ws_ledger :: "'k winsock \<Rightarrow> ('k \<Rightarrow> fd set) \<Rightarrow> bool" where
  "ws_ledger ws opened \<longleftrightarrow>
     os_ledger (ws_os ws) opened \<and>
     (\<forall>f k. opened (snd (snd (ws_getsockname ws f k))) = opened k) \<and>
     (\<forall>f. opens opened (ws_accept ws f)) \<and> (\<forall>f. frames opened (ws_ioctl ws f))"

lemma win_set_non_blocking_frames:
  "ws_ledger ws opened \<Longrightarrow> opened (snd (win_set_non_blocking ws f k)) = opened k"
  by (simp add: win_set_non_blocking_def ws_ledger_def frames_def split_beta Let_def)

lemma win_read_end_gives:
  assumes law: "ws_ledger ws opened"
  shows "gives opened (opened k) (win_pipe_read_end ws server w k) (\<lambda>(r, w). {r})"
proof -
  have os: "os_ledger (ws_os ws) opened" and acc: "opens opened (ws_accept ws server)"
    using law by (simp_all add: ws_ledger_def)
  let ?r = "fst (ws_accept ws server k)" and ?k = "snd (ws_accept ws server k)"
  obtain z k2 where z: "win_set_non_blocking ws ?r ?k = (z, k2)" by (cases "win_set_non_blocking ws ?r ?k")
  have k2: "opened k2 = opened ?k" using win_set_non_blocking_frames [OF law, of ?r ?k] z by simp
  show ?thesis
  proof (cases "?r = -1")
    case True
    with opensD(1) [OF acc] show ?thesis by (simp add: win_pipe_read_end_def split_beta Let_def)
  next
    case False
    note o = opensD(2,3) [OF acc False]
    show ?thesis
    proof (cases z)
      case (Inl e)
      have "gives opened (opened k) (close_on_throw (ws_os ws) ?r (Inl e, k2)) (\<lambda>(r, w :: fd). {r})"
        by (rule gives_close_on_throw [OF os o(1), where own = "\<lambda>x. {}"]) (use o k2 in auto)
      with False z Inl show ?thesis by (simp add: win_pipe_read_end_def split_beta Let_def)
    next
      case (Inr u)
      with False z k2 o show ?thesis
        by (simp add: win_pipe_read_end_def close_on_throw_def split_beta Let_def)
    qed
  qed
qed

lemma win_connect_gives:
  assumes law: "ws_ledger ws opened"
  shows "gives opened (opened k) (win_pipe_connect ws server name w k) (\<lambda>(r, w). {r})"
proof -
  have "opened (snd (os_connect (ws_os ws) w name k)) = opened k"
    using law by (simp add: ws_ledger_def os_ledgerD(8))
  with win_read_end_gives [OF law, of "snd (os_connect (ws_os ws) w name k)" server w]
  show ?thesis by (simp add: win_pipe_connect_def split_beta Let_def)
qed

lemma win_connect_write_end: "fst (win_pipe_connect ws server name w k) = Inr rw \<Longrightarrow> snd rw = w"
  by (auto simp: win_pipe_connect_def win_pipe_read_end_def close_on_throw_def close_at_end_def Let_def
      split: prod.splits if_splits sum.splits)

lemma win_create_pipe_gives:
  assumes law: "ws_ledger ws opened" and prep: "\<And>f. frames opened (prepare f)"
  shows "gives opened (opened k) (win_create_pipe ws prepare k) (\<lambda>(r, w). {r, w})"
proof (cases "fst (os_socket (ws_os ws) AF_INET SOCK_STREAM 0 k) = -1")
  have os: "os_ledger (ws_os ws) opened" using law by (simp add: ws_ledger_def)
  let ?s = "fst (os_socket (ws_os ws) AF_INET SOCK_STREAM 0 k)"
  let ?B = "insert ?s (opened k)"
  {
    case True
    with opensD(1) [OF os_ledgerD(1) [OF os]] show ?thesis
      by (simp add: win_create_pipe_def split_beta Let_def)
  next
    case False
    obtain s k1 where s: "os_socket (ws_os ws) AF_INET SOCK_STREAM 0 k = (s, k1)"
      by (cases "os_socket (ws_os ws) AF_INET SOCK_STREAM 0 k")
    note o = opensD(2,3) [OF os_ledgerD(1) [OF os] False, simplified s fst_conv snd_conv]
    obtain z k2 where b: "bind_fd (ws_os ws) s INADDR_LOOPBACK 0 k1 = (z, k2)"
      by (cases "bind_fd (ws_os ws) s INADDR_LOOPBACK 0 k1")
    obtain r name k3 where n: "ws_getsockname ws s k2 = (r, name, k3)" by (cases "ws_getsockname ws s k2")
    obtain y k4 where l: "listen_fd (ws_os ws) s 1 k3 = (y, k4)" by (cases "listen_fd (ws_os ws) s 1 k3")
    obtain x k5 where c: "create_socket (ws_os ws) prepare AF_INET SOCK_STREAM 0 k4 = (x, k5)"
      by (cases "create_socket (ws_os ws) prepare AF_INET SOCK_STREAM 0 k4")
    have k2: "opened k2 = insert s (opened k)"
      using framesD [OF helper_frames(2) [OF os], of s INADDR_LOOPBACK 0 k1] b o(2) by simp
    have "opened (snd (snd (ws_getsockname ws s k2))) = opened k2" using law by (simp add: ws_ledger_def)
    with n k2 have k3: "opened k3 = insert s (opened k)" by simp
    have k4: "opened k4 = insert s (opened k)"
      using framesD [OF helper_frames(3) [OF os], of s 1 k3] l k3 by simp
    have g: "gives opened (insert s (opened k)) (x, k5) (\<lambda>w. {w})"
      using create_socket_gives [of "ws_os ws" opened prepare k4 AF_INET SOCK_STREAM 0, OF os prep]
      by (simp only: c k4)
    have w: "gives opened (insert s (opened k))
        (close_on_throw (ws_os ws) w (win_pipe_connect ws s name w k5)) (\<lambda>(r, w). {r, w})"
      if "x = Inr w" for w
    proof (rule gives_close_on_throw [OF os, where own = "\<lambda>(r, w). {r}"])
      show "w \<notin> insert s (opened k)" using g that by auto
      have "opened k5 = insert w (insert s (opened k))" using g that by auto
      with win_connect_gives [OF law, of k5 s name w]
      show "gives opened (insert w (insert s (opened k))) (win_pipe_connect ws s name w k5) (\<lambda>(r, w). {r})"
        by (simp only:)
    qed (auto dest: win_connect_write_end)
    show ?thesis
      using False o(1) s b n l c k2 k3 k4 g w
      by (auto simp: win_create_pipe_def Let_def intro!: gives_close_at_end [OF os] split: sum.split)
  }
qed

subsection \<open>Connecting\<close>

definition parks_keep :: "'k park \<Rightarrow> ('k \<Rightarrow> fd set) \<Rightarrow> bool" where
  "parks_keep park opened \<longleftrightarrow> (\<forall>k r k1. park k = Some (r, k1) \<longrightarrow> opened k1 = opened k)"

lemma attempt_frames:
  assumes law: "os_ledger os opened"
  shows "opened (snd (attempt os (ReadSome f n) dl k)) = opened k"
    and "opened (snd (attempt os (WriteSome f bs) dl k)) = opened k"
    and "opened (snd (attempt os (Connect f a) dl k)) = opened k"
proof -
  show "opened (snd (attempt os (ReadSome f n) dl k)) = opened k"
    using os_ledgerD(11) [OF law, of f n k]
    by (cases "os_read os f n k"; cases "fst (os_read os f n k)") (simp_all add: attempt_read_eq Let_def)
  show "opened (snd (attempt os (WriteSome f bs) dl k)) = opened k"
    using os_ledgerD(12) [OF law, of f bs k]
    by (cases "os_write os f bs k"; cases "fst (os_write os f bs k)") (simp_all add: attempt_write_eq Let_def)
  show "opened (snd (attempt os (Connect f a) dl k)) = opened k"
  proof -
    obtain r e k1 where so: "os_so_error os f k = (r, e, k1)" by (cases "os_so_error os f k")
    with os_ledgerD(9) [OF law, of f k] have "opened k1 = opened k" by simp
    then show ?thesis
      by (cases dl) (simp_all add: so attempt_def insert_timeout_def try_or_resume_obj_def fresh_completion_def connect_try_or_resume_def
          cancel_timeout_then_resume_def start_warden_def store_def fail_def succeed_def
          cancel_timeout_def push_write_def req_upd_def Let_def)
  qed
qed

lemma await_frames:
  assumes run: "await_iop os park kd dl k = Some (x, k')"
    and att: "\<And>k. opened (snd (attempt os kd dl k)) = opened k" and park: "parks_keep park opened"
  shows "opened k' = opened k"
proof -
  have same: "opened k2 = opened k1" if "attempt os kd dl k1 = (z, k2)" for k1 k2 z
    using att [of k1] that by simp
  have "(\<exists>k1. opened k1 = opened k \<and> attempt os kd dl k1 = (Some x, k')) \<or>
      x = fail ETIME ''IOP timed out'' (fresh_completion kd dl) \<and> opened k' = opened k"
    by (rule await_iop_keeps [where Q = "\<lambda>k1. opened k1 = opened k", OF run refl])
      (use same park in \<open>auto simp: parks_keep_def\<close>)
  with same show ?thesis by auto
qed

lemma poll_io_frames:
  assumes law: "os_ledger os opened" and park: "parks_keep park opened"
  shows "poll_read os park f dl n k = Some (z, k') \<Longrightarrow> opened k' = opened k"
    and "poll_write os park f dl bs k = Some (y, k') \<Longrightarrow> opened k' = opened k"
proof -
  assume run: "poll_read os park f dl n k = Some (z, k')"
  then obtain x where "await_iop os park (ReadSome f n) dl k = Some (x, k')"
    by (auto simp: poll_read_def split: option.splits sum.splits)
  from await_frames [OF this attempt_frames(1) [OF law] park] show "opened k' = opened k" .
next
  assume run: "poll_write os park f dl bs k = Some (y, k')"
  then obtain x where "await_iop os park (WriteSome f bs) dl k = Some (x, k')"
    by (auto simp: poll_write_def split: option.splits sum.splits ret.splits)
  from await_frames [OF this attempt_frames(2) [OF law] park] show "opened k' = opened k" .
qed

lemma connect_suspend_frames:
  assumes "os_ledger os opened"
  shows "opened (kern (snd (connect_await_suspend os f a c x h w))) = opened (kern w)"
proof -
  obtain r k where c: "os_connect os f a (kern w) = (r, k)" by (cases "os_connect os f a (kern w)")
  with os_ledgerD(8) [OF assms, of f a "kern w"] have "opened k = opened (kern w)" by simp
  with c show ?thesis
    by (simp add: connect_await_suspend_def store_def insert_timeout_def push_write_def req_upd_def Let_def
        split: option.split)
qed

lemma poll_connect_frames:
  assumes law: "os_ledger os opened" and park: "parks_keep park opened"
    and run: "poll_connect os park f a dl k = Some (z, k')"
  shows "opened k' = opened k"
proof -
  let ?x = "fresh_completion (Connect f a) dl"
  obtain h w where hw: "connect_await_suspend os f a 0 ?x (Coro 0) (start_warden k) = (h, w)"
    by (cases "connect_await_suspend os f a 0 ?x (Coro 0) (start_warden k)")
  have w: "opened (kern w) = opened k"
    using connect_suspend_frames [OF law, of f a 0 ?x "Coro 0" "start_warden k"] hw
    by (simp add: start_warden_def)
  note aw = await_frames [OF _ attempt_frames(3) [OF law] park]
  show ?thesis
    using run hw w park
    by (auto simp: poll_connect_def parks_keep_def Let_def split: if_splits option.splits sum.splits
        dest!: aw)
qed

lemma connect_address_gives:
  assumes law: "os_ledger os opened" and park: "parks_keep park opened"
    and run: "connect_address os park dl a k = Some r"
  shows "gives opened (opened k) r (\<lambda>s. {s})"
proof -
  have prep: "frames opened (do_prepare_socket os f)" for f
    using helper_frames(1) [OF law] by (simp add: do_prepare_socket_def frames_def)
  obtain x k1 where c: "create_socket os (do_prepare_socket os) (sa_family a) SOCK_STREAM 0 k = (x, k1)"
    by (cases "create_socket os (do_prepare_socket os) (sa_family a) SOCK_STREAM 0 k")
  have g: "gives opened (opened k) (x, k1) (\<lambda>s. {s})"
    using create_socket_gives [of os opened "do_prepare_socket os" k "sa_family a" SOCK_STREAM 0, OF law prep]
    by (simp only: c)
  show ?thesis
  proof (cases x)
    case (Inl e)
    with run have "r = (Inl e, k1)" by (simp add: connect_address_def c del: SOCK_STREAM_def)
    with g Inl show ?thesis by simp
  next
    case (Inr s)
    obtain y k2 where y: "poll_connect os park s a dl k1 = Some (y, k2)"
      using run Inr by (cases "poll_connect os park s a dl k1")
        (auto simp: connect_address_def c simp del: SOCK_STREAM_def)
    have r: "r = (case y of Inl e \<Rightarrow> (Inl e, snd (os_close os s k2)) | Inr u \<Rightarrow> (Inr s, k2))"
      using run Inr y by (auto simp: connect_address_def c simp del: SOCK_STREAM_def split: sum.splits)
    have "opened k2 = opened k1" by (rule poll_connect_frames [OF law park y])
    with r g Inr os_ledgerD(3) [OF law, of s k2] show ?thesis by (cases y) auto
  qed
qed

lemma connect_hosts_gives:
  assumes tr: "\<And>a k r. tr a k = Some r \<Longrightarrow> gives opened (opened k) r own"
  shows "connect_hosts tr hostname as eptr k = Some r \<Longrightarrow> gives opened (opened k) r own"
proof (induction as arbitrary: eptr k)
  case Nil
  then show ?case by (cases eptr) auto
next
  case (Cons a as)
  obtain z k1 where z: "tr a k = Some (z, k1)" using Cons.prems by (cases "tr a k") auto
  show ?case
  proof (cases z)
    case (Inl e)
    with Cons.prems z have "connect_hosts tr hostname as (Some e) k1 = Some r" by simp
    from Cons.IH [OF this] tr [OF z] Inl show ?thesis by simp
  next
    case (Inr x)
    with Cons.prems z tr [OF z] show ?thesis by simp
  qed
qed

lemma addrinfo_frames: "os_ledger os opened \<Longrightarrow> opened (snd (addrinfo os h p k)) = opened k"
  using os_ledgerD(10) [of os opened h k] by (auto simp: addrinfo_def split_beta Let_def)

text \<open>OpenSSL opens and closes no descriptors.\<close>

definition ssl_ledger :: "'k openssl \<Rightarrow> ('k \<Rightarrow> fd set) \<Rightarrow> bool" where
  "ssl_ledger ssl opened \<longleftrightarrow>
     (\<forall>f k. opened (ssl_new ssl f k) = opened k) \<and> (\<forall>k. opened (ssl_free ssl k) = opened k) \<and>
     (\<forall>h k. opened (ssl_set_host ssl h k) = opened k) \<and>
     frames opened (ssl_connect ssl) \<and>
     (\<forall>n k r bs k1. bio_take ssl n k = (r, bs, k1) \<longrightarrow> opened k1 = opened k) \<and>
     (\<forall>bs k r k1. bio_put ssl bs k = (r, k1) \<longrightarrow> opened k1 = opened k)"

lemma tls_connect_gives:
  assumes law: "os_ledger os opened" and park: "parks_keep park opened" and ssl: "ssl_ledger ssl opened"
    and run: "tls_connect os park ssl sni dl a k = Some r"
  shows "gives opened (opened k) r (\<lambda>s. {s})"
proof -
  obtain z k1 where c: "connect_address os park dl a k = Some (z, k1)"
    using run by (auto simp: tls_connect_def io_bind_def split: option.splits)
  note g = connect_address_gives [OF law park c]
  let ?op = "\<lambda>k. let (r, k2) = ssl_connect ssl k in ((r, [] :: byte list), k2)"
  have op: "opened k2 = opened k" if "?op k = (q, k2)" for q k k2
    using ssl that framesD [of opened "ssl_connect ssl" k] by (auto simp: ssl_ledger_def split: prod.splits)
  have serve: "opened k2 = opened k1"
    if run: "service_operation ssl (poll_read os park f) (poll_write os park f) dl ?op k1 = Some (y, k2)"
    for f k1 k2 y
  proof -
    let ?Q = "\<lambda>k. opened k = opened k1"
    have "case y of
        Inl e \<Rightarrow> ?Q k2
      | Inr r \<Rightarrow> r = (0, []) \<and> ?Q k2 \<and> True \<or>
          (\<exists>k3. ?Q k3 \<and> ?op k3 = (r, k2) \<and> ssl_get_error ssl (fst r) k2 = SSL_ERROR_NONE)"
    proof (rule service_operation_keeps [where Q = ?Q and E = "\<lambda>k. True", OF run refl])
      fix k r k3 assume "?Q k" "?op k = (r, k3)"
      with op [of k r k3] show "?Q k3" by (simp only:)
    next
      fix k z k3 assume q: "?Q k" and r: "bio_read ssl (poll_write os park f) dl k = Some (z, k3)"
      show "?Q k3"
        by (rule bio_read_keeps [where Q = ?Q, OF _ _ r q])
          (use poll_io_frames(2) [OF law park] ssl in \<open>auto simp: ssl_ledger_def\<close>)
    next
      fix k k3 and z :: "exn + nat"
      assume q: "?Q k" and w: "bio_write ssl (poll_read os park f) dl k = Some (z, k3)"
      have "?Q k3 \<and> (z = Inr 0 \<longrightarrow> poll_read os park f dl buffer_size k = Some (Inr [], k3))"
        by (rule bio_write_keeps [where Q = ?Q, OF _ _ w q])
          (use poll_io_frames(1) [OF law park] ssl in \<open>auto simp: ssl_ledger_def\<close>)
      then show "?Q k3 \<and> (z = Inr 0 \<longrightarrow> True)" by simp
    qed simp
    then show ?thesis
    proof (cases y)
      case (Inr r)
      with \<open>case y of Inl e \<Rightarrow> _ | Inr r \<Rightarrow> _\<close> show ?thesis using op by (simp only: sum.case) metis
    qed simp
  qed
  have start: "opened (ssl_set_host ssl sni (ssl_new ssl f k)) = opened k" "opened (ssl_free ssl k) = opened k"
    for f k using ssl by (simp_all add: ssl_ledger_def)
  show ?thesis
  proof (cases z)
    case (Inl e)
    with run c g show ?thesis by (simp add: tls_connect_def io_bind_def)
  next
    case (Inr f)
    let ?k = "ssl_set_host ssl sni (ssl_new ssl f k1)"
    obtain y k2 where y: "service_operation ssl (poll_read os park f) (poll_write os park f) dl
        (\<lambda>k. let (r, k2) = ssl_connect ssl k in ((r, []), k2)) ?k = Some (y, k2)"
      using run c Inr by (auto simp: tls_connect_def io_bind_def split: option.splits)
    have "opened k2 = opened k1" using serve [OF y] start(1) by simp
    with run c g Inr y start(2) os_ledgerD(3) [OF law, of f "ssl_free ssl k2"] show ?thesis
      by (cases y) (auto simp: tls_connect_def io_bind_def)
  qed
qed


text \<open>A kernel that keeps the open descriptors and gives out the number after the largest.\<close>

definition next_fd :: "fd list \<Rightarrow> fd" where
  "next_fd k = foldr max k 2 + 1"

lemma next_fd_new: "x \<in> set k \<Longrightarrow> x < next_fd k" "2 < next_fd k"
proof -
  have "x \<in> set k \<Longrightarrow> x \<le> foldr max k 2" by (induction k) auto
  then show "x \<in> set k \<Longrightarrow> x < next_fd k" by (simp add: next_fd_def)
  have "2 \<le> foldr max k (2 :: int)" by (induction k) auto
  then show "2 < next_fd k" by (simp add: next_fd_def)
qed

definition open_one :: "fd list \<Rightarrow> fd \<times> fd list" where
  "open_one k = (next_fd k, next_fd k # k)"

definition open_two :: "fd list \<Rightarrow> (fd \<times> fd) option \<times> fd list" where
  "open_two k = (Some (next_fd k, next_fd k + 1), next_fd k # (next_fd k + 1) # k)"

lemma open_laws: "opens set open_one" "opens_pair set open_two"
proof -
  have "next_fd k \<notin> set k" "next_fd k + 1 \<notin> set k" for k
    using next_fd_new(1) [of "next_fd k" k] next_fd_new(1) [of "next_fd k + 1" k] by auto
  moreover have "next_fd k \<noteq> -1" for k using next_fd_new(2) [of k] by simp
  ultimately show "opens set open_one" "opens_pair set open_two"
    by (auto simp: opens_def opens_pair_def open_one_def open_two_def)
qed

definition counting_os :: "fd list posix_os" where
  "counting_os = quiet_os\<lparr>
     os_socket := (\<lambda>d t p. open_one), os_pipe2 := open_two,
     os_close := (\<lambda>f k. (0, removeAll f k)), os_connect := (\<lambda>f a k. (-1, k)), os_errno := (\<lambda>k. 111),
     os_getaddrinfo := (\<lambda>h k. (0, [\<lparr>sa_family = 2, sa_port = 0, sa_addr = [127, 0, 0, 1]\<rparr>], k))\<rparr>"

lemma counting_ledger: "os_ledger counting_os set"
  using open_laws by (auto simp: os_ledger_def counting_os_def quiet_os_def frames_def)

definition counting_ws :: "fd list winsock" where
  "counting_ws = \<lparr>ws_os = counting_os\<lparr>os_errno := (\<lambda>k. 10035)\<rparr>,
     ws_getsockname = (\<lambda>f k. (0, \<lparr>sa_family = 2, sa_port = 0, sa_addr = [127, 0, 0, 1]\<rparr>, k)),
     ws_accept = (\<lambda>f. open_one), ws_ioctl = (\<lambda>f k. (-1, k))\<rparr>"

lemma counting_ws_ledger: "ws_ledger counting_ws set"
  using open_laws
  by (auto simp: ws_ledger_def counting_ws_def counting_os_def os_ledger_def quiet_os_def frames_def)

definition still_ssl :: "fd list openssl" where
  "still_ssl = \<lparr>
     ssl_new = (\<lambda>f k. k), ssl_free = (\<lambda>k. k), ssl_set_host = (\<lambda>h k. k), ssl_connect = (\<lambda>k. (-1, k)),
     ssl_read = (\<lambda>n k. (None, -1, k)), ssl_write = (\<lambda>bs k. (-1, k)), ssl_get_error = (\<lambda>r k. 1),
     bio_pending = (\<lambda>k. 0), bio_take = (\<lambda>n k. (-1, [], k)), bio_put = (\<lambda>bs k. (-1, k))\<rparr>"


end
