(* ===== verification/Interface.thy ===== *)
theory Interface
  imports PollWarden UringWarden
begin

text \<open>
  The interface of wardens (\<open>include/felspar/io/warden.hpp\<close>) and the allocator that decorates
  one (\<open>allocator.hpp\<close>). \<open>warden_ops\<close> holds the virtual functions, over the state \<open>'w\<close> of the
  warden behind the interface; an IOP is given by the address of its completion. The public
  calls come in overloads (descriptor or owner; no deadline, a deadline or a time out), which
  \<open>sock\<close> and \<open>time_limit\<close> stand for, and end in one virtual call each.
\<close>

record ('w, 'p) warden_ops =
  v_run_until :: "nat \<Rightarrow> 'w \<Rightarrow> ((exn + unit) \<times> 'w) option"
  v_run_batch :: "'w \<Rightarrow> ((exn + unit) \<times> 'w) option"
  v_async_resume :: "coro list \<Rightarrow> 'w \<Rightarrow> (exn + unit) \<times> 'w"
  v_close :: "fd \<Rightarrow> 'w \<Rightarrow> cid \<times> 'w"
  v_sleep :: "ns \<Rightarrow> 'w \<Rightarrow> cid \<times> 'w"
  v_read_some :: "fd \<Rightarrow> nat \<Rightarrow> ns option \<Rightarrow> 'w \<Rightarrow> cid \<times> 'w"
  v_write_some :: "fd \<Rightarrow> byte list \<Rightarrow> ns option \<Rightarrow> 'w \<Rightarrow> cid \<times> 'w"
  v_prepare_socket :: "fd \<Rightarrow> 'w \<Rightarrow> (exn + unit) \<times> 'w"
  v_accept :: "fd \<Rightarrow> ns option \<Rightarrow> 'w \<Rightarrow> cid \<times> 'w"
  v_connect :: "fd \<Rightarrow> sockaddr \<Rightarrow> ns option \<Rightarrow> 'w \<Rightarrow> cid \<times> 'w"
  v_read_ready :: "fd \<Rightarrow> ns option \<Rightarrow> 'w \<Rightarrow> cid \<times> 'w"
  v_write_ready :: "fd \<Rightarrow> ns option \<Rightarrow> 'w \<Rightarrow> cid \<times> 'w"
  v_allocate :: "nat \<Rightarrow> nat \<Rightarrow> 'w \<Rightarrow> 'p \<times> 'w"
  v_deallocate :: "'p \<Rightarrow> nat \<Rightarrow> nat \<Rightarrow> 'w \<Rightarrow> 'w"

text \<open>A \<open>memory_resource\<close>.\<close>

record ('w, 'p) memory_resource =
  allocate :: "nat \<Rightarrow> nat \<Rightarrow> 'w \<Rightarrow> 'p \<times> 'w"
  deallocate :: "'p \<Rightarrow> nat \<Rightarrow> nat \<Rightarrow> 'w \<Rightarrow> 'w"

subsection \<open>The public calls\<close>

fun resolve :: "('w \<Rightarrow> ns \<times> 'w) \<Rightarrow> time_limit \<Rightarrow> 'w \<Rightarrow> ns option \<times> 'w" where
  "resolve clock NoDeadline w = (None, w)"
| "resolve clock (By d) w = (Some d, w)"
| "resolve clock (Within t) w = (let (now, w1) = clock w in (Some (now + t), w1))"

definition warden_async_resume :: "('w, 'p) warden_ops \<Rightarrow> coro list \<Rightarrow> 'w \<Rightarrow> (exn + unit) \<times> 'w" where
  "warden_async_resume ops handles w = v_async_resume ops handles w"

text \<open>\<open>close\<close> of an owner releases its descriptor first, so that only the IOP closes it.\<close>

definition warden_close :: "('w, 'p) warden_ops \<Rightarrow> sock \<Rightarrow> 'w \<Rightarrow> cid \<times> 'w" where
  "warden_close ops s w = v_close ops (native_handle s) w"

definition warden_sleep :: "('w, 'p) warden_ops \<Rightarrow> ns \<Rightarrow> 'w \<Rightarrow> cid \<times> 'w" where
  "warden_sleep ops t w = v_sleep ops t w"

definition warden_read_some ::
  "('w, 'p) warden_ops \<Rightarrow> ('w \<Rightarrow> ns \<times> 'w) \<Rightarrow> sock \<Rightarrow> nat \<Rightarrow> time_limit \<Rightarrow> 'w \<Rightarrow> cid \<times> 'w" where
  "warden_read_some ops clock s n limit w =
     (let (dl, w1) = resolve clock limit w in v_read_some ops (native_handle s) n dl w1)"

definition warden_write_some ::
  "('w, 'p) warden_ops \<Rightarrow> ('w \<Rightarrow> ns \<times> 'w) \<Rightarrow> sock \<Rightarrow> byte list \<Rightarrow> time_limit \<Rightarrow> 'w \<Rightarrow> cid \<times> 'w" where
  "warden_write_some ops clock s bs limit w =
     (let (dl, w1) = resolve clock limit w in v_write_some ops (native_handle s) bs dl w1)"

definition warden_accept ::
  "('w, 'p) warden_ops \<Rightarrow> ('w \<Rightarrow> ns \<times> 'w) \<Rightarrow> sock \<Rightarrow> time_limit \<Rightarrow> 'w \<Rightarrow> cid \<times> 'w" where
  "warden_accept ops clock s limit w =
     (let (dl, w1) = resolve clock limit w in v_accept ops (native_handle s) dl w1)"

definition warden_connect ::
  "('w, 'p) warden_ops \<Rightarrow> ('w \<Rightarrow> ns \<times> 'w) \<Rightarrow> sock \<Rightarrow> sockaddr \<Rightarrow> time_limit \<Rightarrow> 'w \<Rightarrow> cid \<times> 'w" where
  "warden_connect ops clock s a limit w =
     (let (dl, w1) = resolve clock limit w in v_connect ops (native_handle s) a dl w1)"

definition warden_read_ready ::
  "('w, 'p) warden_ops \<Rightarrow> ('w \<Rightarrow> ns \<times> 'w) \<Rightarrow> sock \<Rightarrow> time_limit \<Rightarrow> 'w \<Rightarrow> cid \<times> 'w" where
  "warden_read_ready ops clock s limit w =
     (let (dl, w1) = resolve clock limit w in v_read_ready ops (native_handle s) dl w1)"

definition warden_write_ready ::
  "('w, 'p) warden_ops \<Rightarrow> ('w \<Rightarrow> ns \<times> 'w) \<Rightarrow> sock \<Rightarrow> time_limit \<Rightarrow> 'w \<Rightarrow> cid \<times> 'w" where
  "warden_write_ready ops clock s limit w =
     (let (dl, w1) = resolve clock limit w in v_write_ready ops (native_handle s) dl w1)"

text \<open>The default of \<open>do_prepare_socket\<close>, which the io_uring warden inherits.\<close>

definition default_prepare_socket :: "fd \<Rightarrow> 'w \<Rightarrow> (exn + unit) \<times> 'w" where
  "default_prepare_socket sock w = (Inr (), w)"

text \<open>\<open>run\<close>: the value of the coroutine once \<open>run_until\<close> has come back.\<close>

definition warden_run ::
  "('w, 'p) warden_ops \<Rightarrow> (nat \<Rightarrow> 'w \<Rightarrow> 'a) \<Rightarrow> nat \<Rightarrow> 'w \<Rightarrow> ((exn + 'a) \<times> 'w) option" where
  "warden_run ops consume_value h w =
     (case v_run_until ops h w of
        None \<Rightarrow> None
      | Some (Inl e, w1) \<Rightarrow> Some (Inl e, w1)
      | Some (Inr u, w1) \<Rightarrow> Some (Inr (consume_value h w1), w1))"

subsection \<open>The wardens behind the interface\<close>

definition poll_ops ::
  "'k posix_os \<Rightarrow> 'k user \<Rightarrow> ('k poll_warden, 'p) memory_resource \<Rightarrow> ('k poll_warden, 'p) warden_ops"
where
  "poll_ops os user heap_resource = \<lparr>
     v_run_until = run_until os user, v_run_batch = run_batch os user,
     v_async_resume = (\<lambda>hs w. (Inr (), do_async_resume os hs w)),
     v_close = do_close, v_sleep = do_sleep os, v_read_some = do_read_some,
     v_write_some = do_write_some,
     v_prepare_socket = (\<lambda>s w. let (r, k) = do_prepare_socket os s (kern w) in (r, w\<lparr>kern := k\<rparr>)),
     v_accept = do_accept, v_connect = do_connect, v_read_ready = do_read_ready,
     v_write_ready = do_write_ready,
     v_allocate = allocate heap_resource, v_deallocate = deallocate heap_resource\<rparr>"

definition uring_ops ::
  "'k liburing \<Rightarrow> 'k uring_user \<Rightarrow> ('k uring_warden, 'p) memory_resource
    \<Rightarrow> ('k uring_warden, 'p) warden_ops" where
  "uring_ops ur user heap_resource = \<lparr>
     v_run_until = uring_run_until ur user,
     v_run_batch = (\<lambda>w. map_option (\<lambda>w1. (Inr (), w1)) (uring_run_batch ur user w)),
     v_async_resume = uring_do_async_resume ur,
     v_close = (\<lambda>f. uring_new_iop (Close f) None), v_sleep = (\<lambda>t. uring_new_iop (Sleep t) None),
     v_read_some = (\<lambda>f n. uring_new_iop (ReadSome f n)),
     v_write_some = (\<lambda>f bs. uring_new_iop (WriteSome f bs)),
     v_prepare_socket = default_prepare_socket,
     v_accept = (\<lambda>f. uring_new_iop (Accept f)), v_connect = (\<lambda>f a. uring_new_iop (Connect f a)),
     v_read_ready = (\<lambda>f. uring_new_iop (ReadReady f)),
     v_write_ready = (\<lambda>f. uring_new_iop (WriteReady f)),
     v_allocate = allocate heap_resource, v_deallocate = deallocate heap_resource\<rparr>"

definition poll_clock :: "'k posix_os \<Rightarrow> 'k poll_warden \<Rightarrow> ns \<times> 'k poll_warden" where
  "poll_clock os w = (let (now, k) = os_now os (kern w) in (now, w\<lparr>kern := k\<rparr>))"

text \<open>The allocator: memory from its own resource, everything else from the warden behind it.\<close>

definition allocator ::
  "('w, 'p) warden_ops \<Rightarrow> ('w, 'p) memory_resource \<Rightarrow> ('w, 'p) warden_ops" where
  "allocator backing_warden backing_allocator = \<lparr>
     v_run_until = (\<lambda>h. v_run_until backing_warden h),
     v_run_batch = v_run_batch backing_warden,
     v_async_resume = (\<lambda>hs. v_async_resume backing_warden hs),
     v_close = (\<lambda>f. v_close backing_warden f),
     v_sleep = (\<lambda>t. v_sleep backing_warden t),
     v_read_some = (\<lambda>f n dl. v_read_some backing_warden f n dl),
     v_write_some = (\<lambda>f bs dl. v_write_some backing_warden f bs dl),
     v_prepare_socket = (\<lambda>s. v_prepare_socket backing_warden s),
     v_accept = (\<lambda>f dl. v_accept backing_warden f dl),
     v_connect = (\<lambda>f a dl. v_connect backing_warden f a dl),
     v_read_ready = (\<lambda>f dl. v_read_ready backing_warden f dl),
     v_write_ready = (\<lambda>f dl. v_write_ready backing_warden f dl),
     v_allocate = (\<lambda>bytes alignment. allocate backing_allocator bytes alignment),
     v_deallocate = (\<lambda>p bytes alignment. deallocate backing_allocator p bytes alignment)\<rparr>"

subsection \<open>Every call makes an IOP with the deadline its overload means\<close>

text \<open>
  What every overload of a timed call promises, for a warden whose state is \<open>'w\<close>: the
  completion at the new address is of the right kind, and its deadline is the one the caller
  gave, or the time out counted from one reading of the clock.
\<close>

definition limit_means :: "ns \<Rightarrow> time_limit \<Rightarrow> ns option" where
  "limit_means now limit = (case limit of NoDeadline \<Rightarrow> None | By d \<Rightarrow> Some d | Within t \<Rightarrow> Some (now + t))"

lemma resolve_means: "fst (resolve clock limit w) = limit_means (fst (clock w)) limit"
  by (cases limit) (simp_all add: limit_means_def split: prod.splits)

lemma poll_resolve:
  "resolve (poll_clock os) limit w = (dl, w1) \<Longrightarrow>
   (\<exists>k. w1 = w\<lparr>kern := k\<rparr>) \<and> dl = limit_means (fst (os_now os (kern w))) limit"
  by (cases limit) (auto simp: poll_clock_def limit_means_def split: prod.splits
      intro: exI [of _ "kern w"])

text \<open>The poll warden makes one IOP per call, with that deadline.\<close>

lemma poll_read_some_iop:
  assumes "warden_read_some (poll_ops os user mr) (poll_clock os) s n limit w = (c, w')"
  shows "c = next_cid w \<and> (\<exists>x. heap w' c = Some x \<and> kind x = ReadSome (native_handle s) n \<and>
    deadline x = limit_means (fst (os_now os (kern w))) limit)"
  using assms
  by (auto simp: warden_read_some_def poll_ops_def do_read_some_def new_completion_def store_def
      Let_def split: prod.splits dest: poll_resolve)

subsection \<open>The allocator\<close>

text \<open>
  An allocator answers every call as the warden behind it does, on the same state, so wrapping
  changes only where memory comes from; wrapping twice leaves the outer resource in use.
\<close>

lemma allocator_transparent:
  "warden_read_some (allocator ops mr) clock s n limit = warden_read_some ops clock s n limit"
  "warden_write_some (allocator ops mr) clock s bs limit = warden_write_some ops clock s bs limit"
  "warden_accept (allocator ops mr) clock s limit = warden_accept ops clock s limit"
  "warden_connect (allocator ops mr) clock s a limit = warden_connect ops clock s a limit"
  "warden_read_ready (allocator ops mr) clock s limit = warden_read_ready ops clock s limit"
  "warden_write_ready (allocator ops mr) clock s limit = warden_write_ready ops clock s limit"
  "warden_close (allocator ops mr) s = warden_close ops s"
  "warden_sleep (allocator ops mr) = warden_sleep ops"
  "warden_async_resume (allocator ops mr) = warden_async_resume ops"
  "warden_run (allocator ops mr) cv = warden_run ops cv"
  "allocator (allocator ops mr) mr' = allocator ops mr'"
  by (simp_all add: fun_eq_iff allocator_def warden_read_some_def warden_write_some_def
      warden_accept_def warden_connect_def warden_read_ready_def warden_write_ready_def
      warden_close_def warden_sleep_def warden_async_resume_def warden_run_def)

end
