(* ===== verification/WardenContract.thy ===== *)
theory WardenContract
  imports Interface
begin

text \<open>
  What the public calls of a warden promise (\<open>warden.hpp\<close>), stated once for any warden behind the
  interface and then for the two of the library and for an allocator around either; and the memory
  resource that every warden is (\<open>warden.hpp\<close>, \<open>allocator.hpp\<close>).
\<close>

subsection \<open>The contract\<close>

text \<open>
  \<open>made\<close> is what the application can know of the completion at an address: its kind and the deadline
  it was given. A call makes one IOP at the next address and touches no other.
\<close>

definition makes_iop ::
  "('w \<Rightarrow> cid) \<Rightarrow> ('w \<Rightarrow> cid \<Rightarrow> (iop_kind \<times> ns option) option) \<Rightarrow> iop_kind \<Rightarrow> ns option \<Rightarrow> 'w \<Rightarrow> cid \<times> 'w
    \<Rightarrow> bool" where
  "makes_iop nxt made kd dl w r \<longleftrightarrow>
     fst r = nxt w \<and> nxt (snd r) = Suc (nxt w) \<and> made (snd r) = (made w)(nxt w \<mapsto> (kd, dl))"

locale iop_factory =
  fixes ops :: "('w, 'p) warden_ops"
    and clock :: "'w \<Rightarrow> ns \<times> 'w"
    and nxt :: "'w \<Rightarrow> cid"
    and made :: "'w \<Rightarrow> cid \<Rightarrow> (iop_kind \<times> ns option) option"
  assumes clock_nxt: "nxt (snd (clock w)) = nxt w"
    and clock_made: "made (snd (clock w)) = made w"
    and close_makes: "makes_iop nxt made (Close f) None w (v_close ops f w)"
    and sleep_makes: "makes_iop nxt made (Sleep t) None w (v_sleep ops t w)"
    and read_makes: "makes_iop nxt made (ReadSome f n) dl w (v_read_some ops f n dl w)"
    and write_makes: "makes_iop nxt made (WriteSome f bs) dl w (v_write_some ops f bs dl w)"
    and accept_makes: "makes_iop nxt made (Accept f) dl w (v_accept ops f dl w)"
    and connect_makes: "makes_iop nxt made (Connect f a) dl w (v_connect ops f a dl w)"
    and read_ready_makes: "makes_iop nxt made (ReadReady f) dl w (v_read_ready ops f dl w)"
    and write_ready_makes: "makes_iop nxt made (WriteReady f) dl w (v_write_ready ops f dl w)"

text \<open>The public calls, each with its overloads.\<close>

datatype iop_call =
    CloseCall | SleepCall ns | ReadCall nat | WriteCall "byte list" | AcceptCall
  | ConnectCall sockaddr | ReadReadyCall | WriteReadyCall

fun warden_call ::
  "('w, 'p) warden_ops \<Rightarrow> ('w \<Rightarrow> ns \<times> 'w) \<Rightarrow> iop_call \<Rightarrow> sock \<Rightarrow> time_limit \<Rightarrow> 'w \<Rightarrow> cid \<times> 'w" where
  "warden_call ops clock CloseCall s limit w = warden_close ops s w"
| "warden_call ops clock (SleepCall t) s limit w = warden_sleep ops t w"
| "warden_call ops clock (ReadCall n) s limit w = warden_read_some ops clock s n limit w"
| "warden_call ops clock (WriteCall bs) s limit w = warden_write_some ops clock s bs limit w"
| "warden_call ops clock AcceptCall s limit w = warden_accept ops clock s limit w"
| "warden_call ops clock (ConnectCall a) s limit w = warden_connect ops clock s a limit w"
| "warden_call ops clock ReadReadyCall s limit w = warden_read_ready ops clock s limit w"
| "warden_call ops clock WriteReadyCall s limit w = warden_write_ready ops clock s limit w"

fun call_kind :: "iop_call \<Rightarrow> fd \<Rightarrow> iop_kind" where
  "call_kind CloseCall f = Close f"
| "call_kind (SleepCall t) f = Sleep t"
| "call_kind (ReadCall n) f = ReadSome f n"
| "call_kind (WriteCall bs) f = WriteSome f bs"
| "call_kind AcceptCall f = Accept f"
| "call_kind (ConnectCall a) f = Connect f a"
| "call_kind ReadReadyCall f = ReadReady f"
| "call_kind WriteReadyCall f = WriteReady f"

fun takes_limit :: "iop_call \<Rightarrow> bool" where
  "takes_limit CloseCall = False"
| "takes_limit (SleepCall t) = False"
| "takes_limit q = True"

context iop_factory
begin

lemma resolve_frame:
  "nxt (snd (resolve clock limit w)) = nxt w" "made (snd (resolve clock limit w)) = made w"
  by (cases limit; simp add: clock_nxt clock_made split_beta Let_def)+

lemma call_makes:
  "makes_iop nxt made (call_kind q (native_handle s))
     (if takes_limit q then limit_means (fst (clock w)) limit else None) w
     (warden_call ops clock q s limit w)"
proof -
  obtain dl w1 where r: "resolve clock limit w = (dl, w1)" by (cases "resolve clock limit w")
  have w1: "nxt w1 = nxt w" "made w1 = made w" using resolve_frame [of limit w] r by simp_all
  have dl: "dl = limit_means (fst (clock w)) limit" using resolve_means [of clock limit w] r by simp
  have "makes_iop nxt made kd dl w1 x = makes_iop nxt made kd dl w x" for kd dl x
    by (simp add: makes_iop_def w1)
  then show ?thesis
    using r dl close_makes [of "native_handle s" w] sleep_makes [of _ w]
      read_makes [of _ _ dl w1] write_makes [of _ _ dl w1] accept_makes [of _ dl w1]
      connect_makes [of _ _ dl w1] read_ready_makes [of _ dl w1] write_ready_makes [of _ dl w1]
    by (cases q) (simp_all add: warden_close_def warden_sleep_def warden_read_some_def
        warden_write_some_def warden_accept_def warden_connect_def warden_read_ready_def
        warden_write_ready_def)
qed

text \<open>An allocator around a warden keeps the contract.\<close>

lemma allocator_factory: "iop_factory (allocator ops mr) clock nxt made"
  by unfold_locales (simp_all add: allocator_def clock_nxt clock_made close_makes sleep_makes
      read_makes write_makes accept_makes connect_makes read_ready_makes write_ready_makes)

end

subsection \<open>The two wardens keep it\<close>

text \<open>A sleep has its duration in its kind; the poll warden's deadline for it is its own affair.\<close>

definition poll_made :: "'k poll_warden \<Rightarrow> cid \<Rightarrow> (iop_kind \<times> ns option) option" where
  "poll_made w c =
     map_option (\<lambda>x. (kind x, case kind x of Sleep t \<Rightarrow> None | _ \<Rightarrow> deadline x)) (heap w c)"

definition uring_made :: "'k uring_warden \<Rightarrow> cid \<Rightarrow> (iop_kind \<times> ns option) option" where
  "uring_made w c = map_option (\<lambda>d. (u_kind d, u_deadline d)) (u_heap w c)"

definition uring_clock :: "'k liburing \<Rightarrow> 'k uring_warden \<Rightarrow> ns \<times> 'k uring_warden" where
  "uring_clock ur w = (let (now, k) = os_now (ur_os ur) (u_kern w) in (now, w\<lparr>u_kern := k\<rparr>))"

lemma made_kern [simp]:
  "poll_made (w\<lparr>kern := k\<rparr>) = poll_made w" "uring_made (v\<lparr>u_kern := k\<rparr>) = uring_made v"
  by (simp_all add: poll_made_def uring_made_def fun_eq_iff)

lemma poll_new_makes:
  "makes_iop next_cid poll_made kd (case kd of Sleep t \<Rightarrow> None | _ \<Rightarrow> dl) w (new_completion kd dl w)"
  by (auto simp: makes_iop_def new_completion_def store_def poll_made_def fun_eq_iff Let_def
      split: iop_kind.split)

lemma poll_ops_make:
  "makes_iop next_cid poll_made (Close f) None w (v_close (poll_ops os user mr) f w)"
  "makes_iop next_cid poll_made (ReadSome f n) dl w (v_read_some (poll_ops os user mr) f n dl w)"
  "makes_iop next_cid poll_made (WriteSome f bs) dl w (v_write_some (poll_ops os user mr) f bs dl w)"
  "makes_iop next_cid poll_made (Accept f) dl w (v_accept (poll_ops os user mr) f dl w)"
  "makes_iop next_cid poll_made (Connect f a) dl w (v_connect (poll_ops os user mr) f a dl w)"
  "makes_iop next_cid poll_made (ReadReady f) dl w (v_read_ready (poll_ops os user mr) f dl w)"
  "makes_iop next_cid poll_made (WriteReady f) dl w (v_write_ready (poll_ops os user mr) f dl w)"
  using poll_new_makes [of "Close f" None w] poll_new_makes [of "ReadSome f n" dl w]
    poll_new_makes [of "WriteSome f bs" dl w] poll_new_makes [of "Accept f" dl w]
    poll_new_makes [of "Connect f a" dl w] poll_new_makes [of "ReadReady f" dl w]
    poll_new_makes [of "WriteReady f" dl w]
  by (simp_all add: poll_ops_def do_close_def do_read_some_def do_write_some_def do_accept_def
      do_connect_def do_read_ready_def do_write_ready_def)

lemma poll_sleep_makes:
  "makes_iop next_cid poll_made (Sleep t) None w (v_sleep (poll_ops os user mr) t w)"
proof -
  obtain d k where d: "deadline_from os t (kern w) = (d, k)" by (cases "deadline_from os t (kern w)")
  have "makes_iop next_cid poll_made (Sleep t) None (w\<lparr>kern := k\<rparr>)
      (new_completion (Sleep t) (Some d) (w\<lparr>kern := k\<rparr>))"
    using poll_new_makes [of "Sleep t" "Some d"] by simp
  with d show ?thesis by (simp add: poll_ops_def do_sleep_def makes_iop_def)
qed

interpretation poll_factory: iop_factory "poll_ops os user mr" "poll_clock os" next_cid poll_made
  by unfold_locales (simp_all add: poll_ops_make poll_sleep_makes poll_clock_def split_beta Let_def)

interpretation uring_factory: iop_factory "uring_ops ur user mr" "uring_clock ur" u_next uring_made
proof unfold_locales
  have new: "makes_iop u_next uring_made kd dl w (new_delivery kd dl t w)" for kd dl t w
    by (simp add: makes_iop_def new_delivery_def u_store_def uring_made_def fun_eq_iff Let_def)
  fix f t n bs a dl w
  show "makes_iop u_next uring_made (Close f) None w (v_close (uring_ops ur user mr) f w)"
    "makes_iop u_next uring_made (Sleep t) None w (v_sleep (uring_ops ur user mr) t w)"
    "makes_iop u_next uring_made (ReadSome f n) dl w (v_read_some (uring_ops ur user mr) f n dl w)"
    "makes_iop u_next uring_made (WriteSome f bs) dl w (v_write_some (uring_ops ur user mr) f bs dl w)"
    "makes_iop u_next uring_made (Accept f) dl w (v_accept (uring_ops ur user mr) f dl w)"
    "makes_iop u_next uring_made (Connect f a) dl w (v_connect (uring_ops ur user mr) f a dl w)"
    "makes_iop u_next uring_made (ReadReady f) dl w (v_read_ready (uring_ops ur user mr) f dl w)"
    "makes_iop u_next uring_made (WriteReady f) dl w (v_write_ready (uring_ops ur user mr) f dl w)"
    by (simp_all add: uring_ops_def new)
qed (simp_all add: uring_clock_def split_beta Let_def)


subsection \<open>Memory resources\<close>

text \<open>
  Every warden is a \<open>memory_resource\<close>: its own memory comes from \<open>new_delete_resource\<close>, an
  allocator's from the resource behind it. A resource outside the library, such as
  \<open>new_delete_resource\<close>, is given by its address; its allocation and its notion of equality are
  parameters.
\<close>

datatype resource = WardenResource nat | AllocatorResource nat resource | OtherResource nat

definition warden_memory :: "('w, 'p) memory_resource \<Rightarrow> ('w, 'p) memory_resource" where
  "warden_memory new_delete = \<lparr>
     allocate = (\<lambda>bytes alignment. allocate new_delete bytes alignment),
     deallocate = (\<lambda>p bytes alignment. deallocate new_delete p bytes alignment)\<rparr>"

fun resource_memory ::
  "('w, 'p) memory_resource \<Rightarrow> (nat \<Rightarrow> ('w, 'p) memory_resource) \<Rightarrow> resource \<Rightarrow> ('w, 'p) memory_resource"
where
  "resource_memory new_delete other (WardenResource n) = warden_memory new_delete"
| "resource_memory new_delete other (AllocatorResource n r) = \<lparr>
     allocate = (\<lambda>bytes alignment. allocate (resource_memory new_delete other r) bytes alignment),
     deallocate = (\<lambda>p bytes alignment. deallocate (resource_memory new_delete other r) p bytes alignment)\<rparr>"
| "resource_memory new_delete other (OtherResource n) = other n"

fun is_equal :: "(nat \<Rightarrow> resource \<Rightarrow> bool) \<Rightarrow> resource \<Rightarrow> resource \<Rightarrow> bool" where
  "is_equal other_equal (WardenResource n) r \<longleftrightarrow> WardenResource n = r"
| "is_equal other_equal (AllocatorResource n b) r \<longleftrightarrow> is_equal other_equal b r"
| "is_equal other_equal (OtherResource n) r \<longleftrightarrow> other_equal n r"

fun behind :: "resource \<Rightarrow> resource" where
  "behind (AllocatorResource n r) = behind r"
| "behind r = r"

lemma resource_memory_behind:
  "resource_memory new_delete other r = resource_memory new_delete other (behind r)"
  by (induction r) simp_all

lemma is_equal_behind: "is_equal oe r r' = is_equal oe (behind r) r'"
  by (induction r) simp_all

lemma behind_leaf: "behind r \<noteq> AllocatorResource n b"
  by (induction r) simp_all

text \<open>Resources that say they are equal are interchangeable: they get and give back their memory in the
  same place. But an allocator over a resource that compares by address, as the wardens and
  \<open>new_delete_resource\<close> do, never says so of itself, nor of another allocator over the same one,
  although both are.\<close>

theorem allocator_not_equal_to_itself:
  assumes "\<And>n r. other_equal n r \<longleftrightarrow> r = OtherResource n"
  shows "(is_equal other_equal r r' \<longrightarrow> resource_memory nd other r = resource_memory nd other r') \<and>
    \<not> is_equal other_equal (AllocatorResource n r) (AllocatorResource m r) \<and>
    resource_memory nd other (AllocatorResource n r) = resource_memory nd other (AllocatorResource m r)"
proof -
  have leaf: "is_equal other_equal x y \<longleftrightarrow> y = behind x" for x y
    using assms by (induction x) auto
  show ?thesis
    using resource_memory_behind [of nd other r] behind_leaf [of r m r] by (auto simp: leaf)
qed

theorem allocator_not_equal_to_itself_witness:
  "\<not> is_equal (\<lambda>n r. r = OtherResource n) (AllocatorResource 1 (WardenResource 0)) (AllocatorResource 1 (WardenResource 0))
   \<and> is_equal (\<lambda>n r. r = OtherResource n) (AllocatorResource 1 (WardenResource 0)) (WardenResource 0)"
  using allocator_not_equal_to_itself [of "\<lambda>n r. r = OtherResource n" "WardenResource 0" "WardenResource 0"
      nd other 1 1] by simp

end
