(* ===== verification/Overloads.thy ===== *)
theory Overloads
  imports Conveniences Interface
begin

text \<open>
  The overloads of the convenience layer: an owner in place of a descriptor (\<open>posix.hpp\<close>), the
  kinds of buffer that \<open>read_exactly\<close> and \<open>write_all\<close> take, each with no deadline, a deadline or a
  time out (\<open>read.hpp\<close>, \<open>write.hpp\<close>), the free-standing calls on a TLS connection (\<open>tls.hpp\<close>),
  \<open>connect\<close> (\<open>connect.hpp\<close>) and TCP sockets (\<open>warden.hpp\<close>).
\<close>

subsection \<open>Owners in place of descriptors\<close>

definition listen_on :: "'k posix_os \<Rightarrow> sock \<Rightarrow> int \<Rightarrow> 'k \<Rightarrow> (exn + unit) \<times> 'k" where
  "listen_on os s backlog k = listen_fd os (native_handle s) backlog k"

definition set_non_blocking_on :: "'k posix_os \<Rightarrow> sock \<Rightarrow> 'k \<Rightarrow> (exn + unit) \<times> 'k" where
  "set_non_blocking_on os s k = set_non_blocking os (native_handle s) k"

definition set_reuse_port_on :: "'k posix_os \<Rightarrow> sock \<Rightarrow> 'k \<Rightarrow> (exn + unit) \<times> 'k" where
  "set_reuse_port_on os s k = set_reuse_port os (native_handle s) k"

definition bind_on ::
  "'k posix_os \<Rightarrow> sock \<Rightarrow> 32 word \<Rightarrow> 16 word \<Rightarrow> 'k \<Rightarrow> (exn + unit) \<times> 'k" where
  "bind_on os s addr port k = bind_fd os (native_handle s) addr port k"

definition bind_to_any_address_on ::
  "'k posix_os \<Rightarrow> sock \<Rightarrow> 16 word \<Rightarrow> 'k \<Rightarrow> (exn + unit) \<times> 'k" where
  "bind_to_any_address_on os s port k = bind_fd os (native_handle s) 0 port k"

definition IPPROTO_TCP :: int where [simp]: "IPPROTO_TCP = 6"

definition create_tcp_socket ::
  "'k posix_os \<Rightarrow> (fd \<Rightarrow> 'k \<Rightarrow> (exn + unit) \<times> 'k) \<Rightarrow> 'k \<Rightarrow> (exn + fd) \<times> 'k" where
  "create_tcp_socket os prepare k = create_socket os prepare AF_INET SOCK_STREAM IPPROTO_TCP k"

text \<open>The two forms of \<open>connect\<close> with a socket of the caller's.\<close>

definition connect_socket ::
  "('w, 'p) warden_ops \<Rightarrow> ('w \<Rightarrow> ns \<times> 'w) \<Rightarrow> sock \<Rightarrow> sockaddr \<Rightarrow> time_limit \<Rightarrow> 'w \<Rightarrow> cid \<times> 'w" where
  "connect_socket ops clock s a limit w =
     (case limit of
        Within t \<Rightarrow> (let (now, w1) = clock w in warden_connect ops clock s a (By (now + t)) w1)
      | _ \<Rightarrow> warden_connect ops clock s a limit w)"

subsection \<open>Kinds of buffer\<close>

text \<open>
  Where \<open>read_exactly\<close> reads into: a span of bytes or of \<open>uint8_t\<close>, or a pointer with a count. Where
  \<open>write_all\<close> takes its bytes from: the same, with the bytes that stand there, or a string.
\<close>

datatype room = RoomBytes nat | RoomPointer nat | RoomOctets nat

fun room_size :: "room \<Rightarrow> nat" where
  "room_size (RoomBytes n) = n"
| "room_size (RoomPointer count) = count"
| "room_size (RoomOctets n) = n"

datatype source = FromBytes "byte list" | FromPointer "byte list" nat | FromOctets "byte list"
  | FromString string

text \<open>A pointer is given by the bytes it can be read from; \<open>count\<close> of them are meant.\<close>

fun source_bytes :: "source \<Rightarrow> byte list" where
  "source_bytes (FromBytes s) = s"
| "source_bytes (FromPointer buf count) = take count buf"
| "source_bytes (FromOctets s) = s"
| "source_bytes (FromString s) = map of_char s"

definition read_exactly_into ::
  "'k posix_os \<Rightarrow> (ns option \<Rightarrow> nat \<Rightarrow> ('k, byte list) io) \<Rightarrow> room \<Rightarrow> time_limit \<Rightarrow> ('k, byte list) io"
where
  "read_exactly_into os rd b limit k =
     (let (dl, k1) = resolve (os_now os) limit k in read_exactly rd dl (room_size b) [] k1)"

definition write_all_from ::
  "'k posix_os \<Rightarrow> (ns option \<Rightarrow> byte list \<Rightarrow> ('k, nat) io) \<Rightarrow> source \<Rightarrow> time_limit \<Rightarrow> ('k, nat) io"
where
  "write_all_from os wr s limit k =
     (let (dl, k1) = resolve (os_now os) limit k in write_all wr dl (source_bytes s) 0 k1)"

subsection \<open>Free-standing TLS calls\<close>

definition tls_read_some_on ::
  "'k posix_os \<Rightarrow> 'k openssl \<Rightarrow> (ns option \<Rightarrow> nat \<Rightarrow> ('k, byte list) io) \<Rightarrow>
   (ns option \<Rightarrow> byte list \<Rightarrow> ('k, nat) io) \<Rightarrow> nat \<Rightarrow> time_limit \<Rightarrow> ('k, byte list) io" where
  "tls_read_some_on os ssl rd wr n limit k =
     (let (dl, k1) = resolve (os_now os) limit k in tls_read_some ssl rd wr dl n k1)"

definition tls_write_some_on ::
  "'k posix_os \<Rightarrow> 'k openssl \<Rightarrow> (ns option \<Rightarrow> nat \<Rightarrow> ('k, byte list) io) \<Rightarrow>
   (ns option \<Rightarrow> byte list \<Rightarrow> ('k, nat) io) \<Rightarrow> byte list \<Rightarrow> time_limit \<Rightarrow> ('k, nat) io" where
  "tls_write_some_on os ssl rd wr bs limit k =
     (let (dl, k1) = resolve (os_now os) limit k in tls_write_some ssl rd wr dl bs k1)"

subsection \<open>Through a pipe\<close>

lemma resolve_keeps:
  assumes "resolve (os_now os) limit k = (dl, k1)" "\<And>k. f (snd (os_now os k)) = f k"
  shows "f k1 = f k"
  using assms(1) assms(2) [of k] by (cases limit) (auto split: prod.splits)

lemma write_all_from_sink:
  assumes "writes_sink wr sent" "write_all_from os wr s limit k = Some (Inr n, k')"
    and "\<And>k. sent (snd (os_now os k)) = sent k"
  shows "n \<le> length (source_bytes s) \<and> sent k' = sent k @ take n (source_bytes s)"
proof -
  obtain dl k1 where r: "resolve (os_now os) limit k = (dl, k1)" by (cases "resolve (os_now os) limit k")
  have "write_all wr dl (source_bytes s) 0 k1 = Some (Inr n, k')"
    using assms(2) r by (simp add: write_all_from_def)
  with write_all_sink [OF assms(1), of dl "source_bytes s" 0 k1] resolve_keeps [OF r, of sent] assms(3)
  show ?thesis by (auto simp: write_outcome_def)
qed

lemma read_exactly_into_stream:
  assumes "reads_stream rd pending" "read_exactly_into os rd b limit k = Some (Inr bs, k')"
    and "\<And>k. pending (snd (os_now os k)) = pending k"
  shows "bs = take (room_size b) (pending k) \<and> pending k' = drop (room_size b) (pending k)"
proof -
  obtain dl k1 where r: "resolve (os_now os) limit k = (dl, k1)" by (cases "resolve (os_now os) limit k")
  have "read_exactly rd dl (room_size b) [] k1 = Some (Inr bs, k')"
    using assms(2) r by (simp add: read_exactly_into_def)
  with read_exactly_stream [OF assms(1), of dl "room_size b" "[]" k1] resolve_keeps [OF r, of pending] assms(3)
  show ?thesis by (simp add: exactly_outcome_def)
qed


text \<open>A pipe whose kernel state is what is in it; it moves at most two bytes at a time.\<close>

definition pipe_os :: "byte list posix_os" where
  "pipe_os = quiet_os\<lparr>
     os_read := (\<lambda>f n k. (Some (take (min 2 n) k), drop (min 2 n) k)),
     os_write := (\<lambda>f bs k. (Some (min 2 (length bs)), k @ take 2 bs))\<rparr>"


end
