(* ===== verification/HttpServer.thy ===== *)
theory HttpServer
  imports Overloads
begin

text \<open>
  The web server of \<open>examples/http-benchmark.cpp\<close> on the poll warden: one coroutine per
  connection that reads the head of a request, answers and closes (\<open>http_request\<close>), the loop
  that accepts connections, and \<open>main\<close>. The starter that runs the coroutines is not part of the
  repository: posting a task, collecting the finished ones and dropping the rest when the
  starter goes are the parameters \<open>post\<close>, \<open>collect_garbage\<close> and \<open>drop_tasks\<close>.
\<close>

subsection \<open>The responses\<close>

definition text_bytes :: "string \<Rightarrow> byte list" where
  "text_bytes s = map of_char s"

definition crlf :: string where
  "crlf = [CHR 0x0D, CHR 0x0A]"

definition short_text :: "byte list" where
  "short_text = text_bytes (''HTTP/1.0 200 OK'' @ crlf @ ''Content-Length: 3'' @ crlf @ crlf
     @ ''OK'' @ [CHR 0x0A])"

text \<open>\<open>data\<close> is what \<open>/dev/urandom\<close> gives: \<open>10 << 10\<close> bytes.\<close>

definition octets :: nat where
  "octets = push_bit 10 10"

definition big_octets :: "byte list \<Rightarrow> byte list" where
  "big_octets data =
     text_bytes (''HTTP/1.0 200 OK'' @ crlf @ ''Content-Length: '' @ to_digits octets @ crlf @ crlf)
     @ data"

subsection \<open>One connection\<close>

text \<open>The \<open>posix::fd\<close> a coroutine owns closes its descriptor when an exception leaves the coroutine.\<close>

definition closing_on_throw :: "'k posix_os \<Rightarrow> fd \<Rightarrow> ('k, 'a) io \<Rightarrow> ('k, 'a) io" where
  "closing_on_throw os f m k =
     (case m k of
        None \<Rightarrow> None
      | Some (Inl e, k1) \<Rightarrow> Some (Inl e, snd (os_close os f k1))
      | Some (Inr x, k1) \<Rightarrow> Some (Inr x, k1))"

definition poll_close :: "'k posix_os \<Rightarrow> 'k park \<Rightarrow> fd \<Rightarrow> ('k, unit) io" where
  "poll_close os park f k =
     (case await_iop os park (Close f) None k of
        None \<Rightarrow> None
      | Some (x, k1) \<Rightarrow>
          (case iop_value x of Inl e \<Rightarrow> Some (Inl e, k1) | Inr v \<Rightarrow> Some (Inr (), k1)))"

partial_function (option) read_headers ::
  "(ns option \<Rightarrow> nat \<Rightarrow> ('k, byte list) io) \<Rightarrow> read_buffer \<Rightarrow> 'k
    \<Rightarrow> (((exn + unit) \<times> read_buffer) \<times> 'k) option" where
  "read_headers rd b k =
     (case read_until_lf_strip_cr rd None b k of
        None \<Rightarrow> None
      | Some qk \<Rightarrow>
          (case fst (fst qk) of
             Inl e \<Rightarrow> Some ((Inl e, snd (fst qk)), snd qk)
           | Inr header \<Rightarrow>
               (if snd header \<noteq> 0 then read_headers rd (snd (fst qk)) (snd qk)
                else Some ((Inr (), snd (fst qk)), snd qk))))"

text \<open>\<open>storage\<close> is the array of the buffer, at address \<open>a\<close>.\<close>

definition read_head ::
  "(ns option \<Rightarrow> nat \<Rightarrow> ('k, byte list) io) \<Rightarrow> read_buffer \<Rightarrow> ('k, unit) io" where
  "read_head rd b k =
     (case read_until_lf_strip_cr rd None b k of
        None \<Rightarrow> None
      | Some ((Inl e, b1), k1) \<Rightarrow> Some (Inl e, k1)
      | Some ((Inr request, b1), k1) \<Rightarrow>
          (case read_headers rd b1 k1 of
             None \<Rightarrow> None
           | Some ((r, b2), k2) \<Rightarrow> Some (r, k2)))"

definition buffer_bytes :: nat where
  "buffer_bytes = push_bit 10 2"

definition http_request ::
  "'k posix_os \<Rightarrow> 'k park \<Rightarrow> int \<Rightarrow> byte list \<Rightarrow> fd \<Rightarrow> ('k, unit) io" where
  "http_request os park a response f =
     io_bind
       (closing_on_throw os f
         (io_bind (read_head (poll_read os park f) (new_read_buffer a (replicate buffer_bytes 0)))
           (\<lambda>u. write_all (poll_write os park f) None response 0)))
       (\<lambda>n. poll_close os park f)"

subsection \<open>The server\<close>

partial_function (option) accept_loop ::
  "'k posix_os \<Rightarrow> 'k park \<Rightarrow> ((fd \<Rightarrow> ('k, unit) io) \<Rightarrow> fd \<Rightarrow> 'k \<Rightarrow> (exn + unit) \<times> 'k) \<Rightarrow>
   ('k \<Rightarrow> (exn + unit) \<times> 'k) \<Rightarrow> (fd \<Rightarrow> ('k, unit) io) \<Rightarrow> fd \<Rightarrow> ('k, unit) io" where
  "accept_loop os park post collect_garbage handler socket k =
     (case await_iop os park (Accept socket) None k of
        None \<Rightarrow> None
      | Some xk \<Rightarrow>
          (case accept_next (accepted (fst xk)) of
             Throw e \<Rightarrow> Some (Inl e, snd xk)
           | EndOfStream \<Rightarrow> Some (Inr (), snd xk)
           | Yield cnx \<Rightarrow>
               (case post handler cnx (snd xk) of
                  (Inl e, k1) \<Rightarrow> Some (Inl e, k1)
                | (Inr u, k1) \<Rightarrow>
                    (case collect_garbage k1 of
                       (Inl e, k2) \<Rightarrow> Some (Inl e, k2)
                     | (Inr v, k2) \<Rightarrow> accept_loop os park post collect_garbage handler socket k2))))"

text \<open>\<open>co_main\<close>: the socket is closed however the coroutine ends, its tasks are dropped before.\<close>

definition prepare_listener :: "'k posix_os \<Rightarrow> fd \<Rightarrow> 'k \<Rightarrow> (exn + unit) \<times> 'k" where
  "prepare_listener os s k =
     (case set_reuse_port_on os (Owner s) k of
        (Inl e, k1) \<Rightarrow> (Inl e, k1)
      | (Inr u, k1) \<Rightarrow>
          (case bind_to_any_address_on os (Owner s) 4040 k1 of
             (Inl e, k2) \<Rightarrow> (Inl e, k2)
           | (Inr v, k2) \<Rightarrow> listen_on os (Owner s) 64 k2))"

definition co_main ::
  "'k posix_os \<Rightarrow> (fd \<Rightarrow> ('k, unit) io) \<Rightarrow> ('k \<Rightarrow> 'k) \<Rightarrow> ('k, int) io" where
  "co_main os serve drop_tasks k =
     (case create_socket os (do_prepare_socket os) AF_INET SOCK_STREAM 0 k of
        (Inl e, k1) \<Rightarrow> Some (Inl e, k1)
      | (Inr s, k1) \<Rightarrow>
          (case prepare_listener os s k1 of
             (Inl e, k2) \<Rightarrow> Some (Inl e, snd (os_close os s k2))
           | (Inr u, k2) \<Rightarrow>
               (case serve s k2 of
                  None \<Rightarrow> None
                | Some (Inl e, k3) \<Rightarrow> Some (Inl e, snd (os_close os s (drop_tasks k3)))
                | Some (Inr v, k3) \<Rightarrow> Some (Inr 0, snd (os_close os s (drop_tasks k3))))))"

text \<open>\<open>main\<close>: \<open>run\<close> is \<open>warden::run\<close> of \<open>co_main\<close> on the new warden.\<close>

definition main ::
  "'k posix_os \<Rightarrow> ('k poll_warden \<Rightarrow> (exn + int) option) \<Rightarrow> 'k \<Rightarrow> int option" where
  "main os run k =
     (case promise_to_never_use_select os k of
        (Inl e, k1) \<Rightarrow> Some (-1)
      | (Inr limits, k1) \<Rightarrow>
          (case new_poll_warden os k1 of
             Inl e \<Rightarrow> Some (-1)
           | Inr w \<Rightarrow>
               (case run w of
                  None \<Rightarrow> None
                | Some (Inl e) \<Rightarrow> Some (-1)
                | Some (Inr r) \<Rightarrow> Some r)))"

text \<open>The accepting loop \<open>co_main\<close> awaits, with the coroutine it posts.\<close>

definition web_server ::
  "'k posix_os \<Rightarrow> 'k park \<Rightarrow> ((fd \<Rightarrow> ('k, unit) io) \<Rightarrow> fd \<Rightarrow> 'k \<Rightarrow> (exn + unit) \<times> 'k) \<Rightarrow>
   ('k \<Rightarrow> (exn + unit) \<times> 'k) \<Rightarrow> int \<Rightarrow> byte list \<Rightarrow> fd \<Rightarrow> ('k, unit) io" where
  "web_server os park post collect_garbage a data =
     accept_loop os park post collect_garbage (http_request os park a (big_octets data))"

subsection \<open>Reading the head of a request\<close>

text \<open>
  A run of header lines, each with something in it; \<open>cut_short\<close> is how a line ends that is not
  there: the stream has ended, or the buffer is full.
\<close>

definition cut_short :: "('k \<Rightarrow> byte list) \<Rightarrow> read_buffer \<Rightarrow> 'k \<Rightarrow> bool" where
  "cut_short pending b k \<longleftrightarrow> LF \<notin> set (content b) \<and> (pending k = [] \<or> snd (empty_buffer b) = 0)"

definition lines_of :: "byte list list \<Rightarrow> byte list" where
  "lines_of ls = concat (map (\<lambda>l. l @ [LF]) ls)"

definition header_line :: "byte list \<Rightarrow> bool" where
  "header_line l \<longleftrightarrow> LF \<notin> set l \<and> strip l \<noteq> []"

definition headers_outcome ::
  "(ns option \<Rightarrow> nat \<Rightarrow> ('k, byte list) io) \<Rightarrow> ('k \<Rightarrow> byte list) \<Rightarrow> byte list
    \<Rightarrow> (((exn + unit) \<times> read_buffer) \<times> 'k) option \<Rightarrow> bool" where
  "headers_outcome rd pending input r \<longleftrightarrow>
     (case r of
        None \<Rightarrow> \<exists>n k1. rd None n k1 = None
      | Some ((Inl e, b'), k') \<Rightarrow> \<exists>n k1. rd None n k1 = Some (Inl e, k')
      | Some ((Inr u, b'), k') \<Rightarrow>
          (\<exists>hs blank. (\<forall>h\<in>set hs. header_line h) \<and> LF \<notin> set blank \<and> strip blank = [] \<and>
             input = lines_of hs @ blank @ LF # content b' @ pending k') \<or>
          (\<exists>hs. (\<forall>h\<in>set hs. header_line h) \<and> input = lines_of hs @ content b' @ pending k' \<and>
             cut_short pending b' k'))"

lemma headers_complete:
  assumes "\<forall>h\<in>set hs. header_line h" "LF \<notin> set blank" "strip blank = []"
    and "input = lines_of hs @ blank @ LF # content b' @ pending k'"
  shows "headers_outcome rd pending input (Some ((Inr u, b'), k'))"
  using assms unfolding headers_outcome_def option.case prod.case sum.case by blast

lemma headers_cut:
  assumes "\<forall>h\<in>set hs. header_line h" "input = lines_of hs @ content b' @ pending k'"
    and "cut_short pending b' k'"
  shows "headers_outcome rd pending input (Some ((Inr u, b'), k'))"
  using assms unfolding headers_outcome_def option.case prod.case sum.case by blast

lemma headers_outcome_Cons:
  assumes "header_line h" "headers_outcome rd pending input r"
  shows "headers_outcome rd pending (h @ LF # input) r"
proof (cases r)
  case None
  with assms(2) show ?thesis by (simp add: headers_outcome_def)
next
  case (Some z)
  obtain q b' k' where z: "z = ((q, b'), k')" by (metis surj_pair)
  show ?thesis
  proof (cases q)
    case (Inl e)
    with assms(2) Some z show ?thesis by (simp add: headers_outcome_def)
  next
    case (Inr u)
    have cons: "lines_of (h # hs) = h @ LF # lines_of hs" for hs by (simp add: lines_of_def)
    from assms(2) Some z Inr consider
        (full) hs blank where "\<forall>h\<in>set hs. header_line h" "LF \<notin> set blank" "strip blank = []"
          "input = lines_of hs @ blank @ LF # content b' @ pending k'"
      | (cut) hs where "\<forall>h\<in>set hs. header_line h" "input = lines_of hs @ content b' @ pending k'"
          "cut_short pending b' k'"
      by (auto simp: headers_outcome_def)
    then show ?thesis
    proof cases
      case full
      show ?thesis
        unfolding Some z Inr
        by (rule headers_complete [of "h # hs"]) (use full assms(1) in \<open>simp_all add: cons\<close>)
    next
      case cut
      show ?thesis
        unfolding Some z Inr
        by (rule headers_cut [of "h # hs"]) (use cut assms(1) in \<open>simp_all add: cons\<close>)
    qed
  qed
qed

text \<open>Every line takes bytes off what is buffered and still to come, so the loop ends.\<close>

lemma read_headers_outcome:
  assumes law: "reads_stream rd pending"
  shows "buffer_ok b \<Longrightarrow>
    headers_outcome rd pending (content b @ pending k) (read_headers rd b k)"
proof (induction "length (content b @ pending k)" arbitrary: b k rule: less_induct)
  case less
  note unfold = read_headers.simps [of rd b k]
  have line: "line_outcome rd None pending b k (read_until_lf_strip_cr rd None b k)"
    by (rule read_until_stream [OF law less.prems])
  show ?case
  proof (cases "read_until_lf_strip_cr rd None b k")
    case None
    with line show ?thesis by (simp add: unfold line_outcome_def headers_outcome_def)
  next
    case (Some z)
    obtain q b1 k1 where z: "z = ((q, b1), k1)" by (metis surj_pair)
    show ?thesis
    proof (cases q)
      case (Inl e)
      with line Some z show ?thesis by (simp add: unfold line_outcome_def headers_outcome_def)
    next
      case (Inr s)
      with line Some z consider
          (line) l where "buffer_ok b1" "content b @ pending k = l @ LF # content b1 @ pending k1"
            "LF \<notin> set l" "snd s = length (strip l)"
        | (cut) "snd s = 0" "content b @ pending k = content b1 @ pending k1"
            "cut_short pending b1 k1"
        by (auto simp: line_outcome_def cut_short_def)
      then show ?thesis
      proof cases
        case line
        show ?thesis
        proof (cases "strip l = []")
          case True
          with line Some z Inr have "read_headers rd b k = Some ((Inr (), b1), k1)"
            by (simp add: unfold)
          then show ?thesis
            using headers_complete [of "[]" l "content b @ pending k" b1 pending k1] True line by (simp add: lines_of_def)
        next
          case False
          then have "read_headers rd b k = read_headers rd b1 k1"
            using Some z Inr line(4) by (simp add: unfold)
          moreover have "headers_outcome rd pending (content b1 @ pending k1) (read_headers rd b1 k1)"
            using less.hyps [of b1 k1] line(1,2) by simp
          ultimately show ?thesis
            using headers_outcome_Cons [of l] False line(2,3) by (simp add: header_line_def)
        qed
      next
        case cut
        with Some z Inr have "read_headers rd b k = Some ((Inr (), b1), k1)"
          by (simp add: unfold)
        then show ?thesis
          using headers_cut [of "[]" "content b @ pending k" b1 pending k1] cut by (simp add: lines_of_def)
      qed
    qed
  qed
qed

definition head_outcome ::
  "(ns option \<Rightarrow> nat \<Rightarrow> ('k, byte list) io) \<Rightarrow> ('k \<Rightarrow> byte list) \<Rightarrow> byte list
    \<Rightarrow> ((exn + unit) \<times> 'k) option \<Rightarrow> bool" where
  "head_outcome rd pending input r \<longleftrightarrow>
     (case r of
        None \<Rightarrow> \<exists>n k1. rd None n k1 = None
      | Some (Inl e, k') \<Rightarrow> \<exists>n k1. rd None n k1 = Some (Inl e, k')
      | Some (Inr u, k') \<Rightarrow>
          (\<exists>request hs blank left. LF \<notin> set request \<and> (\<forall>h\<in>set hs. header_line h) \<and>
             LF \<notin> set blank \<and> strip blank = [] \<and>
             input = request @ LF # lines_of hs @ blank @ LF # left @ pending k') \<or>
          (\<exists>ls b k1. input = lines_of ls @ content b @ pending k1 \<and>
             (\<forall>h\<in>set (tl ls). header_line h) \<and> cut_short pending b k1))"

lemma read_head_outcome:
  assumes law: "reads_stream rd pending" and ok: "buffer_ok b"
  shows "head_outcome rd pending (content b @ pending k) (read_head rd b k)"
proof -
  have line: "line_outcome rd None pending b k (read_until_lf_strip_cr rd None b k)"
    by (rule read_until_stream [OF law ok])
  show ?thesis
  proof (cases "read_until_lf_strip_cr rd None b k")
    case None
    with line show ?thesis by (simp add: read_head_def line_outcome_def head_outcome_def)
  next
    case (Some z)
    obtain q b1 k1 where z: "z = ((q, b1), k1)" by (metis surj_pair)
    show ?thesis
    proof (cases q)
      case (Inl e)
      with line Some z show ?thesis by (simp add: read_head_def line_outcome_def head_outcome_def)
    next
      case (Inr s)
      with line Some z have ok1: "buffer_ok b1" by (simp add: line_outcome_def)
      note hd = read_headers_outcome [OF law ok1, of k1]
      have eq: "read_head rd b k = (case read_headers rd b1 k1 of
          None \<Rightarrow> None | Some ((r, b2), k2) \<Rightarrow> Some (r, k2))"
        using Some z Inr by (simp add: read_head_def)
      show ?thesis
      proof (cases "read_headers rd b1 k1")
        case None
        with hd eq show ?thesis by (simp add: head_outcome_def headers_outcome_def)
      next
        case h: (Some y)
        obtain r b2 k2 where y: "y = ((r, b2), k2)" by (metis surj_pair)
        show ?thesis
        proof (cases r)
          case (Inl e)
          with hd eq h y show ?thesis by (simp add: head_outcome_def headers_outcome_def)
        next
          case r: (Inr u)
          from line Some z Inr consider
              (line) l where "content b @ pending k = l @ LF # content b1 @ pending k1" "LF \<notin> set l"
            | (cut) "content b @ pending k = content b1 @ pending k1" "cut_short pending b1 k1"
            by (auto simp: line_outcome_def cut_short_def)
          then have "(\<exists>request hs blank left. LF \<notin> set request \<and> (\<forall>h\<in>set hs. header_line h) \<and>
               LF \<notin> set blank \<and> strip blank = [] \<and> content b @ pending k =
                 request @ LF # lines_of hs @ blank @ LF # left @ pending k2) \<or>
             (\<exists>ls b' k'. content b @ pending k = lines_of ls @ content b' @ pending k' \<and>
               (\<forall>h\<in>set (tl ls). header_line h) \<and> cut_short pending b' k')"
          proof cases
            case line
            from hd h y r consider
                (full) hs blank where "\<forall>h\<in>set hs. header_line h" "LF \<notin> set blank" "strip blank = []"
                  "content b1 @ pending k1 = lines_of hs @ blank @ LF # content b2 @ pending k2"
              | (ended) hs where "\<forall>h\<in>set hs. header_line h"
                  "content b1 @ pending k1 = lines_of hs @ content b2 @ pending k2"
                  "cut_short pending b2 k2"
              by (auto simp: headers_outcome_def)
            then show ?thesis
            proof cases
              case full
              with line show ?thesis by metis
            next
              case ended
              then have "content b @ pending k = lines_of (l # hs) @ content b2 @ pending k2"
                using line by (simp add: lines_of_def)
              moreover have "\<forall>h\<in>set (tl (l # hs)). header_line h" using ended by simp
              ultimately show ?thesis using ended(3) by blast
            qed
          next
            case cut
            then have "content b @ pending k = lines_of [] @ content b1 @ pending k1"
              "\<forall>h\<in>set (tl []). header_line h"
              by (simp_all add: lines_of_def)
            with cut(2) show ?thesis by blast
          qed
          with eq h y r show ?thesis
            unfolding head_outcome_def by simp
        qed
      qed
    qed
  qed
qed

subsection \<open>Answering a request\<close>

lemma poll_close_now: "poll_close os park f k = Some (Inr (), snd (os_close os f k))"
  by (simp add: poll_close_def await_iop.simps attempt_def fresh_completion_def
      try_or_resume_obj_def close_try_or_resume_def cancel_timeout_then_resume_def
      cancel_timeout_def store_def iop_value_def outcome_defs start_warden_def Let_def)

text \<open>The second half of a connection: the answer, and the close.\<close>

lemma http_answer_outcome:
  assumes "peer_takes os park f sent"
    and head: "read_head (poll_read os park f) (new_read_buffer a (replicate buffer_bytes 0)) k = Some (Inr u, k1)"
  shows "case http_request os park a response f k of
      None \<Rightarrow> \<exists>bs k1. poll_write os park f None bs k1 = None
    | Some (Inl e, k') \<Rightarrow> \<exists>k2. k' = snd (os_close os f k2) \<and>
        (\<exists>bs k1. poll_write os park f None bs k1 = Some (Inl e, k2))
    | Some (Inr u, k') \<Rightarrow> \<exists>k2 i. k' = snd (os_close os f k2) \<and>
        i \<le> length response \<and> sent k2 = sent k1 @ take i response \<and>
        (i < length response \<longrightarrow>
           (\<exists>k3. poll_write os park f None (drop i response) k3 = Some (Inr 0, k2)))"
proof -
  let ?wr = "poll_write os park f"
  have body: "write_outcome ?wr None sent response 0 k1 (write_all ?wr None response 0 k1)"
    by (rule write_all_sink [OF poll_writes_sink [OF assms(1)]])
  note unfold = http_request_def io_bind_def closing_on_throw_def poll_close_now write_outcome_def
  show ?thesis
  proof (cases "write_all ?wr None response 0 k1")
    case None
    with body head show ?thesis by (auto simp: unfold)
  next
    case (Some y)
    obtain q k2 where "y = (q, k2)" by (cases y)
    with body head Some show ?thesis by (cases q) (fastforce simp: unfold)+
  qed
qed


text \<open>A kernel whose state is what the client will still send and what it has got.\<close>

definition web_os :: "(byte list \<times> byte list) posix_os" where
  "web_os = quiet_os\<lparr>
     os_read := (\<lambda>f n k. (Some (take n (fst k)), drop n (fst k), snd k)),
     os_write := (\<lambda>f bs k. (Some (length bs), fst k, snd k @ bs))\<rparr>"

lemma web_sends: "peer_sends web_os (\<lambda>k. Some (Some (), k)) f fst"
  by (simp add: peer_sends_def web_os_def quiet_os_def) blast

lemma web_takes: "peer_takes web_os (\<lambda>k. Some (Some (), k)) f snd"
  by (simp add: peer_takes_def web_os_def quiet_os_def)

lemma web_read: "poll_read web_os park f dl n k = Some (Inr (take n (fst k)), drop n (fst k), snd k)"
  by (subst poll_read_now [where bs = "take n (fst k)"]) (auto simp: web_os_def quiet_os_def)

lemma web_write: "poll_write web_os park f dl bs k = Some (Inr (length bs), fst k, snd k @ bs)"
  by (subst poll_write_now [where n = "length bs"]) (auto simp: web_os_def quiet_os_def)

lemma web_close: "os_close web_os f k = (0, k)"
  by (simp add: web_os_def quiet_os_def)


subsection \<open>The accepting loop\<close>

lemma accepted_not_end:
  assumes os: "\<And>k. -1 \<le> fst (os_accept4 os f k)"
    and run: "await_iop os park (Accept f) dl k = Some (x, k')"
  shows "accept_next (accepted x) \<noteq> EndOfStream"
proof -
  consider (tried) k1 where "attempt os (Accept f) dl k1 = (Some x, k')"
    | (late) "x = fail ETIME ''IOP timed out'' (fresh_completion (Accept f) dl)"
    using await_iop_ends [OF run] by blast
  then show ?thesis
  proof cases
    case tried
    with os [of k1] show ?thesis
      by (auto simp: attempt_def fresh_completion_def try_or_resume_obj_def accept_try_or_resume_def
          cancel_timeout_then_resume_def succeed_def fail_def Let_def store_def
          cancel_timeout_def start_warden_def iop_value_def outcome_defs accept_next_def
          split: prod.splits option.splits if_splits)
  next
    case late
    moreover obtain e where "iop_value x = Inl e" using late iop_value_fail [of "fresh_completion (Accept f) dl"] by auto
    ultimately show ?thesis by (simp add: accept_next_def)
  qed
qed

lemma accept_loop_throws:
  assumes run: "accept_loop os park post gc handler f k = Some (r, k')"
    and os: "\<And>k. -1 \<le> fst (os_accept4 os f k)"
  shows "\<exists>e. r = Inl e"
proof -
  have "(\<forall>k. -1 \<le> fst (os_accept4 os f k)) \<longrightarrow> (\<exists>e. fst (r, k') = Inl e)"
  proof (rule accept_loop.raw_induct
      [where P = "\<lambda>os park post gc handler f k r. (\<forall>k. -1 \<le> fst (os_accept4 os f k)) \<longrightarrow>
          (\<exists>e. fst r = Inl e)", OF _ run], intro impI)
    fix rec and os :: "'a posix_os" and park post gc handler f k r
    assume IH: "\<And>(os :: 'a posix_os) park post gc handler f k r.
          rec os park post gc handler f k = Some r \<Longrightarrow>
          (\<forall>k. -1 \<le> fst (os_accept4 os f k)) \<longrightarrow> (\<exists>e. fst r = Inl e)"
      and eq: "(case await_iop os park (Accept f) None k of
          None \<Rightarrow> None
        | Some xk \<Rightarrow> (case accept_next (accepted (fst xk)) of
            Yield cnx \<Rightarrow> (case post handler cnx (snd xk) of
                (Inl e, k1) \<Rightarrow> Some (Inl e, k1)
              | (Inr u, k1) \<Rightarrow> (case gc k1 of
                    (Inl e, k2) \<Rightarrow> Some (Inl e, k2)
                  | (Inr v, k2) \<Rightarrow> rec os park post gc handler f k2))
          | Throw e \<Rightarrow> Some (Inl e, snd xk)
          | EndOfStream \<Rightarrow> Some (Inr (), snd xk))) = Some r"
      and law: "\<forall>k. -1 \<le> fst (os_accept4 os f k)"
    obtain x k1 where x: "await_iop os park (Accept f) None k = Some (x, k1)"
      using eq by (cases "await_iop os park (Accept f) None k") auto
    show "\<exists>e. fst r = Inl e"
    proof (cases "accept_next (accepted x)")
      case (Yield cnx)
      obtain q k2 where p: "post handler cnx k1 = (q, k2)" by (cases "post handler cnx k1")
      obtain q' k3 where g: "gc k2 = (q', k3)" by (cases "gc k2")
      show ?thesis
      proof (cases "\<exists>u v. q = Inr u \<and> q' = Inr v")
        case True
        with eq x Yield p g have "rec os park post gc handler f k3 = Some r" by auto
        from IH [OF this] law show ?thesis by blast
      next
        case False
        with eq x Yield p g show ?thesis by (auto split: sum.splits)
      qed
    next
      case (Throw e)
      with eq x show ?thesis by auto
    next
      case EndOfStream
      with accepted_not_end [of os f park None k] law x show ?thesis by auto
    qed
  qed
  with os show ?thesis by auto
qed

text \<open>The server cannot end well on the poll warden: since the accept stream of that warden never
  ends, \<open>co_main\<close> only ever ends with an exception and \<open>main\<close> with \<open>-1\<close>; the listening socket is
  closed each time, once the tasks have been dropped.\<close>

theorem server_ends_only_with_error:
  assumes "\<And>f k. -1 \<le> fst (os_accept4 os f k)"
  shows "(case co_main os (web_server os park post gc a data) drop_tasks k of
            None \<Rightarrow> True
          | Some (r, k') \<Rightarrow>
              (case create_socket os (do_prepare_socket os) AF_INET SOCK_STREAM 0 k of
                 (Inl e, k1) \<Rightarrow> r = Inl e \<and> k' = k1
               | (Inr s, k1) \<Rightarrow> \<exists>e k2. r = Inl e \<and> k' = snd (os_close os s k2))) \<and>
    main os (\<lambda>w. map_option fst (co_main os (web_server os park post gc a data) drop_tasks (kern w))) k0 \<in> {None, Some (-1)}"
proof -
  let ?serve = "web_server os park post gc a data"
  have serve: "?serve s k1 = Some (q, k2) \<Longrightarrow> \<exists>e. q = Inl e" for s k1 q k2
    unfolding web_server_def by (erule accept_loop_throws) (rule assms(1))
  have err: "co_main os ?serve drop_tasks k1 = Some (q, k2) \<Longrightarrow> \<exists>e. q = Inl e" for k1 q k2
    by (auto simp: co_main_def split: prod.splits sum.splits option.splits dest: serve)
  have "case co_main os ?serve drop_tasks k of
            None \<Rightarrow> True
          | Some (r, k') \<Rightarrow>
              (case create_socket os (do_prepare_socket os) AF_INET SOCK_STREAM 0 k of
                 (Inl e, k1) \<Rightarrow> r = Inl e \<and> k' = k1
               | (Inr s, k1) \<Rightarrow> \<exists>e k2. r = Inl e \<and> k' = snd (os_close os s k2))"
    by (auto simp: co_main_def split: prod.splits sum.splits option.splits dest: serve)
  moreover have "main os (\<lambda>w. map_option fst (co_main os ?serve drop_tasks (kern w))) k0 \<in> {None, Some (-1)}"
    by (auto simp: main_def split: prod.splits sum.splits option.splits dest: err)
  ultimately show ?thesis by blast
qed

theorem server_ends_only_with_error_witness:
  "main closed_os (\<lambda>w. map_option fst (co_main closed_os
      (web_server closed_os (\<lambda>k. None) (\<lambda>handler cnx k. (Inr (), k)) (\<lambda>k. (Inr (), k)) 0 []) id (kern w))) 0 = Some (-1)"
proof -
  have law: "\<And>f k. -1 \<le> fst (os_accept4 closed_os f k)" by (simp add: closed_os_def quiet_os_def)
  let ?serve = "web_server closed_os (\<lambda>k. None) (\<lambda>handler cnx k. (Inr (), k)) (\<lambda>k. (Inr (), k)) 0 []"
  have "\<exists>x. attempt closed_os (Accept 5) None 0 = (Some x, 0) \<and>
      accept_next (accepted x) = Throw (SystemError EPERM ''accept'')"
    by (simp add: attempt_def fresh_completion_def try_or_resume_obj_def accept_try_or_resume_def
        closed_os_def quiet_os_def would_block_def bad_fd_def cancel_timeout_then_resume_def
        store_def succeed_def Let_def cancel_timeout_def start_warden_def get_error_def
        iop_value_def outcome_defs accept_next_def)
  then have "?serve 5 0 \<noteq> None"
    unfolding web_server_def
    by (subst accept_loop.simps, subst await_iop.simps) (auto simp del: accepted.simps)
  then have "main closed_os (\<lambda>w. map_option fst (co_main closed_os ?serve id (kern w))) 0 \<noteq> None"
    by (auto simp: main_def promise_to_never_use_select_def new_poll_warden_def create_pipe_def
        co_main_def create_socket_def do_prepare_socket_def set_non_blocking_def prepare_listener_def
        set_reuse_port_def bind_fd_def listen_fd_def set_reuse_port_on_def
        bind_to_any_address_on_def listen_on_def
        closed_os_def quiet_os_def split: option.splits prod.splits sum.splits)
  moreover note server_ends_only_with_error [OF law, where park = "\<lambda>k. None"
      and post = "\<lambda>handler cnx k. (Inr (), k)" and gc = "\<lambda>k. (Inr (), k)"
      and a = 0 and data = "[]" and drop_tasks = id and ?k0.0 = 0, THEN conjunct2]
  ultimately show ?thesis by auto
qed

end
